(* ===== verification/Prelude.thy ===== *)
theory Prelude
  imports Main "HOL-Library.Word" "HOL-Library.AList"
begin

text \<open>
  Shared vocabulary of the development: the C++ types and library calls the components use
  (\<^verbatim>\<open>char\<close>, \<^verbatim>\<open>size_t\<close>, \<^verbatim>\<open>std::string\<close>), the result type of code that can throw or exit, and the
  generic list lemmas.  A \<^verbatim>\<open>std::string\<close> or a byte array is a \<^typ>\<open>string\<close>, one \<^typ>\<open>char\<close> per
  byte; \<^verbatim>\<open>unsigned char\<close> values are 8-bit words.  Sizes and positions are natural numbers;
  where the code subtracts them the wrap-around of \<^verbatim>\<open>size_t\<close> is written out.  Running out of
  memory (\<^verbatim>\<open>std::bad_alloc\<close>) is not modelled.
\<close>

unbundle bit_operations_syntax

named_theorems invs \<open>invariant preservation of the components' operations\<close>
named_theorems abs_simps \<open>effect of the operations on the components' abstractions\<close>

section \<open>C++ scalars\<close>

type_synonym u8 = "8 word"
type_synonym u64 = "64 word"

definition size_max :: nat where
  "size_max = 2 ^ 64"

definition size_sub :: "nat \<Rightarrow> nat \<Rightarrow> nat" where
  "size_sub a b = (if b \<le> a then a - b else a + size_max - b)"

definition uchar :: "char \<Rightarrow> u8" where
  "uchar c = word_of_nat (of_char c)"

definition schar :: "u8 \<Rightarrow> char" where
  "schar w = char_of (unat w)"

section \<open>Results of code that can throw or exit\<close>

datatype crash =
    OutOfRange       \<comment> \<open>\<^verbatim>\<open>std::out_of_range\<close>\<close>
  | LengthError      \<comment> \<open>\<^verbatim>\<open>std::length_error\<close>\<close>
  | OutOfBounds      \<comment> \<open>a read outside an array: undefined behaviour\<close>
  | JsonParseError   \<comment> \<open>\<^verbatim>\<open>json::parse_error\<close>\<close>
  | JsonTypeError    \<comment> \<open>\<^verbatim>\<open>json::type_error\<close>\<close>
  | JsonOutOfRange   \<comment> \<open>\<^verbatim>\<open>json::out_of_range\<close>\<close>
  | NullPointer      \<comment> \<open>a call through a null pointer: undefined behaviour\<close>
  | Fatal            \<comment> \<open>\<^verbatim>\<open>LOG_FATAL\<close>, which calls \<^verbatim>\<open>exit(-1)\<close>\<close>

type_synonym 'a result = "crash + 'a"

definition rbind :: "'a result \<Rightarrow> ('a \<Rightarrow> 'b result) \<Rightarrow> 'b result" where
  "rbind m f = (case m of Inl e \<Rightarrow> Inl e | Inr x \<Rightarrow> f x)"

definition is_ok :: "'a result \<Rightarrow> bool" where
  "is_ok m \<longleftrightarrow> (case m of Inl _ \<Rightarrow> False | Inr _ \<Rightarrow> True)"

section \<open>Strings\<close>

text \<open>\<^verbatim>\<open>s.find(pat, pos)\<close>: the least position from \<open>pos\<close> on at which \<open>pat\<close> occurs, or \<^verbatim>\<open>npos\<close>.\<close>

fun prefix_of :: "string \<Rightarrow> string \<Rightarrow> bool" where
  "prefix_of [] _ = True"
| "prefix_of (_ # _) [] = False"
| "prefix_of (p # ps) (x # xs) = (p = x \<and> prefix_of ps xs)"

fun search :: "string \<Rightarrow> string \<Rightarrow> nat option" where
  "search pat [] = (if pat = [] then Some 0 else None)"
| "search pat (x # xs) =
     (if prefix_of pat (x # xs) then Some 0 else map_option Suc (search pat xs))"

definition str_find :: "string \<Rightarrow> string \<Rightarrow> nat \<Rightarrow> nat option" where
  "str_find s pat pos =
     (if length s < pos then None else map_option ((+) pos) (search pat (drop pos s)))"

definition npos :: nat where
  "npos = size_max - 1"

definition substr :: "string \<Rightarrow> nat \<Rightarrow> nat \<Rightarrow> string result" where
  "substr s pos n = (if length s < pos then Inl OutOfRange else Inr (take n (drop pos s)))"

text \<open>\<^verbatim>\<open>std::to_string\<close> and \<^verbatim>\<open>%d\<close> on integers.\<close>

definition digit :: "nat \<Rightarrow> char" where
  "digit d = char_of (48 + d)"

fun nat_str :: "nat \<Rightarrow> string" where
  "nat_str n = (if n < 10 then [digit n] else nat_str (n div 10) @ [digit (n mod 10)])"

declare nat_str.simps [simp del]

text \<open>The characters of a C++ string up to its first zero byte.\<close>

definition c_str :: "string \<Rightarrow> string" where
  "c_str s = takeWhile (\<lambda>c. c \<noteq> CHR 0x00) s"

definition int_str :: "int \<Rightarrow> string" where
  "int_str i = (if i < 0 then ''-'' @ nat_str (nat (- i)) else nat_str (nat i))"

text \<open>Writing \<open>src\<close> into an array at position \<open>pos\<close> (\<^verbatim>\<open>std::copy\<close>).\<close>

definition overwrite :: "nat \<Rightarrow> 'a list \<Rightarrow> 'a list \<Rightarrow> 'a list" where
  "overwrite pos src dst = take pos dst @ src @ drop (pos + length src) dst"

section \<open>Lemmas\<close>

lemma rbind_Inr: "rbind m f = Inr y \<longleftrightarrow> (\<exists>x. m = Inr x \<and> f x = Inr y)"
  by (auto simp: rbind_def split: sum.splits)

lemma size_sub_eq [simp]: "b \<le> a \<Longrightarrow> size_sub a b = a - b"
  by (simp add: size_sub_def)

lemma schar_uchar [simp]: "schar (uchar c) = c"
proof -
  have "of_char c < (2 :: nat) ^ 8"
    using nat_of_char_less_256 [of c] by simp
  then have "unat (word_of_nat (of_char c) :: u8) = of_char c"
    by (simp add: unat_of_nat take_bit_nat_eq_self)
  then show ?thesis by (simp add: schar_def uchar_def)
qed

lemma uchar_schar [simp]: "uchar (schar w) = w"
proof -
  have "unat w < 256"
    using unsigned_less [of w, where ?'a = nat] by simp
  then show ?thesis by (simp add: uchar_def schar_def)
qed

lemma uchar_eq_iff [simp]: "uchar a = uchar b \<longleftrightarrow> a = b"
  by (metis schar_uchar)

lemma schar_eq_iff [simp]: "schar a = schar b \<longleftrightarrow> a = b"
  by (metis uchar_schar)

lemma rbind_simps [simp]:
  "rbind (Inl e) f = Inl e"
  "rbind (Inr x) f = f x"
  by (simp_all add: rbind_def)

lemma rbind_eq_Inr: "rbind m f = Inr y \<longleftrightarrow> (\<exists>x. m = Inr x \<and> f x = Inr y)"
  by (cases m) auto

lemma rbind_assoc: "rbind (rbind m f) g = rbind m (\<lambda>x. rbind (f x) g)"
  by (cases m) auto

lemma is_ok_simps [simp]: "is_ok (Inr x)" "\<not> is_ok (Inl e)"
  by (simp_all add: is_ok_def)

lemma is_ok_iff: "is_ok m \<longleftrightarrow> (\<exists>x. m = Inr x)"
  by (cases m) auto

lemma prefix_of_iff: "prefix_of pat s \<longleftrightarrow> take (length pat) s = pat"
  by (induction pat s rule: prefix_of.induct) auto

lemma search_Some_iff:
  "search pat s = Some i \<longleftrightarrow>
     i \<le> length s \<and> take (length pat) (drop i s) = pat \<and>
     (\<forall>j < i. take (length pat) (drop j s) \<noteq> pat)"
proof (induction pat s arbitrary: i rule: search.induct)
  case (1 pat)
  then show ?case by auto
next
  case (2 pat x xs)
  show ?case
  proof (cases "prefix_of pat (x # xs)")
    case True
    then have "take (length pat) (drop 0 (x # xs)) = pat"
      by (simp only: prefix_of_iff drop_0)
    with True show ?thesis
      by (cases i) auto
  next
    case False
    then have neq: "take (length pat) (x # xs) \<noteq> pat"
      by (simp only: prefix_of_iff not_False_eq_True)
    have "search pat (x # xs) = Some i \<longleftrightarrow> (\<exists>k. i = Suc k \<and> search pat xs = Some k)"
      using False by auto
    also have "\<dots> \<longleftrightarrow> i \<le> length (x # xs) \<and> take (length pat) (drop i (x # xs)) = pat \<and>
      (\<forall>j < i. take (length pat) (drop j (x # xs)) \<noteq> pat)"
      using "2.IH" [OF False] neq
      by (cases i) (auto simp: less_Suc_eq_0_disj)
    finally show ?thesis .
  qed
qed

lemma search_None_iff:
  "search pat s = None \<longleftrightarrow> (\<forall>i \<le> length s. take (length pat) (drop i s) \<noteq> pat)"
proof (induction pat s rule: search.induct)
  case (1 pat)
  then show ?case by auto
next
  case (2 pat x xs)
  have all: "(\<forall>i \<le> Suc n. P i) \<longleftrightarrow> P 0 \<and> (\<forall>i \<le> n. P (Suc i))" for n and P :: "nat \<Rightarrow> bool"
    by (metis Suc_le_mono not0_implies_Suc zero_le)
  show ?case
    using "2.IH" by (auto simp: all prefix_of_iff [of pat "x # xs"] simp del: take_Suc_Cons)
qed

lemma str_find_Some:
  assumes "str_find s pat pos = Some i"
  shows "pos \<le> i" and "i + length pat \<le> length s" and "take (length pat) (drop i s) = pat"
proof -
  from assms obtain k where k: "search pat (drop pos s) = Some k" and i: "i = pos + k"
    and le: "pos \<le> length s"
    by (auto simp: str_find_def split: if_splits)
  from k have kl: "k \<le> length s - pos" and t: "take (length pat) (drop k (drop pos s)) = pat"
    by (simp_all add: search_Some_iff)
  show "pos \<le> i" by (simp add: i)
  show t': "take (length pat) (drop i s) = pat"
    using t by (simp add: i add.commute)
  from t' have "length pat \<le> length (drop i s)"
    by (metis length_take min.cobounded1 min_def)
  then show "i + length pat \<le> length s"
    using kl le i by auto
qed

lemma length_overwrite [simp]:
  "pos + length src \<le> length dst \<Longrightarrow> length (overwrite pos src dst) = length dst"
  by (simp add: overwrite_def)

lemma take_overwrite:
  "pos \<le> length dst \<Longrightarrow> take (pos + length src) (overwrite pos src dst) = take pos dst @ src"
  by (simp add: overwrite_def)

lemma window_overwrite:
  assumes "r \<le> w" and "w + length d \<le> length s"
  shows "take (w + length d - r) (drop r (overwrite w d s)) = take (w - r) (drop r s) @ d"
proof -
  have "drop r (overwrite w d s) = take (w - r) (drop r s) @ d @ drop (w + length d) s"
    using assms by (simp add: overwrite_def drop_take)
  moreover have "w + length d - r = length (take (w - r) (drop r s) @ d)"
    using assms by simp
  ultimately show ?thesis by (metis append_assoc append_eq_conv_conj)
qed

lemma nat_str_nonempty [simp]: "nat_str n \<noteq> []"
  by (subst nat_str.simps) simp

lemma digit_inj: "a < 10 \<Longrightarrow> b < 10 \<Longrightarrow> digit a = digit b \<longleftrightarrow> a = b"
  by (auto simp: digit_def char_of_eq_iff take_bit_eq_mod)

lemma nat_str_inj: "nat_str m = nat_str n \<Longrightarrow> m = n"
proof (induction m arbitrary: n rule: nat_str.induct)
  case (1 m)
  have len1: "length (nat_str k) = 1 \<longleftrightarrow> k < 10" for k
    by (subst nat_str.simps) auto
  from "1.prems" have lt: "m < 10 \<longleftrightarrow> n < 10"
    using len1 by metis
  show ?case
  proof (cases "m < 10")
    case True
    with lt "1.prems" show ?thesis
      by (auto simp: nat_str.simps [of m] nat_str.simps [of n] digit_inj)
  next
    case False
    with lt have n: "\<not> n < 10" by simp
    from "1.prems" False n
    have "nat_str (m div 10) = nat_str (n div 10)" and "digit (m mod 10) = digit (n mod 10)"
      by (simp_all add: nat_str.simps [of m] nat_str.simps [of n])
    with "1.IH" [OF False] have "m div 10 = n div 10" and "m mod 10 = n mod 10"
      by (simp_all add: digit_inj)
    then show ?thesis by (metis div_mult_mod_eq)
  qed
qed

lemma nat_str_length: "n < 10 ^ Suc k \<Longrightarrow> length (nat_str n) \<le> Suc k"
proof (induction k arbitrary: n)
  case 0
  then show ?case by (subst nat_str.simps) simp
next
  case (Suc k)
  have "n div 10 < 10 ^ Suc k" using Suc.prems by (simp add: less_mult_imp_div_less)
  then have "length (nat_str (n div 10)) \<le> Suc k" by (rule Suc.IH)
  then show ?case by (subst nat_str.simps) simp
qed

section \<open>Components as event machines\<close>

text \<open>
  A component whose operations are events: what one event keeps, every sequence of events
  keeps.  Each component with an invariant interprets this locale.
\<close>

locale event_machine =
  fixes step :: "'e \<Rightarrow> 's \<Rightarrow> 's"
    and good :: "'s \<Rightarrow> bool"
  assumes good_step: "good s \<Longrightarrow> good (step e s)"
begin

lemma good_run: "good s \<Longrightarrow> good (fold step es s)"
  by (induction es arbitrary: s) (simp_all add: good_step)

lemma good_prefix: "good s \<Longrightarrow> good (fold step (take n es) s)"
  by (rule good_run)

end

text \<open>
  A component given as a step relation with an invariant and a rank that every step lowers: its runs
  are bounded, and from every good state it comes to rest.
\<close>

locale ranked_machine =
  fixes step :: "'s \<Rightarrow> 's \<Rightarrow> bool"
    and inv :: "'s \<Rightarrow> bool"
    and rank :: "'s \<Rightarrow> nat"
  assumes step_inv: "step s t \<Longrightarrow> inv s \<Longrightarrow> inv t"
    and step_rank: "step s t \<Longrightarrow> inv s \<Longrightarrow> rank t < rank s"
begin

lemma steps_bounded: "(step ^^ n) s t \<Longrightarrow> inv s \<Longrightarrow> n + rank t \<le> rank s \<and> inv t"
proof (induction n arbitrary: t)
  case (Suc n)
  then obtain u where "(step ^^ n) s u" and u: "step u t" by auto
  with Suc have "n + rank u \<le> rank s" "inv u" by auto
  then show ?case using step_rank [OF u] step_inv [OF u] by simp
qed simp

lemma comes_to_rest: "inv s \<Longrightarrow> \<exists>t. step\<^sup>*\<^sup>* s t \<and> inv t \<and> (\<nexists>u. step t u)"
proof (induction "rank s" arbitrary: s rule: less_induct)
  case less
  show ?case
  proof (cases "\<exists>u. step s u")
    case True
    then obtain u where u: "step s u" by blast
    with less have "\<exists>t. step\<^sup>*\<^sup>* u t \<and> inv t \<and> (\<nexists>v. step t v)" using step_rank step_inv by blast
    then show ?thesis using u by (meson converse_rtranclp_into_rtranclp)
  qed (use less.prems in blast)
qed

end

end
