(* ===== verification/Net_Buffer.thy ===== *)
theory Net_Buffer
  imports Prelude
begin

text \<open>
  The byte buffer of \<^verbatim>\<open>mymuduo/Buffer\<close>: a vector with a reader and a writer index.  The data
  between the indices is the content; the first eight bytes stay free.  The locale
  \<open>byte_queue\<close> is what the connection relies on; the buffer interprets it.  The kernel's
  answer to \<^verbatim>\<open>readv\<close> and \<^verbatim>\<open>write\<close> is an argument.
\<close>

section \<open>The buffer\<close>

definition kCheapPrepend :: nat where
  "kCheapPrepend = 8"

definition kInitialSize :: nat where
  "kInitialSize = 1024"

record buffer =
  storage :: "char list"
  readerIndex :: nat
  writerIndex :: nat

definition mkBuffer :: "nat \<Rightarrow> buffer" where
  "mkBuffer initialSize =
     \<lparr>storage = replicate (kCheapPrepend + initialSize) (CHR 0x00),
      readerIndex = kCheapPrepend, writerIndex = kCheapPrepend\<rparr>"

definition readableBytes :: "buffer \<Rightarrow> nat" where
  "readableBytes b = size_sub (writerIndex b) (readerIndex b)"

definition writableBytes :: "buffer \<Rightarrow> nat" where
  "writableBytes b = size_sub (length (storage b)) (writerIndex b)"

definition prependableBytes :: "buffer \<Rightarrow> nat" where
  "prependableBytes b = readerIndex b"

text \<open>The bytes \<^verbatim>\<open>[peek(), beginWrite())\<close>.\<close>

definition content :: "buffer \<Rightarrow> string" where
  "content b = take (readableBytes b) (drop (readerIndex b) (storage b))"

text \<open>\<^verbatim>\<open>findCRLF\<close> returns a pointer; the model gives its offset from \<^verbatim>\<open>peek()\<close>.\<close>

definition findCRLF :: "buffer \<Rightarrow> nat option" where
  "findCRLF b = search [CHR 0x0D, CHR 0x0A] (content b)"

definition retrieveAll :: "buffer \<Rightarrow> buffer" where
  "retrieveAll b = b\<lparr>readerIndex := kCheapPrepend, writerIndex := kCheapPrepend\<rparr>"

definition retrieve :: "nat \<Rightarrow> buffer \<Rightarrow> buffer" where
  "retrieve len b =
     (if len < readableBytes b then b\<lparr>readerIndex := readerIndex b + len\<rparr> else retrieveAll b)"

text \<open>\<^verbatim>\<open>std::string result(peek(), len)\<close> reads \<open>len\<close> bytes whatever the content's size is.\<close>

definition retrieveAsString :: "nat \<Rightarrow> buffer \<Rightarrow> (string \<times> buffer) result" where
  "retrieveAsString len b =
     (if length (storage b) < readerIndex b + len then Inl OutOfBounds
      else Inr (take len (drop (readerIndex b) (storage b)), retrieve len b))"

definition retrieveAllAsString :: "buffer \<Rightarrow> (string \<times> buffer) result" where
  "retrieveAllAsString b = retrieveAsString (readableBytes b) b"

definition resize :: "nat \<Rightarrow> char list \<Rightarrow> char list" where
  "resize n xs = take n xs @ replicate (n - length xs) (CHR 0x00)"

definition makeSpace :: "nat \<Rightarrow> buffer \<Rightarrow> buffer" where
  "makeSpace len b =
     (if size_sub (writableBytes b + prependableBytes b) kCheapPrepend < len
      then b\<lparr>storage := resize (writerIndex b + len) (storage b)\<rparr>
      else (let readable = readableBytes b in
        b\<lparr>storage := overwrite kCheapPrepend (content b) (storage b),
          readerIndex := kCheapPrepend,
          writerIndex := kCheapPrepend + readable\<rparr>))"

definition ensureWriteableBytes :: "nat \<Rightarrow> buffer \<Rightarrow> buffer" where
  "ensureWriteableBytes len b = (if writableBytes b < len then makeSpace len b else b)"

definition append_buf :: "string \<Rightarrow> buffer \<Rightarrow> buffer" where
  "append_buf data b =
     (let b1 = ensureWriteableBytes (length data) b in
      b1\<lparr>storage := overwrite (writerIndex b1) data (storage b1),
         writerIndex := writerIndex b1 + length data\<rparr>)"

text \<open>
  \<^verbatim>\<open>readFd\<close>: the kernel scatters the bytes it has into the free space of the vector and then
  into the 65536 bytes on the stack.  The result is the return value of \<^verbatim>\<open>readv\<close>.
\<close>

datatype read_result = ReadErr int | ReadOk string

definition extrabuf_size :: nat where
  "extrabuf_size = 65536"

definition readv_capacity :: "buffer \<Rightarrow> nat" where
  "readv_capacity b =
     writableBytes b + (if writableBytes b < extrabuf_size then extrabuf_size else 0)"

definition readFd :: "read_result \<Rightarrow> buffer \<Rightarrow> int \<times> buffer" where
  "readFd r b =
     (case r of
        ReadErr _ \<Rightarrow> (- 1, b)
      | ReadOk data \<Rightarrow>
          (let writable = writableBytes b; n = length data in
           if n \<le> writable
           then (int n, b\<lparr>storage := overwrite (writerIndex b) data (storage b),
                          writerIndex := writerIndex b + n\<rparr>)
           else (int n, append_buf (drop writable data)
                   (b\<lparr>storage := overwrite (writerIndex b) (take writable data) (storage b),
                      writerIndex := length (storage b)\<rparr>))))"

text \<open>\<^verbatim>\<open>writeFd\<close> hands the content to \<^verbatim>\<open>write\<close>; the buffer itself does not change.\<close>

datatype write_result = WriteErr int | WriteOk nat

definition writeFd :: "write_result \<Rightarrow> buffer \<Rightarrow> int \<times> string" where
  "writeFd r b =
     (case r of
        WriteErr _ \<Rightarrow> (- 1, [])
      | WriteOk n \<Rightarrow> (int (min n (readableBytes b)), take n (content b)))"

section \<open>Invariant\<close>

definition buffer_inv :: "buffer \<Rightarrow> bool" where
  "buffer_inv b \<longleftrightarrow>
     kCheapPrepend \<le> readerIndex b \<and> readerIndex b \<le> writerIndex b \<and>
     writerIndex b \<le> length (storage b)"

lemma buffer_inv_mkBuffer [invs, simp]: "buffer_inv (mkBuffer n)"
  by (simp add: buffer_inv_def mkBuffer_def)

lemma content_mkBuffer [abs_simps, simp]: "content (mkBuffer n) = []"
  by (simp add: content_def mkBuffer_def readableBytes_def)

lemma readableBytes_eq: "buffer_inv b \<Longrightarrow> readableBytes b = length (content b)"
  by (auto simp: buffer_inv_def readableBytes_def content_def)

lemma content_window:
  "buffer_inv b \<Longrightarrow>
     content b = take (writerIndex b - readerIndex b) (drop (readerIndex b) (storage b))"
  by (simp add: content_def readableBytes_def buffer_inv_def)

lemma retrieveAll_inv [invs, simp]: "buffer_inv b \<Longrightarrow> buffer_inv (retrieveAll b)"
  by (auto simp: buffer_inv_def retrieveAll_def)

lemma content_retrieveAll [abs_simps, simp]: "content (retrieveAll b) = []"
  by (simp add: content_def retrieveAll_def readableBytes_def)

lemma retrieve_inv [invs, simp]: "buffer_inv b \<Longrightarrow> buffer_inv (retrieve n b)"
  by (auto simp: retrieve_def buffer_inv_def readableBytes_def retrieveAll_def)

lemma content_retrieve [abs_simps, simp]:
  assumes "buffer_inv b"
  shows "content (retrieve n b) = drop n (content b)"
proof (cases "n < readableBytes b")
  case True
  let ?c = "b\<lparr>readerIndex := readerIndex b + n\<rparr>"
  have "retrieve n b = ?c"
    using True by (simp add: retrieve_def)
  moreover have "readerIndex b + n \<le> writerIndex b"
    using True assms by (simp add: readableBytes_def buffer_inv_def)
  ultimately show ?thesis
    using assms by (simp add: content_def readableBytes_def buffer_inv_def drop_take add.commute)
next
  case False
  then show ?thesis
    using assms by (simp add: retrieve_def readableBytes_eq)
qed

lemma retrieveAllAsString_eq:
  assumes "buffer_inv b"
  shows "retrieveAllAsString b = Inr (content b, retrieveAll b)"
  using assms
  by (auto simp: retrieveAllAsString_def retrieveAsString_def content_def retrieve_def
      readableBytes_def buffer_inv_def)

section \<open>Appending\<close>

lemma makeSpace_inv:
  assumes "buffer_inv b" and "writableBytes b < len"
  shows "buffer_inv (makeSpace len b)"
    and "len \<le> writableBytes (makeSpace len b)"
    and "content (makeSpace len b) = content b"
proof -
  let ?c = "content b" and ?s = "storage b" and ?w = "writerIndex b" and ?r = "readerIndex b"
  have i: "8 \<le> ?r" "?r \<le> ?w" "?w \<le> length ?s"
    using assms(1) by (auto simp: buffer_inv_def kCheapPrepend_def)
  have "buffer_inv (makeSpace len b) \<and> len \<le> writableBytes (makeSpace len b) \<and>
    content (makeSpace len b) = ?c"
  proof (cases "size_sub (writableBytes b + prependableBytes b) kCheapPrepend < len")
    case True
    then show ?thesis
      using i assms
      by (auto simp: makeSpace_def buffer_inv_def writableBytes_def kCheapPrepend_def resize_def
          content_def readableBytes_def)
  next
    case False
    have lc: "length ?c = ?w - ?r"
      using i by (simp add: content_def readableBytes_def)
    have fit: "8 + length ?c \<le> length ?s"
      using i lc by simp
    have m: "makeSpace len b = b\<lparr>storage := overwrite 8 ?c ?s, readerIndex := 8,
        writerIndex := 8 + length ?c\<rparr>"
      using False i lc by (simp add: makeSpace_def kCheapPrepend_def readableBytes_def)
    have "len \<le> length ?s - (8 + length ?c)"
      using False i lc
      by (simp add: writableBytes_def prependableBytes_def kCheapPrepend_def)
    then show ?thesis
      using fit i by (simp add: m buffer_inv_def kCheapPrepend_def writableBytes_def content_def
          readableBytes_def overwrite_def)
  qed
  then show "buffer_inv (makeSpace len b)" "len \<le> writableBytes (makeSpace len b)"
    "content (makeSpace len b) = content b"
    by auto
qed

lemma ensureWriteableBytes_inv:
  assumes "buffer_inv b"
  shows "buffer_inv (ensureWriteableBytes len b)"
    and "len \<le> writableBytes (ensureWriteableBytes len b)"
    and "content (ensureWriteableBytes len b) = content b"
  using assms by (auto simp: ensureWriteableBytes_def makeSpace_inv)

text \<open>Storing into free space extends the content by what is stored.\<close>

lemma store_in_space:
  assumes "buffer_inv b" and "length data \<le> writableBytes b"
  defines "b' \<equiv> b\<lparr>storage := overwrite (writerIndex b) data (storage b),
                   writerIndex := writerIndex b + length data\<rparr>"
  shows "buffer_inv b'" and "content b' = content b @ data"
    and "length (storage b') = length (storage b)"
proof -
  have i: "8 \<le> readerIndex b" "readerIndex b \<le> writerIndex b"
    "writerIndex b + length data \<le> length (storage b)"
    using assms(1,2) by (auto simp: buffer_inv_def writableBytes_def kCheapPrepend_def)
  show "length (storage b') = length (storage b)"
    using i by (simp add: b'_def)
  show "buffer_inv b'"
    using i by (simp add: b'_def buffer_inv_def kCheapPrepend_def)
  show "content b' = content b @ data"
    using i window_overwrite [of "readerIndex b" "writerIndex b" data "storage b"]
    by (simp add: b'_def content_def readableBytes_def)
qed

lemma append_inv [invs, simp]: "buffer_inv b \<Longrightarrow> buffer_inv (append_buf data b)"
  using store_in_space(1) [of "ensureWriteableBytes (length data) b" data]
    ensureWriteableBytes_inv [of b "length data"]
  by (simp add: append_buf_def Let_def)

lemma content_append [abs_simps, simp]:
  "buffer_inv b \<Longrightarrow> content (append_buf data b) = content b @ data"
  using store_in_space(2) [of "ensureWriteableBytes (length data) b" data]
    ensureWriteableBytes_inv [of b "length data"]
  by (simp add: append_buf_def Let_def)

section \<open>Reading from a descriptor\<close>

lemma readFd_ok:
  assumes "buffer_inv b"
  shows "buffer_inv (snd (readFd (ReadOk data) b))"
    and "content (snd (readFd (ReadOk data) b)) = content b @ data"
    and "fst (readFd (ReadOk data) b) = int (length data)"
proof -
  let ?wr = "writableBytes b"
  have "buffer_inv (snd (readFd (ReadOk data) b)) \<and>
    content (snd (readFd (ReadOk data) b)) = content b @ data"
  proof (cases "length data \<le> ?wr")
    case True
    then show ?thesis
      using store_in_space [OF assms True] by (simp add: readFd_def Let_def)
  next
    case False
    let ?fst = "take ?wr data"
    have len: "length ?fst = ?wr" using False by simp
    have full: "writerIndex b + ?wr = length (storage b)"
      using assms by (simp add: buffer_inv_def writableBytes_def)
    have "buffer_inv (b\<lparr>storage := overwrite (writerIndex b) ?fst (storage b),
        writerIndex := length (storage b)\<rparr>)"
      and "content (b\<lparr>storage := overwrite (writerIndex b) ?fst (storage b),
        writerIndex := length (storage b)\<rparr>) = content b @ ?fst"
      using store_in_space [OF assms, of ?fst] len full by simp_all
    then show ?thesis
      using False by (simp add: readFd_def Let_def)
  qed
  then show "buffer_inv (snd (readFd (ReadOk data) b))"
    and "content (snd (readFd (ReadOk data) b)) = content b @ data"
    by auto
  show "fst (readFd (ReadOk data) b) = int (length data)"
    by (simp add: readFd_def Let_def)
qed

lemma readFd_inv [invs]: "buffer_inv b \<Longrightarrow> buffer_inv (snd (readFd r b))"
  by (cases r) (auto simp: readFd_ok(1), simp add: readFd_def)

text \<open>The spill into \<^verbatim>\<open>extrabuf\<close> never exceeds its size when the kernel respects the vector.\<close>

lemma readFd_spill:
  "length data \<le> readv_capacity b \<Longrightarrow> length (drop (writableBytes b) data) \<le> extrabuf_size"
  by (auto simp: readv_capacity_def split: if_splits)

section \<open>The interface of a byte queue\<close>

locale byte_queue =
  fixes inv :: "'q \<Rightarrow> bool"
    and bytes :: "'q \<Rightarrow> string"
    and push :: "string \<Rightarrow> 'q \<Rightarrow> 'q"
    and pop :: "nat \<Rightarrow> 'q \<Rightarrow> 'q"
    and size_of :: "'q \<Rightarrow> nat"
  assumes inv_push: "inv q \<Longrightarrow> inv (push d q)"
    and inv_pop: "inv q \<Longrightarrow> inv (pop n q)"
    and bytes_push: "inv q \<Longrightarrow> bytes (push d q) = bytes q @ d"
    and bytes_pop: "inv q \<Longrightarrow> bytes (pop n q) = drop n (bytes q)"
    and size_of_eq: "inv q \<Longrightarrow> size_of q = length (bytes q)"
begin

text \<open>What has been popped followed by what is left is what was pushed, in order.\<close>

lemma pop_split: "inv q \<Longrightarrow> take n (bytes q) @ bytes (pop n q) = bytes q"
  by (simp add: bytes_pop)

lemma pop_push: "inv q \<Longrightarrow> n \<le> size_of q \<Longrightarrow> bytes (pop n (push d q)) = bytes (push d (pop n q))"
  by (simp add: bytes_pop bytes_push inv_push inv_pop size_of_eq)

lemma push_all:
  "inv q \<Longrightarrow> inv (fold push ds q) \<and> bytes (fold push ds q) = bytes q @ concat ds"
  by (induction ds arbitrary: q) (auto simp: inv_push bytes_push)

lemma drained: "inv q \<Longrightarrow> size_of (pop n q) = 0 \<longleftrightarrow> size_of q \<le> n"
  by (simp add: size_of_eq inv_pop bytes_pop)

end

interpretation bufq: byte_queue buffer_inv content append_buf retrieve readableBytes
  by unfold_locales (simp_all add: readableBytes_eq)

lemma readableBytes_0_iff [simp]: "buffer_inv b \<Longrightarrow> readableBytes b = 0 \<longleftrightarrow> content b = []"
  by (simp add: readableBytes_eq)

section \<open>Runs of the buffer\<close>

datatype buf_op = BAppend string | BRetrieve nat | BRetrieveAll | BReadFd read_result | BEnsure nat

fun buf_step :: "buf_op \<Rightarrow> buffer \<Rightarrow> buffer" where
  "buf_step (BAppend d) b = append_buf d b"
| "buf_step (BRetrieve n) b = retrieve n b"
| "buf_step BRetrieveAll b = retrieveAll b"
| "buf_step (BReadFd r) b = snd (readFd r b)"
| "buf_step (BEnsure n) b = ensureWriteableBytes n b"

text \<open>The specification: a string of bytes.\<close>

fun spec_step :: "buf_op \<Rightarrow> string \<Rightarrow> string" where
  "spec_step (BAppend d) s = s @ d"
| "spec_step (BRetrieve n) s = drop n s"
| "spec_step BRetrieveAll s = []"
| "spec_step (BReadFd (ReadOk d)) s = s @ d"
| "spec_step (BReadFd (ReadErr e)) s = s"
| "spec_step (BEnsure n) s = s"

lemma buf_step_abs: "buffer_inv b \<Longrightarrow> content (buf_step op b) = spec_step op (content b)"
  by (cases "(op, content b)" rule: spec_step.cases)
    (simp_all add: readFd_ok ensureWriteableBytes_inv, simp add: readFd_def)

interpretation buf: event_machine buf_step buffer_inv
proof
  fix b op assume "buffer_inv b"
  then show "buffer_inv (buf_step op b)"
    by (cases op) (simp_all add: readFd_inv ensureWriteableBytes_inv)
qed

lemma buf_run_abs:
  "buffer_inv b \<Longrightarrow> content (fold buf_step ops b) = fold spec_step ops (content b)"
  by (induction ops arbitrary: b) (simp_all add: buf_step_abs buf.good_step)

section \<open>Properties\<close>

text \<open>C9: the buffer implements a byte queue: after any sequence of appends, retrievals and reads
  from a descriptor its content is that of the specification, its indices stay ordered inside the
  vector and the first eight bytes stay free.\<close>

theorem buffer_refines_queue:
  "content (fold buf_step ops (mkBuffer n)) = fold spec_step ops [] \<and>
   readableBytes (fold buf_step ops (mkBuffer n)) = length (fold spec_step ops []) \<and>
   8 \<le> prependableBytes (fold buf_step ops (mkBuffer n)) \<and>
   writerIndex (fold buf_step ops (mkBuffer n)) \<le> length (storage (fold buf_step ops (mkBuffer n)))"
proof -
  let ?b = "fold buf_step ops (mkBuffer n)"
  have inv: "buffer_inv ?b" by (rule buf.good_run) simp
  have "content ?b = fold spec_step ops []"
    using buf_run_abs [of "mkBuffer n" ops] by simp
  then show ?thesis
    using inv readableBytes_eq [OF inv]
    by (simp add: buffer_inv_def prependableBytes_def kCheapPrepend_def)
qed

text \<open>Making room for \<open>len\<close> bytes leaves the content alone, provides the room, and grows the
  vector only when the free space in front and behind together does not suffice; the store that
  follows stays inside the vector.\<close>

theorem append_in_bounds:
  fixes d :: string
  assumes "buffer_inv b"
  defines "b1 \<equiv> ensureWriteableBytes (length d) b"
  shows "content b1 = content b \<and> writerIndex b1 + length d \<le> length (storage b1) \<and>
    length (storage (append_buf d b)) = length (storage b1) \<and>
    (8 + readableBytes b + length d \<le> length (storage b) \<longrightarrow> length (storage b1) = length (storage b))"
proof -
  note e = ensureWriteableBytes_inv [OF assms(1), of "length d", folded b1_def]
  have room: "writerIndex b1 + length d \<le> length (storage b1)"
    using e(1,2) by (auto simp: buffer_inv_def writableBytes_def)
  have "length (storage (append_buf d b)) = length (storage b1)"
    using store_in_space(3) [OF e(1,2)] by (simp add: append_buf_def Let_def b1_def)
  moreover have "length (storage b1) = length (storage b)"
    if "8 + readableBytes b + length d \<le> length (storage b)"
  proof -
    have "\<not> size_sub (writableBytes b + prependableBytes b) kCheapPrepend < length d"
      using that assms(1)
      by (simp add: buffer_inv_def writableBytes_def prependableBytes_def readableBytes_def kCheapPrepend_def)
    then show ?thesis
      using that readableBytes_eq [OF assms(1)]
      by (simp add: b1_def ensureWriteableBytes_def makeSpace_def Let_def kCheapPrepend_def)
  qed
  ultimately show ?thesis using e room by blast
qed

theorem append_in_bounds_witness:
  "buffer_inv (mkBuffer 16) \<and>
   length (storage (append_buf ''abc'' (mkBuffer 16))) = length (storage (ensureWriteableBytes 3 (mkBuffer 16)))"
  using append_in_bounds [of "mkBuffer 16" "''abc''"] by (simp add: numeral_3_eq_3)

text \<open>\<^verbatim>\<open>retrieveAllAsString\<close> returns the content, reads nothing outside the vector and leaves
  the buffer empty.\<close>

theorem retrieveAllAsString_content:
  assumes "buffer_inv b"
  shows "\<exists>b'. retrieveAllAsString b = Inr (content b, b') \<and> buffer_inv b' \<and> content b' = []"
  using retrieveAllAsString_eq [OF assms] retrieveAll_inv [OF assms] by auto

theorem retrieveAllAsString_content_witness:
  "\<exists>b'. retrieveAllAsString (append_buf ''abc'' (mkBuffer 4)) = Inr (''abc'', b') \<and> buffer_inv b' \<and> content b' = []"
  using retrieveAllAsString_content [of "append_buf ''abc'' (mkBuffer 4)"] by simp

end
