(* ===== verification/WebSocket.thy ===== *)
theory WebSocket
  imports Prelude
begin

text \<open>
  The WebSocket codec of \<^verbatim>\<open>src/WebSocketHandler.cpp\<close>: recognising and answering the upgrade
  request, decoding client frames and encoding server frames.  SHA-1 and base64 come from
  OpenSSL and are arguments.  \<^verbatim>\<open>maskingKey\<close> is an uninitialised local array: its content before
  the code writes it is the argument \<open>uninit\<close>.  Every array read is checked, so that
  "no read outside the data" is a theorem, and \<^verbatim>\<open>pos + payloadLen\<close> wraps at 64 bits as it does
  in the code.
\<close>

section \<open>Handshake\<close>

definition crlf :: string where
  "crlf = [CHR 0x0D, CHR 0x0A]"

definition WEBSOCKET_MAGIC :: string where
  "WEBSOCKET_MAGIC = ''258EAFA5-E914-47DA-95CA-C5AB0DC85B11''"

definition isWebSocketUpgrade :: "string \<Rightarrow> bool" where
  "isWebSocketUpgrade request =
     (if str_find request ''Upgrade: websocket'' 0 = None then False
      else if str_find request ''Connection: Upgrade'' 0 = None then False
      else if str_find request ''Sec-WebSocket-Key: '' 0 = None then False
      else True)"

definition extractSecWebSocketKey :: "string \<Rightarrow> string result" where
  "extractSecWebSocketKey request =
     (case str_find request ''Sec-WebSocket-Key: '' 0 of
        None \<Rightarrow> Inr []
      | Some p \<Rightarrow>
          (let pos = p + 19;
               end1 = str_find request crlf pos;
               end2 = (if end1 = None then str_find request [CHR 0x0A] pos else end1);
               e = (case end2 of None \<Rightarrow> npos | Some i \<Rightarrow> i)
           in substr request pos (size_sub e pos)))"

definition computeAcceptKey ::
  "(string \<Rightarrow> string) \<Rightarrow> (string \<Rightarrow> string) \<Rightarrow> string \<Rightarrow> string" where
  "computeAcceptKey sha1 base64Encode key = base64Encode (sha1 (key @ WEBSOCKET_MAGIC))"

definition generateHandshakeResponse ::
  "(string \<Rightarrow> string) \<Rightarrow> (string \<Rightarrow> string) \<Rightarrow> string \<Rightarrow> string result" where
  "generateHandshakeResponse sha1 base64Encode request =
     rbind (extractSecWebSocketKey request) (\<lambda>key.
       Inr (''HTTP/1.1 101 Switching Protocols'' @ crlf @
            ''Upgrade: websocket'' @ crlf @
            ''Connection: Upgrade'' @ crlf @
            ''Sec-WebSocket-Accept: '' @ computeAcceptKey sha1 base64Encode key @ crlf @
            crlf))"

section \<open>Decoding frames\<close>

record parse_out =
  ret :: bool                     \<comment> \<open>the return value\<close>
  outMessage :: string
  frameLen :: "nat option"        \<comment> \<open>\<open>None\<close>: not assigned\<close>
  outOpcode :: "u8 option"

definition string_max_size :: nat where
  "string_max_size = 2 ^ 63 - 1"

definition byte_at :: "string \<Rightarrow> nat \<Rightarrow> u8 result" where
  "byte_at data i = (if i < length data then Inr (uchar (data ! i)) else Inl OutOfBounds)"

fun read_be :: "string \<Rightarrow> nat \<Rightarrow> nat \<Rightarrow> u64 \<Rightarrow> u64 result" where
  "read_be data pos 0 acc = Inr acc"
| "read_be data pos (Suc n) acc =
     rbind (byte_at data pos) (\<lambda>b. read_be data (Suc pos) n (push_bit 8 acc OR ucast b))"

definition extended_len :: "string \<Rightarrow> u64 \<Rightarrow> nat \<Rightarrow> (u64 \<times> nat) option result" where
  "extended_len data payloadLen pos =
     (if payloadLen = 126 then
        if length data < pos + 2 then Inr None
        else rbind (byte_at data pos) (\<lambda>b0. rbind (byte_at data (pos + 1)) (\<lambda>b1.
          Inr (Some (push_bit 8 (ucast b0) OR ucast b1, pos + 2))))
      else if payloadLen = 127 then
        if length data < pos + 8 then Inr None
        else rbind (read_be data pos 8 0) (\<lambda>n. Inr (Some (n, pos + 8)))
      else Inr (Some (payloadLen, pos)))"

definition masking_key ::
  "(nat \<Rightarrow> u8) \<Rightarrow> string \<Rightarrow> bool \<Rightarrow> nat \<Rightarrow> ((nat \<Rightarrow> u8) \<times> nat) option result" where
  "masking_key uninit data masked pos =
     (if masked then
        if length data < pos + 4 then Inr None
        else rbind (byte_at data pos) (\<lambda>k0. rbind (byte_at data (pos + 1)) (\<lambda>k1.
             rbind (byte_at data (pos + 2)) (\<lambda>k2. rbind (byte_at data (pos + 3)) (\<lambda>k3.
               Inr (Some (uninit(0 := k0, 1 := k1, 2 := k2, 3 := k3), pos + 4))))))
      else Inr (Some (uninit, pos)))"

fun unmask :: "string \<Rightarrow> nat \<Rightarrow> (nat \<Rightarrow> u8) \<Rightarrow> nat \<Rightarrow> nat \<Rightarrow> string result" where
  "unmask data pos key i 0 = Inr []"
| "unmask data pos key i (Suc n) =
     rbind (byte_at data (pos + i)) (\<lambda>b.
       rbind (unmask data pos key (Suc i) n) (\<lambda>rest.
         Inr (schar (b XOR key (i mod 4)) # rest)))"

definition parseFrame :: "(nat \<Rightarrow> u8) \<Rightarrow> string \<Rightarrow> string \<Rightarrow> parse_out result" where
  "parseFrame uninit data msg0 =
     (let fail = (\<lambda>oc. Inr \<lparr>ret = False, outMessage = msg0, frameLen = None, outOpcode = oc\<rparr>) in
      if length data < 2 then fail None
      else rbind (byte_at data 0) (\<lambda>firstByte.
        let fin = (firstByte AND 0x80 \<noteq> 0); opcode = firstByte AND 0x0F in
        if opcode \<noteq> 1 \<and> opcode \<noteq> 8 then fail (Some opcode)
        else rbind (byte_at data 1) (\<lambda>secondByte.
          let masked = (secondByte AND 0x80 \<noteq> 0) in
          rbind (extended_len data (ucast (secondByte AND 0x7F)) 2) (\<lambda>ext.
            case ext of None \<Rightarrow> fail (Some opcode)
            | Some (payloadLen, pos) \<Rightarrow>
                rbind (masking_key uninit data masked pos) (\<lambda>mk.
                  case mk of None \<Rightarrow> fail (Some opcode)
                  | Some (key, pos) \<Rightarrow>
                      let total = word_of_nat pos + payloadLen in
                      if word_of_nat (length data) < total then fail (Some opcode)
                      else if string_max_size < unat payloadLen then Inl LengthError
                      else rbind (unmask data pos key 0 (unat payloadLen)) (\<lambda>msg.
                        Inr \<lparr>ret = fin, outMessage = msg, frameLen = Some (unat total),
                             outOpcode = Some opcode\<rparr>))))))"

text \<open>The legacy overload keeps only the message.\<close>

definition parseFrame_legacy :: "(nat \<Rightarrow> u8) \<Rightarrow> string \<Rightarrow> string \<Rightarrow> (bool \<times> string) result" where
  "parseFrame_legacy uninit data msg0 =
     rbind (parseFrame uninit data msg0) (\<lambda>r. Inr (ret r, outMessage r))"

section \<open>Encoding frames\<close>

definition byte_of_len :: "u64 \<Rightarrow> nat \<Rightarrow> char" where
  "byte_of_len len i = schar (ucast (drop_bit (i * 8) len AND 0xFF))"

definition encodeFrame :: "string \<Rightarrow> string" where
  "encodeFrame message =
     (let len = word_of_nat (length message) :: u64;
          frame = [schar (0x80 OR 0x01)]
      in (if len \<le> 125 then frame @ [schar (ucast len)]
          else if len \<le> 65535
          then frame @ [schar 126] @ [byte_of_len len 1] @ [byte_of_len len 0]
          else frame @ [schar 127] @ map (byte_of_len len) [7, 6, 5, 4, 3, 2, 1, 0])
         @ message)"

section \<open>The wire format\<close>

text \<open>
  The frame format of RFC 6455 as a specification: a first byte, a length in one of three
  encodings, four key bytes if the frame is masked, and the payload as it is on the wire.
\<close>

datatype len_enc = Len7 | Len16 | Len64

fun fits :: "len_enc \<Rightarrow> nat \<Rightarrow> bool" where
  "fits Len7 n = (n < 126)"
| "fits Len16 n = (n < 2 ^ 16)"
| "fits Len64 n = (n < 2 ^ 63)"

fun be_bytes :: "nat \<Rightarrow> u64 \<Rightarrow> string" where
  "be_bytes 0 w = []"
| "be_bytes (Suc n) w = schar (ucast (drop_bit (8 * n) w)) # be_bytes n w"

fun len_field :: "len_enc \<Rightarrow> bool \<Rightarrow> nat \<Rightarrow> string" where
  "len_field Len7 m n = [schar ((if m then 0x80 else 0) OR word_of_nat n)]"
| "len_field Len16 m n = schar ((if m then 0x80 else 0) OR 126) # be_bytes 2 (word_of_nat n)"
| "len_field Len64 m n = schar ((if m then 0x80 else 0) OR 127) # be_bytes 8 (word_of_nat n)"

type_synonym mask_key = "u8 \<times> u8 \<times> u8 \<times> u8"

fun key_bytes :: "mask_key option \<Rightarrow> string" where
  "key_bytes None = []"
| "key_bytes (Some (a, b, c, d)) = [schar a, schar b, schar c, schar d]"

fun key_fun :: "(nat \<Rightarrow> u8) \<Rightarrow> mask_key option \<Rightarrow> nat \<Rightarrow> u8" where
  "key_fun uninit None = uninit"
| "key_fun uninit (Some (a, b, c, d)) = uninit(0 := a, 1 := b, 2 := c, 3 := d)"

definition xor_from :: "(nat \<Rightarrow> u8) \<Rightarrow> nat \<Rightarrow> string \<Rightarrow> string" where
  "xor_from key i s = map (\<lambda>(j, c). schar (uchar c XOR key (j mod 4))) (enumerate i s)"

definition wire_frame :: "u8 \<Rightarrow> len_enc \<Rightarrow> mask_key option \<Rightarrow> string \<Rightarrow> string" where
  "wire_frame b0 enc mk raw =
     schar b0 # len_field enc (mk \<noteq> None) (length raw) @ key_bytes mk @ raw"

definition min_enc :: "nat \<Rightarrow> len_enc" where
  "min_enc n = (if n < 126 then Len7 else if n < 2 ^ 16 then Len16 else Len64)"

section \<open>Lemmas on the byte-level readers\<close>

lemma byte_at_in: "i < length data \<Longrightarrow> byte_at data i = Inr (uchar (data ! i))"
  by (simp add: byte_at_def)

definition be_val :: "u64 \<Rightarrow> string \<Rightarrow> u64" where
  "be_val acc s = foldl (\<lambda>a c. push_bit 8 a OR ucast (uchar c)) acc s"

lemma read_be_eq:
  "pos + n \<le> length data \<Longrightarrow> read_be data pos n acc = Inr (be_val acc (take n (drop pos data)))"
proof (induction n arbitrary: pos acc)
  case 0
  then show ?case by (simp add: be_val_def)
next
  case (Suc n)
  then have "drop pos data = data ! pos # drop (Suc pos) data"
    by (simp add: Cons_nth_drop_Suc)
  with Suc show ?case by (simp add: byte_at_in be_val_def)
qed

lemma unmask_eq:
  "pos + i + n \<le> length data \<Longrightarrow>
     unmask data pos key i n = Inr (xor_from key i (take n (drop (pos + i) data)))"
proof (induction n arbitrary: i)
  case 0
  then show ?case by (simp add: xor_from_def)
next
  case (Suc n)
  then have "drop (pos + i) data = data ! (pos + i) # drop (Suc (pos + i)) data"
    by (simp add: Cons_nth_drop_Suc)
  with Suc show ?case by (simp add: byte_at_in xor_from_def)
qed

lemma length_be_bytes [simp]: "length (be_bytes n w) = n"
  by (induction n) auto

lemma be_val_be_bytes: "be_val acc (be_bytes n w) = push_bit (8 * n) acc OR take_bit (8 * n) w"
proof (induction n arbitrary: acc)
  case 0
  then show ?case by (simp add: be_val_def)
next
  case (Suc n)
  have "push_bit (8 * n) (ucast (ucast (drop_bit (8 * n) w) :: u8) :: u64) OR take_bit (8 * n) w =
    take_bit (8 + 8 * n) w"
    by (rule bit_word_eqI) (auto simp: bit_simps)
  then have "push_bit (8 * n) (push_bit 8 acc OR ucast (ucast (drop_bit (8 * n) w) :: u8)) OR
      take_bit (8 * n) w = push_bit (8 + 8 * n) acc OR take_bit (8 + 8 * n) w"
    by (simp add: push_bit_or or.assoc push_bit_push_bit add.commute)
  with Suc show ?case by (simp add: be_val_def)
qed

lemma be_bytes_snoc: "be_bytes (Suc n) w = be_bytes n (drop_bit 8 w) @ [schar (ucast w)]"
  by (induction n) (auto simp: drop_bit_drop_bit add.commute)

lemma be_bytes_be_val: "length s = n \<Longrightarrow> n \<le> 8 \<Longrightarrow> be_bytes n (be_val 0 s) = s"
proof (induction s arbitrary: n rule: rev_induct)
  case Nil
  then show ?case by simp
next
  case (snoc c s)
  then obtain m where n: "n = Suc m" "length s = m" "m \<le> 7" by auto
  have v: "be_val 0 (s @ [c]) = push_bit 8 (be_val 0 s) OR ucast (uchar c)"
    by (simp add: be_val_def)
  have c: "ucast (push_bit 8 (be_val 0 s) OR ucast (uchar c)) = uchar c"
    by (rule bit_word_eqI) (auto simp: bit_simps)
  have d: "drop_bit 8 (push_bit 8 (be_val 0 s) OR ucast (uchar c)) = take_bit 56 (be_val 0 s)"
    by (rule bit_word_eqI) (auto simp: bit_simps dest: bit_imp_le_length)
  have t: "be_bytes k (take_bit 56 w) = be_bytes k w" if "k \<le> 7" for k and w :: u64
    using that
  proof (induction k)
    case (Suc k)
    have "ucast (drop_bit (8 * k) (take_bit 56 w)) = (ucast (drop_bit (8 * k) w) :: u8)"
      using Suc.prems by (intro bit_word_eqI) (auto simp: bit_simps)
    with Suc show ?case by simp
  qed simp
  show ?case
    using snoc.IH [of m] n by (simp only: n(1) be_bytes_snoc v c d t) simp
qed

section \<open>Decoding what the wire format describes\<close>

lemma and_7F: "x AND 0x7F = take_bit 7 (x :: u8)"
  by (simp add: take_bit_eq_mask mask_eq_exp_minus_1)

lemma take_bit_7: "x < 128 \<Longrightarrow> take_bit 7 (x :: u8) = x"
  by (simp add: word_less_nat_alt word_unat_eq_iff unsigned_take_bit_eq take_bit_nat_eq_self)

lemma and_80: "x AND 0x80 \<noteq> 0 \<longleftrightarrow> bit (x :: u8) 7"
  using and_exp_eq_0_iff_not_bit [of x 7] by simp

lemma not_bit_7: "x < 128 \<Longrightarrow> \<not> bit (x :: u8) 7"
  by (metis bit_take_bit_iff take_bit_7 less_irrefl)

lemma bit_80: "bit (0x80 :: u8) n \<longleftrightarrow> n = 7"
proof -
  have "(0x80 :: u8) = 2 ^ 7" by simp
  then show ?thesis by (simp only: bit_exp_iff) auto
qed

lemma second_byte:
  assumes "x < 128"
  shows "((if m then 0x80 else 0) OR x) AND 0x7F = (x :: u8)"
    and "((if m then 0x80 else 0) OR x) AND 0x80 \<noteq> 0 \<longleftrightarrow> m"
proof -
  have "take_bit 7 (0x80 :: u8) = 0" by simp
  then show "((if m then 0x80 else 0) OR x) AND 0x7F = x"
    using assms by (simp add: and_7F take_bit_or take_bit_7)
  show "((if m then 0x80 else 0) OR x) AND 0x80 \<noteq> 0 \<longleftrightarrow> m"
    using assms by (auto simp: and_80 bit_or_iff bit_80 not_bit_7)
qed

lemma second_byte_split:
  "(b :: u8) = (if b AND 0x80 \<noteq> 0 then 0x80 else 0) OR (b AND 0x7F)"
proof (rule bit_word_eqI)
  fix n assume "n < LENGTH(8)"
  then have "n < 8" by simp
  then consider "n = 7" | "n < 7" by linarith
  then show "bit b n = bit ((if b AND 0x80 \<noteq> 0 then 0x80 else 0) OR (b AND 0x7F)) n"
    using bit_80 [of n] by cases (simp_all add: and_80 and_7F bit_or_iff bit_take_bit_iff)
qed

lemma and_7F_less: "b AND 0x7F < (128 :: u8)"
proof -
  have "b AND 0x7F \<le> 0x7F" by (rule word_and_le1)
  then show ?thesis by (rule le_less_trans) simp
qed

lemma ucast_up_back: "ucast (ucast (a :: u8) :: u64) = a"
  by (rule bit_word_eqI) (auto simp: bit_simps)

lemma unat_ucast_up [simp]: "unat (ucast (a :: u8) :: u64) = unat a"
  using unsigned_less [of a, where ?'a = nat]
  by (simp add: unsigned_ucast_eq take_bit_nat_eq_self)

lemma ucast_u8_eq_iff [simp]: "(ucast (a :: u8) :: u64) = ucast b \<longleftrightarrow> a = b"
  by (metis ucast_up_back)

lemma len_field_second:
  assumes "fits enc n"
  obtains x where "x < 128" and "hd (len_field enc m n) = schar ((if m then 0x80 else 0) OR x)"
    and "x = (case enc of Len7 \<Rightarrow> word_of_nat n | Len16 \<Rightarrow> 126 | Len64 \<Rightarrow> 127)"
proof -
  have "word_of_nat n < (128 :: u8)" if "n < 126"
    using that by (simp add: word_less_nat_alt unat_of_nat)
  with assms that show thesis by (cases enc) auto
qed

lemma take_2_drop: "n + 2 \<le> length xs \<Longrightarrow> take 2 (drop n xs) = [xs ! n, xs ! Suc n]"
  by (simp add: numeral_2_eq_2 flip: Cons_nth_drop_Suc)

lemma extended_len_wire:
  assumes "fits enc n" and data: "data = c # len_field enc m n @ tail"
  shows "extended_len data (ucast (uchar (data ! 1) AND 0x7F)) 2 =
           Inr (Some (word_of_nat n, 1 + length (len_field enc m n)))"
    and "uchar (data ! 1) AND 0x80 \<noteq> 0 \<longleftrightarrow> m"
proof -
  obtain x where x: "x < 128" "hd (len_field enc m n) = schar ((if m then 0x80 else 0) OR x)"
    "x = (case enc of Len7 \<Rightarrow> word_of_nat n | Len16 \<Rightarrow> 126 | Len64 \<Rightarrow> 127)"
    using len_field_second [OF assms(1)] by metis
  have "data ! 1 = hd (len_field enc m n)"
    unfolding data by (cases enc) simp_all
  with x have b1: "uchar (data ! 1) = (if m then 0x80 else 0) OR x" by simp
  then show "uchar (data ! 1) AND 0x80 \<noteq> 0 \<longleftrightarrow> m"
    using second_byte(2) [OF x(1)] by simp
  have low: "uchar (data ! 1) AND 0x7F = x"
    using b1 second_byte(1) [OF x(1)] by simp
  have dec: "be_val 0 (be_bytes 2 (word_of_nat n)) = word_of_nat n" if "n < 2 ^ 16"
    using that by (simp add: be_val_be_bytes take_bit_of_nat take_bit_nat_eq_self)
  have dec8: "be_val 0 (be_bytes 8 (word_of_nat n)) = word_of_nat n"
    by (simp add: be_val_be_bytes take_bit_word_eq_self)
  show "extended_len data (ucast (uchar (data ! 1) AND 0x7F)) 2 =
           Inr (Some (word_of_nat n, 1 + length (len_field enc m n)))"
  proof (cases enc)
    case Len7
    with assms(1) have n: "n < 126" by simp
    have "ucast x = (word_of_nat n :: u64)"
      using n x(3) Len7 by (simp add: word_unat_eq_iff unat_of_nat)
    moreover have "(word_of_nat n :: u64) \<noteq> 126" "(word_of_nat n :: u64) \<noteq> 127"
      using n by (simp_all add: word_unat_eq_iff unat_of_nat)
    ultimately show ?thesis
      using Len7 low by (simp add: extended_len_def)
  next
    case Len16
    have x126: "ucast x = (126 :: u64)" using x(3) Len16 by simp
    have "take 2 (drop 2 data) = be_bytes 2 (word_of_nat n)" "4 \<le> length data"
      unfolding data using Len16 by (simp_all add: numeral_2_eq_2)
    with dec Len16 assms(1) have v: "be_val 0 (take 2 (drop 2 data)) = word_of_nat n"
      and l: "4 \<le> length data" by simp_all
    have "take 2 (drop 2 data) = [data ! 2, data ! 3]"
      using l take_2_drop [of 2 data] by simp
    with v have "push_bit 8 (ucast (uchar (data ! 2))) OR ucast (uchar (data ! 3)) =
      (word_of_nat n :: u64)" by (simp add: be_val_def)
    then show ?thesis
      using l low x126 Len16 by (simp add: extended_len_def byte_at_in)
  next
    case Len64
    have x127: "ucast x = (127 :: u64)" using x(3) Len64 by simp
    have "take 8 (drop 2 data) = be_bytes 8 (word_of_nat n)" "10 \<le> length data"
      unfolding data using Len64 by simp_all
    then show ?thesis
      using low x127 Len64 dec8 by (simp add: extended_len_def read_be_eq)
  qed
qed

lemma masking_key_wire:
  "length pre = pos \<Longrightarrow>
     masking_key uninit (pre @ key_bytes mk @ tail) (mk \<noteq> None) pos =
       Inr (Some (key_fun uninit mk, pos + length (key_bytes mk)))"
  by (cases mk)
    (auto simp: masking_key_def byte_at_def nth_append fun_upd_def)

lemma length_len_field: "length (len_field enc m n) = (case enc of Len7 \<Rightarrow> 1 | Len16 \<Rightarrow> 3 | Len64 \<Rightarrow> 9)"
  by (cases enc) simp_all

lemma length_key_bytes: "length (key_bytes mk) = (if mk = None then 0 else 4)"
  by (cases mk) auto

lemma header_length_le: "1 + length (len_field enc m n) + length (key_bytes mk) \<le> 14"
  by (simp add: length_len_field length_key_bytes split: len_enc.split)

lemma unat_of_nat_small: "n < 2 ^ 64 \<Longrightarrow> unat (word_of_nat n :: u64) = n"
  by (simp add: unat_of_nat take_bit_nat_eq_self)

lemma total_no_wrap:
  assumes "pos \<le> 14" and "n < 2 ^ 63"
  shows "word_of_nat pos + word_of_nat n = (word_of_nat (pos + n) :: u64)"
    and "unat (word_of_nat pos + word_of_nat n :: u64) = pos + n"
proof -
  show "word_of_nat pos + word_of_nat n = (word_of_nat (pos + n) :: u64)" by simp
  then show "unat (word_of_nat pos + word_of_nat n :: u64) = pos + n"
    using assms unat_of_nat_small [of "pos + n"] by simp
qed

lemma parseFrame_wire:
  fixes b0 :: u8
  assumes fits: "fits enc (length raw)"
    and op: "b0 AND 0x0F = 1 \<or> b0 AND 0x0F = 8"
    and data: "data = wire_frame b0 enc mk raw @ rest"
    and small: "length data < 2 ^ 64"
  shows "parseFrame uninit data msg0 =
    Inr \<lparr>ret = (b0 AND 0x80 \<noteq> 0), outMessage = xor_from (key_fun uninit mk) 0 raw,
         frameLen = Some (length (wire_frame b0 enc mk raw)), outOpcode = Some (b0 AND 0x0F)\<rparr>"
proof -
  let ?n = "length raw" and ?m = "mk \<noteq> None"
  let ?hdr = "schar b0 # len_field enc ?m ?n"
  let ?pos = "1 + length (len_field enc ?m ?n) + length (key_bytes mk)"
  have n63: "?n < 2 ^ 63" using fits by (cases enc) simp_all
  have d1: "data = schar b0 # len_field enc ?m ?n @ (key_bytes mk @ raw @ rest)"
    and d2: "data = ?hdr @ key_bytes mk @ (raw @ rest)"
    and d3: "data = (?hdr @ key_bytes mk) @ raw @ rest"
    unfolding data wire_frame_def by simp_all
  have first: "byte_at data 0 = Inr b0"
    unfolding d1 by (simp add: byte_at_def)
  have ge2: "\<not> length data < 2"
    unfolding d1 by (simp add: length_len_field split: len_enc.split)
  then have second: "byte_at data 1 = Inr (uchar (data ! 1))"
    by (simp add: byte_at_in)
  note ext = extended_len_wire [OF fits d1]
  have mk: "masking_key uninit data (uchar (data ! 1) AND 0x80 \<noteq> 0) (1 + length (len_field enc ?m ?n)) =
    Inr (Some (key_fun uninit mk, ?pos))"
    unfolding ext(2) by (subst d2, subst masking_key_wire) simp_all
  have total: "word_of_nat ?pos + word_of_nat ?n = (word_of_nat (?pos + ?n) :: u64)"
    and utotal: "unat (word_of_nat ?pos + word_of_nat ?n :: u64) = ?pos + ?n"
    using total_no_wrap [OF header_length_le n63] by blast+
  have len: "length data = ?pos + ?n + length rest"
    unfolding d3 by simp
  have enough: "\<not> word_of_nat (length data) < (word_of_nat ?pos + word_of_nat ?n :: u64)"
    unfolding word_less_nat_alt utotal unat_of_nat_small [OF small] using len by linarith
  have un: "unat (word_of_nat ?n :: u64) = ?n"
    using n63 by (simp add: unat_of_nat_small)
  then have nomax: "\<not> string_max_size < unat (word_of_nat ?n :: u64)"
    using n63 by (simp add: string_max_size_def)
  have raw: "take ?n (drop ?pos data) = raw"
    unfolding d3 by simp
  have unm: "unmask data ?pos (key_fun uninit mk) 0 (unat (word_of_nat ?n :: u64)) =
    Inr (xor_from (key_fun uninit mk) 0 raw)"
    unfolding un using unmask_eq [of ?pos 0 ?n data] len raw by simp
  have opc: "\<not> (b0 AND 0x0F \<noteq> 1 \<and> b0 AND 0x0F \<noteq> 8)" using op by blast
  have flen: "length (wire_frame b0 enc mk raw) = ?pos + ?n"
    by (simp add: wire_frame_def)
  show ?thesis
    unfolding parseFrame_def Let_def
    by (simp only: ge2 if_False first rbind_simps opc second ext(1) option.case prod.case mk enough
        nomax unm utotal flen)
qed

section \<open>Everything a successful call decodes is on the wire\<close>

lemma extended_len_no_oob: "is_ok (extended_len data n 2)"
  by (auto simp: extended_len_def byte_at_in read_be_eq)

lemma masking_key_no_oob: "is_ok (masking_key uninit data m pos)"
  by (auto simp: masking_key_def byte_at_in)

lemma extended_len_Some:
  assumes "extended_len data (ucast (uchar (data ! 1) AND 0x7F)) 2 = Inr (Some (p, pos))"
    and "2 \<le> length data" and "unat p < 2 ^ 63"
  defines "m \<equiv> (uchar (data ! 1) AND 0x80 \<noteq> 0)"
  obtains enc where "fits enc (unat p)" and "pos = 1 + length (len_field enc m (unat p))"
    and "take pos data = data ! 0 # len_field enc m (unat p)"
proof -
  let ?b1 = "uchar (data ! 1)"
  let ?x = "?b1 AND 0x7F"
  have b1: "data ! 1 = schar ((if m then 0x80 else 0) OR ?x)"
    using second_byte_split [of ?b1] unfolding m_def by (metis schar_uchar)
  have pp: "word_of_nat (unat p) = p" by simp
  have t2: "take (2 + k) data = data ! 0 # data ! 1 # take k (drop 2 data)" for k
    using assms(2) by (cases data; cases "tl data") auto
  show thesis
  proof (cases "?x = 126")
    case True
    then have "ucast ?x = (126 :: u64)" by simp
    with assms(1) have l: "4 \<le> length data" and pos: "pos = 4"
      and p: "p = push_bit 8 (ucast (uchar (data ! 2))) OR ucast (uchar (data ! 3))"
      by (auto simp: extended_len_def byte_at_in numeral_3_eq_3 numeral_2_eq_2 split: if_splits)
    have pv: "p = be_val 0 (take 2 (drop 2 data))"
      using p l take_2_drop [of 2 data] by (simp add: be_val_def)
    have bb: "be_bytes 2 p = take 2 (drop 2 data)"
      unfolding pv using l by (intro be_bytes_be_val) simp_all
    have "p = take_bit 16 p"
      using be_val_be_bytes [of 0 2 p] by (simp add: bb pv [symmetric])
    then have "unat p < 2 ^ 16"
      by (metis take_bit_nat_less_exp unsigned_take_bit_eq)
    with l pos bb b1 t2 [of 2] True show thesis
      by (intro that [of Len16]) (simp_all add: pp)
  next
    case n126: False
    show thesis
    proof (cases "?x = 127")
      case True
      then have "ucast ?x = (127 :: u64)" by simp
      with assms(1) have l: "10 \<le> length data" and pos: "pos = 10"
        and p: "p = be_val 0 (take 8 (drop 2 data))"
        by (auto simp: extended_len_def read_be_eq split: if_splits)
      have "be_bytes 8 p = take 8 (drop 2 data)"
        unfolding p using l by (intro be_bytes_be_val) simp_all
      with l pos b1 t2 [of 8] True assms(3) show thesis
        by (intro that [of Len64]) (simp_all add: pp)
    next
      case n127: False
      have "ucast ?x \<noteq> (126 :: u64)" "ucast ?x \<noteq> (127 :: u64)"
        using n126 n127 ucast_u8_eq_iff [of ?x 126] ucast_u8_eq_iff [of ?x 127] by auto
      with assms(1) have p: "p = ucast ?x" and pos: "pos = 2"
        by (auto simp: extended_len_def)
      have "unat ?x < 128"
        using and_7F_less [of ?b1] by (simp add: word_less_nat_alt)
      moreover have "unat ?x \<noteq> 126" "unat ?x \<noteq> 127"
        using n126 n127 by (auto simp: word_unat_eq_iff)
      ultimately have "unat p < 126" by (simp add: p)
      with pos b1 t2 [of 0] show thesis
        by (intro that [of Len7]) (simp_all add: p)
    qed
  qed
qed

lemma masking_key_Some:
  assumes "masking_key uninit data m pos = Inr (Some (key, pos'))" and "pos \<le> length data"
  obtains mk where "m \<longleftrightarrow> mk \<noteq> None" and "key = key_fun uninit mk"
    and "pos' = pos + length (key_bytes mk)" and "take pos' data = take pos data @ key_bytes mk"
proof (cases m)
  case False
  with assms show thesis by (intro that [of None]) (auto simp: masking_key_def)
next
  case True
  with assms have l: "pos + 4 \<le> length data" and p: "pos' = pos + 4"
    and k: "key = uninit(0 := uchar (data ! pos), 1 := uchar (data ! (pos + 1)),
        2 := uchar (data ! (pos + 2)), 3 := uchar (data ! (pos + 3)))"
    by (auto simp: masking_key_def byte_at_in split: if_splits)
  have "take 4 (drop pos data) = [data ! pos, data ! (pos + 1), data ! (pos + 2), data ! (pos + 3)]"
    using l by (simp add: eval_nat_numeral flip: Cons_nth_drop_Suc)
  then have "take (pos + 4) data =
    take pos data @ [data ! pos, data ! (pos + 1), data ! (pos + 2), data ! (pos + 3)]"
    by (simp add: take_add)
  with True p k show thesis
    by (intro that [of "Some (uchar (data ! pos), uchar (data ! (pos + 1)),
        uchar (data ! (pos + 2)), uchar (data ! (pos + 3)))"]) simp_all
qed


lemma parseFrame_stages:
  assumes "2 \<le> length data" and op: "uchar (data ! 0) AND 0x0F = 1 \<or> uchar (data ! 0) AND 0x0F = 8"
    and ext: "extended_len data (ucast (uchar (data ! 1) AND 0x7F)) 2 = Inr (Some (p, pos))"
    and mk: "masking_key uninit data (uchar (data ! 1) AND 0x80 \<noteq> 0) pos = Inr (Some (key, pos'))"
  shows "parseFrame uninit data msg0 =
    (if word_of_nat (length data) < word_of_nat pos' + p
     then Inr \<lparr>ret = False, outMessage = msg0, frameLen = None,
               outOpcode = Some (uchar (data ! 0) AND 0x0F)\<rparr>
     else if string_max_size < unat p then Inl LengthError
     else rbind (unmask data pos' key 0 (unat p)) (\<lambda>msg.
       Inr \<lparr>ret = (uchar (data ! 0) AND 0x80 \<noteq> 0), outMessage = msg,
            frameLen = Some (unat (word_of_nat pos' + p)),
            outOpcode = Some (uchar (data ! 0) AND 0x0F)\<rparr>))"
proof -
  have bytes: "byte_at data 0 = Inr (uchar (data ! 0))" "byte_at data 1 = Inr (uchar (data ! 1))"
    using assms(1) by (auto simp: byte_at_def)
  have nlt: "\<not> length data < 2" using assms(1) by simp
  have opc: "\<not> (uchar (data ! 0) AND 0x0F \<noteq> 1 \<and> uchar (data ! 0) AND 0x0F \<noteq> 8)"
    using op by blast
  show ?thesis
    unfolding parseFrame_def Let_def
    by (simp only: nlt if_False bytes rbind_simps opc ext option.case prod.case mk)
qed

text \<open>A call stops early with \<^verbatim>\<open>false\<close> and the message untouched, or passes both header stages.\<close>

lemma parseFrame_cases:
  obtains (early) oc where "parseFrame uninit data msg0 =
      Inr \<lparr>ret = False, outMessage = msg0, frameLen = None, outOpcode = oc\<rparr>"
  | (late) p pos key pos' where "2 \<le> length data"
    and "uchar (data ! 0) AND 0x0F = 1 \<or> uchar (data ! 0) AND 0x0F = 8"
    and "extended_len data (ucast (uchar (data ! 1) AND 0x7F)) 2 = Inr (Some (p, pos))"
    and "masking_key uninit data (uchar (data ! 1) AND 0x80 \<noteq> 0) pos = Inr (Some (key, pos'))"
proof (cases "length data < 2")
  case True
  then show thesis by (intro early [of None]) (simp add: parseFrame_def)
next
  case nlt: False
  let ?oc = "uchar (data ! 0) AND 0x0F" and ?m = "uchar (data ! 1) AND 0x80 \<noteq> 0"
  have bytes: "byte_at data 0 = Inr (uchar (data ! 0))" "byte_at data 1 = Inr (uchar (data ! 1))"
    using nlt by (auto simp: byte_at_def)
  obtain e where e: "extended_len data (ucast (uchar (data ! 1) AND 0x7F)) 2 = Inr e"
    using extended_len_no_oob unfolding is_ok_iff by metis
  note start = parseFrame_def Let_def nlt if_False bytes rbind_simps
  show thesis
  proof (cases "?oc \<noteq> 1 \<and> ?oc \<noteq> 8")
    case True
    then show thesis
      by (intro early [of "Some ?oc"]) (simp only: start if_True simp_thms)
  next
    case opc: False
    show thesis
    proof (cases e)
      case None
      then show thesis
        by (intro early [of "Some ?oc"]) (simp only: start opc e option.case)
    next
      case ext: (Some pp)
      obtain k where k: "masking_key uninit data ?m (snd pp) = Inr k"
        using masking_key_no_oob unfolding is_ok_iff by metis
      show thesis
      proof (cases k)
        case None
        then show thesis
          by (intro early [of "Some ?oc"])
            (simp only: start opc e ext k option.case case_prod_unfold)
      next
        case (Some kp)
        then show thesis
          using opc ext e k nlt by (intro late [of "fst pp" "snd pp" "fst kp" "snd kp"]) auto
      qed
    qed
  qed
qed

lemma parseFrame_late:
  assumes "parseFrame uninit data msg0 = Inl LengthError \<or>
     (\<exists>r. parseFrame uninit data msg0 = Inr r \<and> frameLen r \<noteq> None)"
  obtains p pos key pos' where "2 \<le> length data"
    and "uchar (data ! 0) AND 0x0F = 1 \<or> uchar (data ! 0) AND 0x0F = 8"
    and "extended_len data (ucast (uchar (data ! 1) AND 0x7F)) 2 = Inr (Some (p, pos))"
    and "masking_key uninit data (uchar (data ! 1) AND 0x80 \<noteq> 0) pos = Inr (Some (key, pos'))"
proof (cases rule: parseFrame_cases [of uninit data msg0])
  case (early oc)
  with assms show thesis by auto
qed (rule that)

lemma header_pos:
  assumes "extended_len data n 2 = Inr (Some (p, pos))"
    and "masking_key uninit data m pos = Inr (Some (key, pos'))"
    and "2 \<le> length data"
  shows "pos \<le> length data" and "pos' \<le> 14"
  using assms
  by (auto simp: extended_len_def masking_key_def byte_at_def read_be_eq rbind_def
      split: if_splits sum.splits)

lemma parseFrame_sound:
  assumes r: "parseFrame uninit data msg0 = Inr r" and L: "frameLen r = Some L"
    and small: "length data < 2 ^ 64"
  obtains b0 enc mk raw rest where
    "data = wire_frame b0 enc mk raw @ rest" and "L = length (wire_frame b0 enc mk raw)"
    and "fits enc (length raw)" and "b0 AND 0x0F = 1 \<or> b0 AND 0x0F = 8"
    and "r = \<lparr>ret = (b0 AND 0x80 \<noteq> 0), outMessage = xor_from (key_fun uninit mk) 0 raw,
              frameLen = Some L, outOpcode = Some (b0 AND 0x0F)\<rparr>"
proof -
  let ?b0 = "uchar (data ! 0)" and ?m = "uchar (data ! 1) AND 0x80 \<noteq> 0"
  obtain p pos key pos' where ge: "2 \<le> length data" and op: "?b0 AND 0x0F = 1 \<or> ?b0 AND 0x0F = 8"
    and ext: "extended_len data (ucast (uchar (data ! 1) AND 0x7F)) 2 = Inr (Some (p, pos))"
    and mk: "masking_key uninit data ?m pos = Inr (Some (key, pos'))"
    using parseFrame_late [of uninit data msg0] r L by blast
  note pos = header_pos(1) [OF ext mk ge]
  note st = parseFrame_stages [OF ge op ext mk, of msg0]
  have fit: "\<not> word_of_nat (length data) < word_of_nat pos' + p"
    and max: "\<not> string_max_size < unat p"
    using r L st by (auto split: if_splits)
  from max have p63: "unat p < 2 ^ 63" by (simp add: string_max_size_def)
  obtain enc where enc: "fits enc (unat p)" "pos = 1 + length (len_field enc ?m (unat p))"
    "take pos data = data ! 0 # len_field enc ?m (unat p)"
    using extended_len_Some [OF ext ge p63] by blast
  obtain mk' where mk': "?m \<longleftrightarrow> mk' \<noteq> None" "key = key_fun uninit mk'"
    "pos' = pos + length (key_bytes mk')" "take pos' data = take pos data @ key_bytes mk'"
    using masking_key_Some [OF mk pos] by blast
  have le14: "pos' \<le> 14"
    using header_length_le [of enc ?m "unat p" mk'] enc(2) mk'(3) by simp
  have ut: "unat (word_of_nat pos' + p) = pos' + unat p"
    using total_no_wrap(2) [OF le14 p63] by simp
  have enough: "pos' + unat p \<le> length data"
    using fit unfolding word_less_nat_alt ut unat_of_nat_small [OF small] by simp
  let ?raw = "take (unat p) (drop pos' data)"
  have lraw: "length ?raw = unat p" using enough by simp
  have wf: "wire_frame ?b0 enc mk' ?raw = take (pos' + unat p) data"
    unfolding wire_frame_def lraw using enc(3) mk'(1,4) by (simp add: take_add)
  have split: "data = wire_frame ?b0 enc mk' ?raw @ drop (pos' + unat p) data"
    unfolding wf by simp
  have lwf: "length (wire_frame ?b0 enc mk' ?raw) = pos' + unat p"
    unfolding wf using enough by simp
  have "unmask data pos' key 0 (unat p) = Inr (xor_from (key_fun uninit mk') 0 ?raw)"
    using unmask_eq [of pos' 0 "unat p" data key] enough mk'(2) by simp
  with st fit max r have req: "r = \<lparr>ret = (?b0 AND 0x80 \<noteq> 0),
      outMessage = xor_from (key_fun uninit mk') 0 ?raw,
      frameLen = Some (pos' + unat p), outOpcode = Some (?b0 AND 0x0F)\<rparr>"
    by (simp add: ut)
  with L have "L = pos' + unat p" by simp
  with that [OF split _ _ op] enc(1) lraw lwf req show thesis by simp
qed


section \<open>Safety of the decoder\<close>

lemma parseFrame_outcome:
  assumes "length data < 2 ^ 64"
  shows "parseFrame uninit data msg0 = Inl LengthError \<or>
    (\<exists>r. parseFrame uninit data msg0 = Inr r \<and>
       (frameLen r = None \<longrightarrow> \<not> ret r \<and> outMessage r = msg0))"
proof (cases rule: parseFrame_cases [of uninit data msg0])
  case (early oc)
  then show ?thesis by simp
next
  case (late p pos key pos')
  have "unmask data pos' key 0 (unat p) = Inr (xor_from key 0 (take (unat p) (drop pos' data)))"
    if "\<not> word_of_nat (length data) < word_of_nat pos' + p" "\<not> string_max_size < unat p"
    using that total_no_wrap(2) [of pos' "unat p"] unmask_eq [of pos' 0 "unat p" data key]
      header_pos(2) [OF late(3,4,1)]
    by (simp add: word_less_nat_alt unat_of_nat_small [OF assms] string_max_size_def)
  then show ?thesis
    unfolding parseFrame_stages [OF late(1-4)] by (auto split: if_split)
qed

lemma extended_len_append:
  "extended_len data n 2 = Inr (Some x) \<Longrightarrow> 2 \<le> length data \<Longrightarrow>
     extended_len (data @ suf) n 2 = Inr (Some x)"
  by (auto simp: extended_len_def byte_at_in nth_append read_be_eq split: if_splits)

lemma masking_key_append:
  "masking_key uninit data m pos = Inr (Some x) \<Longrightarrow>
     masking_key uninit (data @ suf) m pos = Inr (Some x)"
  by (auto simp: masking_key_def byte_at_in nth_append split: if_splits)

lemma parseFrame_append:
  assumes "parseFrame uninit data msg0 = Inl LengthError \<or>
     (\<exists>r. parseFrame uninit data msg0 = Inr r \<and> frameLen r \<noteq> None)"
    and small: "length (data @ suf) < 2 ^ 64"
  shows "parseFrame uninit (data @ suf) msg1 = parseFrame uninit data msg0"
proof -
  obtain p pos key pos' where ge: "2 \<le> length data"
    and op: "uchar (data ! 0) AND 0x0F = 1 \<or> uchar (data ! 0) AND 0x0F = 8"
    and ext: "extended_len data (ucast (uchar (data ! 1) AND 0x7F)) 2 = Inr (Some (p, pos))"
    and mk: "masking_key uninit data (uchar (data ! 1) AND 0x80 \<noteq> 0) pos = Inr (Some (key, pos'))"
    by (rule parseFrame_late [OF assms(1)])
  let ?d = "data @ suf"
  have sl: "length data < 2 ^ 64" using small by simp
  have hd: "?d ! 0 = data ! 0" "?d ! 1 = data ! 1" using ge by (auto simp: nth_append)
  have fit: "\<not> word_of_nat (length data) < word_of_nat pos' + p"
    using assms(1) parseFrame_stages [OF ge op ext mk, of msg0] by (auto split: if_splits)
  have fit': "\<not> word_of_nat (length ?d) < word_of_nat pos' + p"
    using fit unfolding word_less_nat_alt unat_of_nat_small [OF sl] unat_of_nat_small [OF small]
    by simp
  have ge': "2 \<le> length ?d" using ge by simp
  note st' = parseFrame_stages [OF ge', of p pos uninit key pos' msg1, unfolded hd,
      OF op extended_len_append [OF ext ge] masking_key_append [OF mk]]
  show ?thesis
  proof (cases "string_max_size < unat p")
    case True
    then show ?thesis
      using fit fit' st' parseFrame_stages [OF ge op ext mk, of msg0] by simp
  next
    case False
    have "pos' \<le> 14" by (rule header_pos(2) [OF ext mk ge])
    then have "pos' + unat p \<le> length data"
      using False fit total_no_wrap(2) [of pos' "unat p"]
      by (simp add: word_less_nat_alt unat_of_nat_small [OF sl] string_max_size_def)
    then have "unmask ?d pos' key 0 (unat p) = unmask data pos' key 0 (unat p)"
      by (simp add: unmask_eq)
    then show ?thesis
      using False fit fit' st' parseFrame_stages [OF ge op ext mk, of msg0] by simp
  qed
qed

section \<open>Encoding\<close>

lemma byte_of_len_eq: "byte_of_len len i = schar (ucast (drop_bit (8 * i) len))"
proof -
  have "w AND 0xFF = take_bit 8 w" for w :: u64
    by (simp add: take_bit_eq_mask mask_eq_exp_minus_1)
  then have "ucast (drop_bit (i * 8) len AND 0xFF) = (ucast (drop_bit (8 * i) len) :: u8)"
    by (intro bit_word_eqI) (auto simp: bit_simps mult.commute)
  then show ?thesis by (simp add: byte_of_len_def)
qed

lemma be_bytes_eq_map: "be_bytes n w = map (byte_of_len w) (rev [0..<n])"
  by (induction n) (simp_all add: byte_of_len_eq)

lemma encodeFrame_wire:
  assumes "length message < 2 ^ 63"
  shows "encodeFrame message = wire_frame 0x81 (min_enc (length message)) None message"
proof -
  let ?n = "length message" and ?w = "word_of_nat (length message) :: u64"
  have u: "unat ?w = ?n" using assms by (simp add: unat_of_nat_small)
  have le: "?w \<le> 125 \<longleftrightarrow> ?n < 126" "?w \<le> 65535 \<longleftrightarrow> ?n < 2 ^ 16"
    by (auto simp: word_le_nat_alt u)
  have b0: "(0x80 OR 0x01 :: u8) = 0x81" by simp
  have "(ucast ?w :: u8) = word_of_nat ?n"
    by (rule bit_word_eqI) (auto simp: bit_simps)
  moreover have "rev [0..<8] = [7, 6, 5, 4, 3, 2, 1, 0 :: nat]" "rev [0..<2] = [1, 0 :: nat]"
    by (simp_all add: upt_rec)
  ultimately show ?thesis
    unfolding encodeFrame_def Let_def wire_frame_def min_enc_def le b0
    by (simp add: be_bytes_eq_map del: be_bytes.simps)
qed

lemma length_wire_frame:
  "length (wire_frame b0 enc mk raw) =
     1 + (case enc of Len7 \<Rightarrow> 1 | Len16 \<Rightarrow> 3 | Len64 \<Rightarrow> 9) + (if mk = None then 0 else 4) + length raw"
  by (simp add: wire_frame_def length_len_field length_key_bytes)

lemma fits_min_enc: "n < 2 ^ 63 \<Longrightarrow> fits (min_enc n) n"
  by (simp add: min_enc_def)

lemma xor_from_twice [simp]: "xor_from key i (xor_from key i s) = s"
  by (induction s arbitrary: i) (simp_all add: xor_from_def xor.assoc)

lemma length_xor_from [simp]: "length (xor_from key i s) = length s"
  by (simp add: xor_from_def)

lemma xor_from_zero [simp]: "xor_from (\<lambda>_. 0) i s = s"
  by (induction s arbitrary: i) (simp_all add: xor_from_def)

lemma xor_from_key:
  "xor_from (key_fun u (Some k)) i s = xor_from (key_fun v (Some k)) i s"
proof -
  have "key_fun u (Some k) (j mod 4) = key_fun v (Some k) (j mod 4)" for j
  proof -
    have "j mod 4 < 4" by simp
    then have "j mod 4 = 0 \<or> j mod 4 = 1 \<or> j mod 4 = 2 \<or> j mod 4 = 3" by linarith
    then show ?thesis by (cases k) auto
  qed
  then show ?thesis by (simp add: xor_from_def)
qed

text \<open>What a client sends: a final text frame, masked with its key, shortest length encoding.\<close>

definition client_frame :: "mask_key \<Rightarrow> string \<Rightarrow> string" where
  "client_frame k msg =
     wire_frame 0x81 (min_enc (length msg)) (Some k) (xor_from (key_fun (\<lambda>_. 0) (Some k)) 0 msg)"

lemma parseFrame_client_frame:
  assumes "length (client_frame k msg @ rest) < 2 ^ 63"
  shows "parseFrame uninit (client_frame k msg @ rest) msg0 =
    Inr \<lparr>ret = True, outMessage = msg, frameLen = Some (length (client_frame k msg)),
         outOpcode = Some 1\<rparr>"
proof -
  let ?raw = "xor_from (key_fun (\<lambda>_. 0) (Some k)) 0 msg"
  have "length msg < 2 ^ 63"
    using assms by (simp add: client_frame_def length_wire_frame)
  then have f: "fits (min_enc (length msg)) (length ?raw)" by (simp add: fits_min_enc)
  have x: "xor_from (key_fun uninit (Some k)) 0 ?raw = msg"
    by (subst xor_from_key [where v = "\<lambda>_. 0"]) simp
  show ?thesis
    using parseFrame_wire [OF f, where ?b0.0 = "0x81" and mk = "Some k" and rest = rest and
        uninit = uninit and ?msg0.0 = msg0, OF _ refl]
      assms x by (simp add: client_frame_def)
qed

lemma wire_frame_prefix_free:
  assumes "wire_frame b0 enc mk raw @ rest = wire_frame b0' enc' mk' raw' @ rest'"
    and "fits enc (length raw)" and "fits enc' (length raw')"
    and "b0 AND 0x0F = 1 \<or> b0 AND 0x0F = 8" and "length (wire_frame b0 enc mk raw @ rest) < 2 ^ 64"
  shows "wire_frame b0 enc mk raw = wire_frame b0' enc' mk' raw'" and "rest = rest'"
proof -
  have "b0 = b0'" using assms(1) by (simp add: wire_frame_def)
  with assms(4) have op': "b0' AND 0x0F = 1 \<or> b0' AND 0x0F = 8" by simp
  have "length (wire_frame b0 enc mk raw) = length (wire_frame b0' enc' mk' raw')"
    using parseFrame_wire [OF assms(2,4) refl assms(5), of "\<lambda>_. 0" "[]"]
      parseFrame_wire [OF assms(3) op' refl, of mk' rest' "\<lambda>_. 0" "[]"] assms(1,5) by simp
  with assms(1) show "wire_frame b0 enc mk raw = wire_frame b0' enc' mk' raw'" and "rest = rest'"
    by simp_all
qed

section \<open>A declared length that wraps around\<close>

definition huge_frame :: "u64 \<Rightarrow> mask_key \<Rightarrow> string" where
  "huge_frame p k = [schar 0x81, schar 0xFF] @ be_bytes 8 p @ key_bytes (Some k)"

lemma parseFrame_huge:
  assumes p: "2 ^ 64 - 14 \<le> unat p" and small: "14 + length rest < 2 ^ 64"
  shows "parseFrame uninit (huge_frame p k @ rest) msg0 = Inl LengthError"
proof -
  let ?d = "huge_frame p k @ rest"
  have l10: "take 8 (drop 2 ?d) = be_bytes 8 p" and len: "length ?d = 14 + length rest"
    by (simp_all add: huge_frame_def length_key_bytes del: key_bytes.simps)
  have d0: "?d ! 0 = schar 0x81" "?d ! 1 = schar 0xFF" by (simp_all add: huge_frame_def)
  have ext: "extended_len ?d (ucast (uchar (?d ! 1) AND 0x7F)) 2 = Inr (Some (p, 10))"
    unfolding d0 using l10 len
    by (simp add: extended_len_def read_be_eq be_val_be_bytes take_bit_word_eq_self)
  have "?d = ([schar 0x81, schar 0xFF] @ be_bytes 8 p) @ key_bytes (Some k) @ rest"
    by (simp add: huge_frame_def)
  then have mk: "masking_key uninit ?d (uchar (?d ! 1) AND 0x80 \<noteq> 0) 10 =
      Inr (Some (key_fun uninit (Some k), 14))"
    using masking_key_wire [of "[schar 0x81, schar 0xFF] @ be_bytes 8 p" 10 uninit "Some k" rest] d0
    by (simp add: length_key_bytes del: key_bytes.simps key_fun.simps)
  have lt: "unat p < 2 ^ 64" using unsigned_less [of p, where ?'a = nat] by simp
  have "unat (14 + p) = (14 + unat p) mod 2 ^ 64"
    by (simp add: unat_word_ariths)
  also have "\<dots> = 14 + unat p - 2 ^ 64"
    using p lt by (simp add: mod_if)
  finally have "unat (14 + p) \<le> 14" using lt by simp
  then have fit: "\<not> word_of_nat (length ?d) < (word_of_nat 14 + p :: u64)"
    unfolding word_less_nat_alt using len small unat_of_nat_small [of "length ?d"] by simp
  have "string_max_size < unat p" using p by (simp add: string_max_size_def)
  then show ?thesis
    using parseFrame_stages [OF _ _ ext mk, of msg0] fit len d0 by simp
qed

section \<open>The upgrade request\<close>

lemma isWebSocketUpgrade_iff:
  "isWebSocketUpgrade r \<longleftrightarrow>
     (\<exists>i. str_find r ''Upgrade: websocket'' 0 = Some i) \<and>
     (\<exists>i. str_find r ''Connection: Upgrade'' 0 = Some i) \<and>
     (\<exists>i. str_find r ''Sec-WebSocket-Key: '' 0 = Some i)"
  by (auto simp: isWebSocketUpgrade_def)

lemma extractSecWebSocketKey_ok: "is_ok (extractSecWebSocketKey request)"
  using str_find_Some(2) [of request "''Sec-WebSocket-Key: ''" 0]
  by (auto simp: extractSecWebSocketKey_def substr_def Let_def split: option.split)

lemma search_not_None: "take (length pat) (drop i s) = pat \<Longrightarrow> i \<le> length s \<Longrightarrow> search pat s \<noteq> None"
  unfolding search_None_iff by blast

lemma search_append_first:
  assumes "\<And>j. j < length pre \<Longrightarrow> take (length pat) (drop j (pre @ pat @ post)) \<noteq> pat"
  shows "search pat (pre @ pat @ post) = Some (length pre)"
  using assms by (simp add: search_Some_iff)

text \<open>The key a request carries: what stands between the header name and the end of its line.\<close>

lemma extractSecWebSocketKey_eq:
  assumes first: "str_find request ''Sec-WebSocket-Key: '' 0 = Some p"
    and line: "drop (p + 19) request = key @ crlf @ post"
    and key: "CHR 0x0D \<notin> set key"
  shows "extractSecWebSocketKey request = Inr key"
proof -
  have le: "p + 19 \<le> length request"
    using str_find_Some(2) [OF first] by simp
  have none: "take (length crlf) (drop j (key @ crlf @ post)) \<noteq> crlf" if "j < length key" for j
  proof
    assume "take (length crlf) (drop j (key @ crlf @ post)) = crlf"
    then have "drop j (key @ crlf @ post) ! 0 = crlf ! 0"
      by (metis crlf_def length_greater_0_conv list.distinct(1) nth_take)
    then have "key ! j = CHR 0x0D"
      using that by (simp add: nth_append crlf_def)
    then show False using key that nth_mem by metis
  qed
  have "str_find request crlf (p + 19) = Some (p + 19 + length key)"
    using le none by (simp add: str_find_def line search_append_first)
  then show ?thesis
    using first le by (simp add: extractSecWebSocketKey_def Let_def substr_def line)
qed

lemma parseFrame_encodeFrame:
  assumes "length (encodeFrame m @ rest) < 2 ^ 63"
  shows "parseFrame uninit (encodeFrame m @ rest) msg0 =
    Inr \<lparr>ret = True, outMessage = xor_from uninit 0 m, frameLen = Some (length (encodeFrame m)),
         outOpcode = Some 1\<rparr>"
proof -
  have l: "length m < 2 ^ 63" using assms by (simp add: encodeFrame_def Let_def)
  show ?thesis
    unfolding encodeFrame_wire [OF l]
    using parseFrame_wire [OF fits_min_enc [OF l], where ?b0.0 = "0x81" and mk = None, OF _ refl]
      assms by (simp add: encodeFrame_wire [OF l])
qed

lemma wire_frame_ge_2: "2 \<le> length (wire_frame b0 enc mk raw)"
  by (simp add: length_wire_frame split: len_enc.split)

section \<open>Properties\<close>

text \<open>C2: decoding inverts what a client does: of the bytes a masked, final text frame followed by
  anything, \<^verbatim>\<open>parseFrame\<close> returns the message, the length of exactly that frame and opcode 1,
  for every key, every message and every length encoding.\<close>

theorem parse_client_roundtrip:
  assumes "length (client_frame k msg @ rest) < 2 ^ 63"
  shows "parseFrame uninit (client_frame k msg @ rest) msg0 =
    Inr \<lparr>ret = True, outMessage = msg, frameLen = Some (length (client_frame k msg)),
         outOpcode = Some 1\<rparr>"
  by (rule parseFrame_client_frame [OF assms])

theorem parse_client_roundtrip_witness:
  "parseFrame (\<lambda>_. 7) (client_frame (1, 2, 3, 4) ''hello'' @ ''xyz'') [] =
    Inr \<lparr>ret = True, outMessage = ''hello'',
         frameLen = Some (length (client_frame (1, 2, 3, 4) ''hello'')), outOpcode = Some 1\<rparr>"
  using parse_client_roundtrip [of "(1, 2, 3, 4)" "''hello''" "''xyz''" "\<lambda>_. 7" "[]"]
  by (simp add: client_frame_def length_wire_frame min_enc_def)

text \<open>C20: \<^verbatim>\<open>parseFrame\<close> assigns \<^verbatim>\<open>frameLen\<close> exactly when the data begins with a complete text or close
  frame of the wire format, and then it returns the FIN bit, the unmasked payload, the number of
  bytes of that frame and its opcode.\<close>

theorem parse_exact:
  assumes "length data < 2 ^ 64"
  shows "(parseFrame uninit data msg0 = Inr r \<and> frameLen r = Some L) \<longleftrightarrow>
    (\<exists>b0 enc mk raw rest. data = wire_frame b0 enc mk raw @ rest \<and> fits enc (length raw) \<and>
       (b0 AND 0x0F = 1 \<or> b0 AND 0x0F = 8) \<and> L = length (wire_frame b0 enc mk raw) \<and>
       r = \<lparr>ret = (b0 AND 0x80 \<noteq> 0), outMessage = xor_from (key_fun uninit mk) 0 raw,
            frameLen = Some L, outOpcode = Some (b0 AND 0x0F)\<rparr>)"
    (is "?lhs \<longleftrightarrow> ?rhs")
proof
  assume ?lhs
  then show ?rhs using parseFrame_sound [of uninit data msg0 r L] assms by metis
next
  assume ?rhs
  then show ?lhs using parseFrame_wire assms by auto
qed

theorem parse_exact_witness:
  "parseFrame (\<lambda>_. 0) (wire_frame 0x88 Len7 None ''ok'') [] =
     Inr \<lparr>ret = True, outMessage = ''ok'', frameLen = Some 4, outOpcode = Some 8\<rparr>"
proof -
  let ?r = "\<lparr>ret = True, outMessage = ''ok'', frameLen = Some 4, outOpcode = Some (8 :: u8)\<rparr>"
  have len: "length (wire_frame 0x88 Len7 None ''ok'') = 4" by (simp add: length_wire_frame)
  have "\<exists>b0 enc mk raw rest. wire_frame 0x88 Len7 None ''ok'' = wire_frame b0 enc mk raw @ rest \<and>
      fits enc (length raw) \<and> (b0 AND 0x0F = 1 \<or> b0 AND 0x0F = 8) \<and>
      4 = length (wire_frame b0 enc mk raw) \<and>
      ?r = \<lparr>ret = (b0 AND 0x80 \<noteq> 0), outMessage = xor_from (key_fun (\<lambda>_. 0) mk) 0 raw,
            frameLen = Some 4, outOpcode = Some (b0 AND 0x0F)\<rparr>"
    using len
    by (intro exI [of _ "0x88 :: u8"] exI [of _ Len7] exI [of _ None] exI [of _ "''ok''"] exI [of _ "[]"])
      (simp add: xor_from_zero)
  then show ?thesis
    using parse_exact [of "wire_frame 0x88 Len7 None ''ok''" "\<lambda>_. 0" "[]" ?r 4] len by simp
qed

text \<open>C38: \<^verbatim>\<open>parseFrame\<close> never reads a byte outside the data it is given; the only other way it can
  fail to return is the \<^verbatim>\<open>std::length_error\<close> of \<^verbatim>\<open>reserve\<close>; and a frame length it reports lies
  between 2 and the number of bytes available.\<close>

theorem parse_memory_safe:
  assumes "length data < 2 ^ 64"
  shows "parseFrame uninit data msg0 = Inl LengthError \<or>
    (\<exists>r. parseFrame uninit data msg0 = Inr r \<and>
       (\<forall>L. frameLen r = Some L \<longrightarrow> 2 \<le> L \<and> L \<le> length data))"
proof -
  have "2 \<le> L \<and> L \<le> length data"
    if "parseFrame uninit data msg0 = Inr r" "frameLen r = Some L" for r L
    using parseFrame_sound [OF that assms] wire_frame_ge_2
    by (metis length_append le_add1)
  then show ?thesis using parseFrame_outcome [OF assms] by blast
qed

theorem parse_memory_safe_witness:
  "parseFrame (\<lambda>_. 0) ''ab'' [] \<noteq> Inl OutOfBounds"
  using parse_memory_safe [of "''ab''" "\<lambda>_. 0" "[]"] by auto

text \<open>Whether a frame is complete does not depend on how the stream is cut: once
  \<^verbatim>\<open>parseFrame\<close> finds a frame, it finds the same frame when more bytes follow.\<close>

theorem parse_prefix_stable:
  assumes "parseFrame uninit data msg0 = Inr r" and "frameLen r = Some L"
    and "length (data @ suf) < 2 ^ 64"
  shows "parseFrame uninit (data @ suf) msg1 = Inr r"
  using parseFrame_append [of uninit data msg0 suf msg1] assms by auto

theorem parse_prefix_stable_witness:
  "parseFrame (\<lambda>_. 0) (encodeFrame ''hi'' @ ''tail'') ''x'' =
     Inr \<lparr>ret = True, outMessage = ''hi'', frameLen = Some (length (encodeFrame ''hi'')), outOpcode = Some 1\<rparr>"
proof -
  have l: "length (encodeFrame ''hi'') = 4" by (simp add: encodeFrame_def Let_def)
  have "parseFrame (\<lambda>_. 0) (encodeFrame ''hi'') [] =
     Inr \<lparr>ret = True, outMessage = ''hi'', frameLen = Some (length (encodeFrame ''hi'')), outOpcode = Some 1\<rparr>"
    using parseFrame_encodeFrame [of "''hi''" "[]" "\<lambda>_. 0" "[]"] l by simp
  then show ?thesis
    using parse_prefix_stable [where suf = "''tail''" and ?msg1.0 = "''x''"] l by simp
qed

text \<open>Server frames are delimited by their own header: two streams that start with encoded
  messages are equal only if the messages are, so a receiver can split them again.\<close>

theorem encode_unambiguous:
  assumes "encodeFrame m @ rest = encodeFrame m' @ rest'"
    and "length (encodeFrame m @ rest) < 2 ^ 63"
  shows "m = m' \<and> rest = rest'"
proof -
  have "length (encodeFrame m' @ rest') < 2 ^ 63" using assms by simp
  then have "m = m'"
    using parseFrame_encodeFrame [OF assms(2), of "\<lambda>_. 0" "[]"]
      parseFrame_encodeFrame [of m' rest' "\<lambda>_. 0" "[]"] assms(1) by simp
  with assms(1) show ?thesis by simp
qed

theorem encode_unambiguous_witness:
  "encodeFrame ''hi'' @ ''tail'' = [schar 0x81, schar 2] @ ''hitail'' \<and>
   length (encodeFrame ''hi'' @ ''tail'') < 2 ^ 63 \<and> (''hi'' = ''hi'' \<and> ''tail'' = ''tail'')"
  using encode_unambiguous [OF refl, of "''hi''" "''tail''"] by (simp add: encodeFrame_def Let_def)

text \<open>C39: an unmasked frame is decoded with the uninitialised \<^verbatim>\<open>maskingKey\<close>: what comes out is the
  payload combined with whatever the stack held.\<close>

theorem unmasked_frame_uses_uninitialised_key:
  assumes "length (encodeFrame m @ rest) < 2 ^ 63"
  shows "parseFrame uninit (encodeFrame m @ rest) msg0 =
    Inr \<lparr>ret = True, outMessage = xor_from uninit 0 m, frameLen = Some (length (encodeFrame m)),
         outOpcode = Some 1\<rparr>"
  by (rule parseFrame_encodeFrame [OF assms])

theorem unmasked_frame_uses_uninitialised_key_witness:
  "parseFrame (\<lambda>_. 1) (encodeFrame ''A'') [] =
     Inr \<lparr>ret = True, outMessage = ''@'', frameLen = Some 3, outOpcode = Some 1\<rparr>"
proof -
  have "char_of (64 :: nat) = CHR ''@''" by code_simp
  then have "xor_from (\<lambda>_. 1) 0 ''A'' = ''@''" by (simp add: xor_from_def uchar_def schar_def)
  then show ?thesis
    using unmasked_frame_uses_uninitialised_key [of "''A''" "[]" "\<lambda>_. 1" "[]"]
    by (simp add: encodeFrame_def Let_def)
qed

text \<open>C40: a 14-byte header that declares a payload of \<open>2 ^ 64 - 14\<close> bytes or more passes the check
  \<^verbatim>\<open>dataLen < pos + payloadLen\<close>, because the sum wraps around, and \<^verbatim>\<open>reserve\<close> throws.\<close>

theorem declared_length_overflow_throws:
  assumes "2 ^ 64 - 14 \<le> unat p" and "14 + length rest < 2 ^ 64"
  shows "parseFrame uninit (huge_frame p k @ rest) msg0 = Inl LengthError"
  by (rule parseFrame_huge [OF assms])

theorem declared_length_overflow_throws_witness:
  "parseFrame (\<lambda>_. 0) (huge_frame (- 1) (0, 0, 0, 0)) [] = Inl LengthError"
  using declared_length_overflow_throws [of "- 1" "[]" "\<lambda>_. 0" "(0, 0, 0, 0)" "[]"]
  by (simp add: unsigned_minus_1_eq_mask mask_eq_exp_minus_1)

text \<open>The answer to an upgrade request carries the digest of the request's own key: of the text
  between \<^verbatim>\<open>Sec-WebSocket-Key: \<close> and the end of that line.\<close>

theorem handshake_accepts_key:
  assumes "str_find request ''Sec-WebSocket-Key: '' 0 = Some p"
    and "drop (p + 19) request = key @ crlf @ post" and "CHR 0x0D \<notin> set key"
  shows "generateHandshakeResponse sha1 b64 request =
    Inr (''HTTP/1.1 101 Switching Protocols'' @ crlf @ ''Upgrade: websocket'' @ crlf @
         ''Connection: Upgrade'' @ crlf @ ''Sec-WebSocket-Accept: '' @
         b64 (sha1 (key @ WEBSOCKET_MAGIC)) @ crlf @ crlf)"
  using extractSecWebSocketKey_eq [OF assms]
  by (simp add: generateHandshakeResponse_def computeAcceptKey_def)


theorem handshake_accepts_key_witness:
  "generateHandshakeResponse id id (''Sec-WebSocket-Key: abc'' @ crlf) =
    Inr (''HTTP/1.1 101 Switching Protocols'' @ crlf @ ''Upgrade: websocket'' @ crlf @
         ''Connection: Upgrade'' @ crlf @ ''Sec-WebSocket-Accept: '' @
         (''abc'' @ WEBSOCKET_MAGIC) @ crlf @ crlf)"
  using handshake_accepts_key [of "''Sec-WebSocket-Key: abc'' @ crlf" 0 "''abc''" "[]" id id]
  by (simp add: str_find_def crlf_def)

end
