(* ===== verification/Timers.thy ===== *)
theory Timers
  imports Prelude Complex_Main "HOL-Library.Product_Lexorder"
begin

text \<open>
  \<^verbatim>\<open>mymuduo/Timestamp\<close>, \<^verbatim>\<open>Timer\<close>, \<^verbatim>\<open>TimerId\<close> and \<^verbatim>\<open>TimerQueue\<close>.  A \<^verbatim>\<open>TimerPtr\<close> is the address of a
  timer in the field \<open>heap\<close> (\<^verbatim>\<open>nullptr\<close> is 0); the allocator's choice of addresses is the field
  \<open>alloc\<close> and the clock's readings are the field \<open>clock\<close>, both arbitrary.  The two
  \<^verbatim>\<open>std::set\<close>s of entries are a strictly sorted list and a set.  A timer callback is the list of
  calls it makes into the queue.  \<^verbatim>\<open>double\<close> intervals are exact rationals, \<^verbatim>\<open>int64_t\<close> times are
  integers (microseconds stay below \<open>2 ^ 63\<close> for 292,000 years).  All operations run in the
  loop's thread, where \<^verbatim>\<open>runInLoop\<close> calls its argument at once.
\<close>

section \<open>Timestamps\<close>

definition timestamp_valid :: "int \<Rightarrow> bool" where
  "timestamp_valid t \<longleftrightarrow> t > 0"

definition trunc :: "rat \<Rightarrow> int" where
  "trunc r = (if 0 \<le> r then \<lfloor>r\<rfloor> else \<lceil>r\<rceil>)"

definition addTime :: "int \<Rightarrow> rat \<Rightarrow> int" where
  "addTime timestamp seconds = timestamp + trunc (seconds * 1000 * 1000)"

definition timestamp_of_timeval :: "int \<Rightarrow> int \<Rightarrow> int" where
  "timestamp_of_timeval tv_sec tv_usec = tv_sec * 1000 * 1000 + tv_usec"

definition howMuchTimeFromNow :: "int \<Rightarrow> int \<Rightarrow> int \<times> int" where
  "howMuchTimeFromNow expir tnow =
     (let us = expir - tnow; us = (if us < 100 then 100 else us)
      in (us div (1000 * 1000), us mod (1000 * 1000) * 1000))"

section \<open>State\<close>

type_synonym tptr = nat
type_synonym entry = "int \<times> tptr"
type_synonym active_timer = "tptr \<times> int"

datatype tq_call =
    CallAdd "tq_call list" int rat     \<comment> \<open>\<^verbatim>\<open>addTimer(cb, when, interval)\<close>\<close>
  | CallCancel tptr int                \<comment> \<open>\<^verbatim>\<open>cancel(TimerId(ptr, seq))\<close>\<close>

record timer =
  callback :: "tq_call list"
  expiration :: int
  interval :: rat
  repeats :: bool
  sequence :: int

record timer_queue =
  heap :: "tptr \<Rightarrow> timer option"
  alloc :: "nat \<Rightarrow> tptr"
  numCreated :: nat
  clock :: "nat \<Rightarrow> int"
  reads :: nat
  timerfd :: "(int \<times> int) option"      \<comment> \<open>the last \<^verbatim>\<open>it_value\<close>, until the timer fires\<close>
  armedFor :: "int option"              \<comment> \<open>the expiration it was computed from\<close>
  callingExpiredTimers :: bool
  timers :: "entry list"
  activeTimers :: "active_timer set"
  cancelingTimers :: "active_timer set"
  fired :: "tptr list"                  \<comment> \<open>the timers whose callback has run, in order\<close>

definition now :: "timer_queue \<Rightarrow> int \<times> timer_queue" where
  "now q = (clock q (reads q), q\<lparr>reads := Suc (reads q)\<rparr>)"

definition the_timer :: "timer_queue \<Rightarrow> tptr \<Rightarrow> timer" where
  "the_timer q p = the (heap q p)"

section \<open>Operations\<close>

definition mkTimer :: "tq_call list \<Rightarrow> int \<Rightarrow> rat \<Rightarrow> timer_queue \<Rightarrow> tptr \<times> timer_queue" where
  "mkTimer cb expir iv q =
     (let p = alloc q (numCreated q);
          t = \<lparr>callback = cb, expiration = expir, interval = iv, repeats = (iv > 0),
               sequence = int (numCreated q)\<rparr>
      in (p, q\<lparr>heap := (heap q)(p := Some t), numCreated := Suc (numCreated q)\<rparr>))"

definition restart :: "int \<Rightarrow> timer \<Rightarrow> timer" where
  "restart tnow t =
     t\<lparr>expiration := (if repeats t then addTime tnow (interval t) else 0)\<rparr>"

definition resetTimerfd :: "int \<Rightarrow> timer_queue \<Rightarrow> timer_queue" where
  "resetTimerfd expir q =
     (let (t, q) = now q
      in q\<lparr>timerfd := Some (howMuchTimeFromNow expir t), armedFor := Some expir\<rparr>)"

definition readTimerfd :: "timer_queue \<Rightarrow> timer_queue" where
  "readTimerfd q = q\<lparr>timerfd := None, armedFor := None\<rparr>"

definition insert_timer :: "tptr \<Rightarrow> timer_queue \<Rightarrow> bool \<times> timer_queue" where
  "insert_timer p q =
     (let expir = expiration (the_timer q p);
          earliestChanged = (timers q = [] \<or> expir < fst (hd (timers q)))
      in (earliestChanged,
          q\<lparr>timers := insort_insert (expir, p) (timers q),
            activeTimers := insert (p, sequence (the_timer q p)) (activeTimers q)\<rparr>))"

definition addTimerInLoop :: "tptr \<Rightarrow> timer_queue \<Rightarrow> timer_queue" where
  "addTimerInLoop p q =
     (let (earliestChanged, q) = insert_timer p q
      in if earliestChanged then resetTimerfd (expiration (the_timer q p)) q else q)"

definition addTimer :: "tq_call list \<Rightarrow> int \<Rightarrow> rat \<Rightarrow> timer_queue \<Rightarrow> active_timer \<times> timer_queue" where
  "addTimer cb expir iv q =
     (let (p, q) = mkTimer cb expir iv q; q = addTimerInLoop p q
      in ((p, sequence (the_timer q p)), q))"

definition cancelInLoop :: "active_timer \<Rightarrow> timer_queue \<Rightarrow> timer_queue" where
  "cancelInLoop a q =
     (if a \<in> activeTimers q
      then q\<lparr>timers := remove1 (expiration (the_timer q (fst a)), fst a) (timers q),
             activeTimers := activeTimers q - {a}\<rparr>
      else if callingExpiredTimers q
      then q\<lparr>cancelingTimers := insert a (cancelingTimers q)\<rparr>
      else q)"

definition getExpired :: "int \<Rightarrow> timer_queue \<Rightarrow> entry list \<times> timer_queue" where
  "getExpired tnow q =
     (let sentry = (tnow, 0);
          expired = takeWhile (\<lambda>e. e \<le> sentry) (timers q)
      in (expired,
          q\<lparr>timers := dropWhile (\<lambda>e. e \<le> sentry) (timers q),
            activeTimers := activeTimers q -
              set (map (\<lambda>e. (snd e, sequence (the_timer q (snd e)))) expired)\<rparr>))"

fun run_call :: "tq_call \<Rightarrow> timer_queue \<Rightarrow> timer_queue" where
  "run_call (CallAdd cb expir iv) q = snd (addTimer cb expir iv q)"
| "run_call (CallCancel p s) q = cancelInLoop (p, s) q"

definition run_timer :: "entry \<Rightarrow> timer_queue \<Rightarrow> timer_queue" where
  "run_timer e q =
     fold run_call (callback (the_timer q (snd e))) (q\<lparr>fired := fired q @ [snd e]\<rparr>)"

definition reset_one :: "int \<Rightarrow> entry \<Rightarrow> timer_queue \<Rightarrow> timer_queue" where
  "reset_one tnow e q =
     (let p = snd e; t = the_timer q p in
      if repeats t \<and> (p, sequence t) \<notin> cancelingTimers q
      then snd (insert_timer p (q\<lparr>heap := (heap q)(p := Some (restart tnow t))\<rparr>))
      else q)"

definition reset :: "entry list \<Rightarrow> int \<Rightarrow> timer_queue \<Rightarrow> timer_queue" where
  "reset expired tnow q =
     (let q = fold (reset_one tnow) expired q;
          nextExpire = (if timers q = [] then 0
                        else expiration (the_timer q (snd (hd (timers q)))))
      in if timestamp_valid nextExpire then resetTimerfd nextExpire q else q)"

definition handleRead :: "timer_queue \<Rightarrow> timer_queue" where
  "handleRead q =
     (let q = readTimerfd q;
          (tnow, q) = now q;
          (expired, q) = getExpired tnow q;
          q = q\<lparr>callingExpiredTimers := True, cancelingTimers := {}\<rparr>;
          q = fold run_timer expired q;
          q = q\<lparr>callingExpiredTimers := False\<rparr>
      in reset expired tnow q)"

definition runEvery :: "rat \<Rightarrow> tq_call list \<Rightarrow> timer_queue \<Rightarrow> active_timer \<times> timer_queue" where
  "runEvery iv cb q = (let (t, q) = now q in addTimer cb (addTime t iv) iv q)"

section \<open>Well-formed queues\<close>

definition timers_wf :: "timer_queue \<Rightarrow> bool" where
  "timers_wf q \<longleftrightarrow>
     sorted (timers q) \<and> distinct (timers q) \<and>
     inj (alloc q) \<and> (\<forall>n. alloc q n \<noteq> 0) \<and>
     (\<forall>p t. heap q p = Some t \<longrightarrow>
        (\<exists>n < numCreated q. sequence t = int n \<and> p = alloc q n)) \<and>
     (\<forall>e \<in> set (timers q). \<exists>t. heap q (snd e) = Some t \<and> expiration t = fst e) \<and>
     activeTimers q = (\<lambda>e. (snd e, sequence (the_timer q (snd e)))) ` set (timers q)"

text \<open>Timers that exist but are not queued: the expired ones while their callbacks run.\<close>

definition parked :: "tptr set \<Rightarrow> timer_queue \<Rightarrow> bool" where
  "parked ps q \<longleftrightarrow> ps \<subseteq> dom (heap q) \<and> ps \<inter> snd ` set (timers q) = {}"

lemma timers_wfD:
  assumes "timers_wf q"
  shows "sorted (timers q)" and "distinct (timers q)"
    and "heap q p = Some t \<Longrightarrow> \<exists>n < numCreated q. sequence t = int n \<and> p = alloc q n"
    and "e \<in> set (timers q) \<Longrightarrow> \<exists>t. heap q (snd e) = Some t \<and> expiration t = fst e"
    and "activeTimers q = (\<lambda>e. (snd e, sequence (the_timer q (snd e)))) ` set (timers q)"
  using assms unfolding timers_wf_def by blast+

lemma entry_eq:
  assumes "timers_wf q" and "e \<in> set (timers q)"
  shows "e = (expiration (the_timer q (snd e)), snd e)" and "heap q (snd e) = Some (the_timer q (snd e))"
  using timers_wfD(4) [OF assms] by (auto simp: the_timer_def prod_eq_iff)

lemma ptr_nonzero: "timers_wf q \<Longrightarrow> e \<in> set (timers q) \<Longrightarrow> snd e \<noteq> 0"
  using timers_wfD(3,4) unfolding timers_wf_def by metis

lemma snd_inj: "timers_wf q \<Longrightarrow> inj_on snd (set (timers q))"
  by (metis entry_eq(1) inj_onI)

lemma wf_cong:
  assumes "timers q' = timers q" "heap q' = heap q" "alloc q' = alloc q"
    "numCreated q' = numCreated q" "activeTimers q' = activeTimers q"
  shows "timers_wf q' \<longleftrightarrow> timers_wf q" and "parked ps q' \<longleftrightarrow> parked ps q"
  using assms by (auto simp: timers_wf_def parked_def the_timer_def)

lemma resetTimerfd_frame [simp]:
  "timers (resetTimerfd x q) = timers q" "heap (resetTimerfd x q) = heap q"
  "alloc (resetTimerfd x q) = alloc q" "numCreated (resetTimerfd x q) = numCreated q"
  "activeTimers (resetTimerfd x q) = activeTimers q" "cancelingTimers (resetTimerfd x q) = cancelingTimers q"
  "callingExpiredTimers (resetTimerfd x q) = callingExpiredTimers q" "fired (resetTimerfd x q) = fired q"
  "armedFor (resetTimerfd x q) = Some x"
  by (simp_all add: resetTimerfd_def now_def)

lemma resetTimerfd_wf [simp]:
  "timers_wf (resetTimerfd x q) \<longleftrightarrow> timers_wf q" "parked ps (resetTimerfd x q) \<longleftrightarrow> parked ps q"
  by (rule wf_cong; simp)+

lemma insert_timer_frame [simp]:
  "heap (snd (insert_timer p q)) = heap q" "alloc (snd (insert_timer p q)) = alloc q"
  "numCreated (snd (insert_timer p q)) = numCreated q" "cancelingTimers (snd (insert_timer p q)) = cancelingTimers q"
  "callingExpiredTimers (snd (insert_timer p q)) = callingExpiredTimers q"
  "fired (snd (insert_timer p q)) = fired q" "armedFor (snd (insert_timer p q)) = armedFor q"
  by (simp_all add: insert_timer_def Let_def)

lemma set_insert_timer:
  "heap q p = Some t \<Longrightarrow>
     set (timers (snd (insert_timer p q))) = insert (expiration t, p) (set (timers q))"
  by (simp add: insert_timer_def Let_def the_timer_def set_insort_insert)

lemma insert_timer_wf:
  assumes "timers_wf q" and "heap q p = Some t"
  shows "timers_wf (snd (insert_timer p q))"
  using assms
  by (auto simp: timers_wf_def insert_timer_def Let_def the_timer_def set_insort_insert
      sorted_insort_insert distinct_insort_insert)

lemma addTimerInLoop_eq:
  "addTimerInLoop p q =
     (let q1 = snd (insert_timer p q) in
      if fst (insert_timer p q) then resetTimerfd (expiration (the_timer q p)) q1 else q1)"
  by (simp add: addTimerInLoop_def the_timer_def case_prod_unfold Let_def)

lemma addTimerInLoop_frame [simp]:
  "heap (addTimerInLoop p q) = heap q" "alloc (addTimerInLoop p q) = alloc q"
  "numCreated (addTimerInLoop p q) = numCreated q" "cancelingTimers (addTimerInLoop p q) = cancelingTimers q"
  "callingExpiredTimers (addTimerInLoop p q) = callingExpiredTimers q" "fired (addTimerInLoop p q) = fired q"
  "timers (addTimerInLoop p q) = timers (snd (insert_timer p q))"
  by (simp_all add: addTimerInLoop_eq Let_def)

lemma addTimerInLoop_wf:
  "timers_wf q \<Longrightarrow> heap q p = Some t \<Longrightarrow> timers_wf (addTimerInLoop p q)"
  using insert_timer_wf by (auto simp: addTimerInLoop_eq Let_def)

lemma mkTimer_fresh: "timers_wf q \<Longrightarrow> heap q (alloc q (numCreated q)) = None"
proof (rule ccontr)
  assume wf: "timers_wf q" and "heap q (alloc q (numCreated q)) \<noteq> None"
  then obtain t where "heap q (alloc q (numCreated q)) = Some t" by blast
  then obtain n where "n < numCreated q" "alloc q (numCreated q) = alloc q n"
    using timers_wfD(3) [OF wf] by blast
  then show False using wf unfolding timers_wf_def by (metis injD less_irrefl)
qed

lemma mkTimer_wf:
  assumes wf: "timers_wf q" and "mkTimer cb w iv q = (p, q')"
  shows "timers_wf q'" and "heap q' p = Some \<lparr>callback = cb, expiration = w, interval = iv,
      repeats = (iv > 0), sequence = int (numCreated q)\<rparr>"
    and "timers q' = timers q" and "heap q p = None" and "dom (heap q') = insert p (dom (heap q))"
    and "\<And>r. r \<noteq> p \<Longrightarrow> heap q' r = heap q r"
proof -
  have q': "p = alloc q (numCreated q)" "q' = q\<lparr>heap := (heap q)(p := Some \<lparr>callback = cb,
      expiration = w, interval = iv, repeats = (iv > 0), sequence = int (numCreated q)\<rparr>),
      numCreated := Suc (numCreated q)\<rparr>"
    using assms(2) by (auto simp: mkTimer_def Let_def)
  show fresh: "heap q p = None" using mkTimer_fresh [OF wf] q'(1) by simp
  have "e \<in> set (timers q) \<Longrightarrow> snd e \<noteq> p" for e
    using timers_wfD(4) [OF wf] fresh by fastforce
  then show "timers_wf q'"
    using wf q' unfolding timers_wf_def by (auto simp: the_timer_def) (metis less_SucI)
  show "heap q' p = Some \<lparr>callback = cb, expiration = w, interval = iv,
      repeats = (iv > 0), sequence = int (numCreated q)\<rparr>"
    and "timers q' = timers q" and "dom (heap q') = insert p (dom (heap q))"
    and "\<And>r. r \<noteq> p \<Longrightarrow> heap q' r = heap q r"
    using q' by auto
qed

section \<open>The operations keep the queue well formed\<close>

lemma addTimer_wf:
  assumes wf: "timers_wf q"
  shows "timers_wf (snd (addTimer cb w iv q))"
    and "parked ps q \<Longrightarrow> parked ps (snd (addTimer cb w iv q))"
    and "r \<in> dom (heap q) \<Longrightarrow> heap (snd (addTimer cb w iv q)) r = heap q r"
proof -
  obtain p q1 where mk: "mkTimer cb w iv q = (p, q1)" by fastforce
  note m = mkTimer_wf [OF wf mk]
  have q': "snd (addTimer cb w iv q) = addTimerInLoop p q1"
    by (simp add: addTimer_def mk Let_def)
  show "timers_wf (snd (addTimer cb w iv q))"
    unfolding q' by (rule addTimerInLoop_wf [OF m(1,2)])
  show "r \<in> dom (heap q) \<Longrightarrow> heap (snd (addTimer cb w iv q)) r = heap q r"
    unfolding q' using m(4) m(6) [of r] by (cases "r = p") auto
  show "parked ps (snd (addTimer cb w iv q))" if "parked ps q"
    unfolding q' using that m(2,3,4,5) by (auto simp: parked_def set_insert_timer)
qed

lemma cancelInLoop_wf:
  assumes wf: "timers_wf q"
  shows "timers_wf (cancelInLoop a q)"
    and "parked ps q \<Longrightarrow> parked ps (cancelInLoop a q)"
    and "heap (cancelInLoop a q) = heap q"
proof -
  show "heap (cancelInLoop a q) = heap q" by (simp add: cancelInLoop_def)
  have sub: "set (timers (cancelInLoop a q)) \<subseteq> set (timers q)"
    by (simp add: cancelInLoop_def set_remove1_subset)
  then show "parked ps q \<Longrightarrow> parked ps (cancelInLoop a q)"
    unfolding parked_def by (fastforce simp: cancelInLoop_def)
  show "timers_wf (cancelInLoop a q)"
  proof (cases "a \<in> activeTimers q")
    case False
    then show ?thesis by (simp add: cancelInLoop_def wf_cong(1) [of _ q] wf)
  next
    case True
    let ?f = "\<lambda>e. (snd e, sequence (the_timer q (snd e)))"
    obtain e where e: "e \<in> set (timers q)" "a = ?f e"
      using True timers_wfD(5) [OF wf] by auto
    have inj: "inj_on ?f (set (timers q))"
      using snd_inj [OF wf] by (auto simp: inj_on_def)
    have c: "cancelInLoop a q = q\<lparr>timers := remove1 e (timers q), activeTimers := activeTimers q - {a}\<rparr>"
      using True e entry_eq(1) [OF wf e(1)] by (simp add: cancelInLoop_def)
    have "activeTimers q - {a} = ?f ` (set (timers q) - {e})"
      using inj e timers_wfD(5) [OF wf] by (simp add: inj_on_image_set_diff [OF inj])
    then show ?thesis
      using wf unfolding c timers_wf_def
      by (auto simp: sorted_remove1 the_timer_def set_remove1_eq)
  qed
qed

lemma run_call_wf:
  assumes "timers_wf q"
  shows "timers_wf (run_call c q)"
    and "parked ps q \<Longrightarrow> parked ps (run_call c q)"
    and "r \<in> dom (heap q) \<Longrightarrow> heap (run_call c q) r = heap q r"
  using assms by (cases c; simp add: addTimer_wf cancelInLoop_wf)+


section \<open>Expiry\<close>

lemma sorted_takeWhile_filter:
  assumes "sorted xs" and "\<forall>x \<in> set xs. \<forall>y \<in> set xs. x \<le> y \<longrightarrow> P y \<longrightarrow> P x"
  shows "takeWhile P xs = filter P xs" and "dropWhile P xs = filter (\<lambda>x. \<not> P x) xs"
proof -
  have "takeWhile P xs = filter P xs \<and> dropWhile P xs = filter (\<lambda>x. \<not> P x) xs"
    using assms
  proof (induction xs)
    case (Cons a xs)
    have "\<forall>x \<in> set xs. \<forall>y \<in> set xs. x \<le> y \<longrightarrow> P y \<longrightarrow> P x"
      using Cons.prems(2) by (meson list.set_intros(2))
    then have IH: "takeWhile P xs = filter P xs \<and> dropWhile P xs = filter (\<lambda>x. \<not> P x) xs"
      using Cons.IH Cons.prems(1) by (meson sorted_simps(2))
    show ?case
    proof (cases "P a")
      case True
      then show ?thesis using IH by simp
    next
      case False
      have "\<forall>x \<in> set xs. a \<le> x" using Cons.prems(1) by simp
      with False Cons.prems(2) have "\<forall>x \<in> set xs. \<not> P x" by (meson list.set_intros)
      with False show ?thesis by (simp add: filter_id_conv)
    qed
  qed simp
  then show "takeWhile P xs = filter P xs" and "dropWhile P xs = filter (\<lambda>x. \<not> P x) xs" by auto
qed

lemma getExpired_eq:
  assumes wf: "timers_wf q"
  shows "fst (getExpired t q) = filter (\<lambda>e. fst e < t) (timers q)"
    and "timers (snd (getExpired t q)) = filter (\<lambda>e. \<not> fst e < t) (timers q)"
proof -
  have le: "e \<le> (t, 0) \<longleftrightarrow> fst e < t" if "e \<in> set (timers q)" for e
    using ptr_nonzero [OF wf that] by (auto simp: less_eq_prod_def)
  have mono: "\<forall>x \<in> set (timers q). \<forall>y \<in> set (timers q). x \<le> y \<longrightarrow> y \<le> (t, 0) \<longrightarrow> x \<le> (t, 0)"
    using order_trans by blast
  note tw = sorted_takeWhile_filter [OF timers_wfD(1) [OF wf], of "\<lambda>e. e \<le> (t, 0)", OF mono]
  show "fst (getExpired t q) = filter (\<lambda>e. fst e < t) (timers q)"
    by (simp add: getExpired_def Let_def tw(1) le cong: filter_cong)
  show "timers (snd (getExpired t q)) = filter (\<lambda>e. \<not> fst e < t) (timers q)"
    by (simp add: getExpired_def Let_def tw(2) le cong: filter_cong)
qed

lemma getExpired_frame [simp]:
  "heap (snd (getExpired t q)) = heap q" "fired (snd (getExpired t q)) = fired q"
  "alloc (snd (getExpired t q)) = alloc q" "numCreated (snd (getExpired t q)) = numCreated q"
  by (simp_all add: getExpired_def Let_def)

lemma getExpired_wf:
  assumes wf: "timers_wf q"
  shows "timers_wf (snd (getExpired t q))"
    and "parked (snd ` set (fst (getExpired t q))) (snd (getExpired t q))"
proof -
  let ?q = "snd (getExpired t q)" and ?f = "\<lambda>e. (snd e, sequence (the_timer q (snd e)))"
  have inj: "inj_on ?f (set (timers q))"
    using snd_inj [OF wf] by (auto simp: inj_on_def)
  have "activeTimers ?q = activeTimers q - ?f ` set (fst (getExpired t q))"
    by (simp add: getExpired_def Let_def)
  also have "\<dots> = ?f ` (set (timers q) - {e \<in> set (timers q). fst e < t})"
    unfolding timers_wfD(5) [OF wf] getExpired_eq(1) [OF wf]
    by (simp add: inj_on_image_set_diff [OF inj])
  finally have "activeTimers ?q = ?f ` set (timers ?q)"
    unfolding getExpired_eq(2) [OF wf] by (simp add: set_diff_eq) metis
  then show "timers_wf ?q"
    using wf getExpired_eq(2) [OF wf, of t] unfolding timers_wf_def
    by (auto simp: the_timer_def sorted_wrt_filter)
  have "snd e \<noteq> snd e'" if "e \<in> set (timers q)" "fst e < t" "e' \<in> set (timers q)" "\<not> fst e' < t" for e e'
    using that inj_onD [OF snd_inj [OF wf]] by metis
  then show "parked (snd ` set (fst (getExpired t q))) ?q"
    unfolding parked_def getExpired_eq [OF wf] using entry_eq(2) [OF wf] by fastforce
qed

section \<open>Running the callbacks\<close>

lemma run_call_frame [simp]:
  "fired (run_call c q) = fired q" "callingExpiredTimers (run_call c q) = callingExpiredTimers q"
  by (cases c; simp add: addTimer_def mkTimer_def cancelInLoop_def Let_def)+

lemma fold_run_call_frame [simp]:
  "fired (fold run_call cs q) = fired q"
  "callingExpiredTimers (fold run_call cs q) = callingExpiredTimers q"
  by (induction cs arbitrary: q) simp_all

definition kept :: "tptr set \<Rightarrow> (tptr \<Rightarrow> timer option) \<Rightarrow> timer_queue \<Rightarrow> bool" where
  "kept ps h q \<longleftrightarrow> timers_wf q \<and> parked ps q \<and> (\<forall>r \<in> ps. heap q r = h r)"

lemma kept_run_call: "kept ps h q \<Longrightarrow> kept ps h (run_call c q)"
  unfolding kept_def using run_call_wf(1) [of q c] run_call_wf(2) [of q ps c] run_call_wf(3) [of q _ c]
  by (metis parked_def subsetD)

lemma kept_run_calls: "kept ps h q \<Longrightarrow> kept ps h (fold run_call cs q)"
  by (rule fold_invariant [where Q = "\<lambda>_. True"]) (auto intro: kept_run_call)

lemma kept_run_timer: "kept ps h q \<Longrightarrow> kept ps h (run_timer e q)"
  unfolding run_timer_def
  by (rule kept_run_calls) (simp add: kept_def wf_cong [of "q\<lparr>fired := _\<rparr>" q])

lemma kept_run_timers: "kept ps h q \<Longrightarrow> kept ps h (fold run_timer es q)"
  by (rule fold_invariant [where Q = "\<lambda>_. True"]) (auto intro: kept_run_timer)

lemma fold_run_timer_frame:
  "fired (fold run_timer es q) = fired q @ map snd es"
  "callingExpiredTimers (fold run_timer es q) = callingExpiredTimers q"
  by (induction es arbitrary: q) (simp_all add: run_timer_def)

lemma parked_not_active: "timers_wf q \<Longrightarrow> parked ps q \<Longrightarrow> p \<in> ps \<Longrightarrow> (p, s) \<notin> activeTimers q"
  by (auto simp: parked_def timers_wfD(5))

text \<open>Cancelling a timer whose callback is running is remembered until the queue is reset.\<close>

lemma canceling_run_call:
  assumes "kept ps h q" and "p \<in> ps" and "callingExpiredTimers q"
  shows "(p, s) \<in> cancelingTimers (run_call c q) \<longleftrightarrow> (p, s) \<in> cancelingTimers q \<or> c = CallCancel p s"
  using assms parked_not_active [of q ps p s]
  by (cases c) (auto simp: kept_def addTimer_def mkTimer_def cancelInLoop_def Let_def)

lemma canceling_run_calls:
  assumes "kept ps h q" and "p \<in> ps" and "callingExpiredTimers q"
  shows "(p, s) \<in> cancelingTimers (fold run_call cs q) \<longleftrightarrow>
    (p, s) \<in> cancelingTimers q \<or> CallCancel p s \<in> set cs"
  using assms by (induction cs arbitrary: q) (auto simp: canceling_run_call kept_run_call)

lemma canceling_run_timers:
  assumes "kept ps h q" and "p \<in> ps" and "callingExpiredTimers q" and "snd ` set es \<subseteq> ps"
  shows "(p, s) \<in> cancelingTimers (fold run_timer es q) \<longleftrightarrow>
    (p, s) \<in> cancelingTimers q \<or>
    (\<exists>e \<in> set es. CallCancel p s \<in> set (callback (the (h (snd e)))))"
  using assms
proof (induction es arbitrary: q)
  case (Cons e es)
  have k': "kept ps h (q\<lparr>fired := fired q @ [snd e]\<rparr>)"
    using Cons.prems(1) by (simp add: kept_def wf_cong [of "q\<lparr>fired := _\<rparr>" q])
  have cb: "callback (the_timer q (snd e)) = callback (the (h (snd e)))"
    using Cons.prems(1,4) by (simp add: kept_def the_timer_def)
  have "(p, s) \<in> cancelingTimers (run_timer e q) \<longleftrightarrow>
      (p, s) \<in> cancelingTimers q \<or> CallCancel p s \<in> set (callback (the (h (snd e))))"
    using canceling_run_calls [OF k' Cons.prems(2)] Cons.prems(3) by (simp add: run_timer_def cb)
  then show ?case
    using Cons.IH [OF kept_run_timer [OF Cons.prems(1)] Cons.prems(2)] Cons.prems(3,4)
    by (auto simp: run_timer_def)
qed simp

section \<open>Resetting the queue\<close>

definition renewed :: "int \<Rightarrow> entry set \<Rightarrow> timer_queue \<Rightarrow> entry set" where
  "renewed t es q =
     {(addTime t (interval (the_timer q p)), p) | p.
        p \<in> snd ` es \<and> repeats (the_timer q p) \<and>
        (p, sequence (the_timer q p)) \<notin> cancelingTimers q}"

lemma restart_wf:
  assumes wf: "timers_wf q" and h: "heap q p = Some x" and p: "p \<notin> snd ` set (timers q)"
  shows "timers_wf (q\<lparr>heap := (heap q)(p := Some (restart t x))\<rparr>)"
proof -
  have "sequence (restart t x) = sequence x" by (simp add: restart_def)
  moreover have "snd e \<noteq> p" if "e \<in> set (timers q)" for e using p that by blast
  ultimately show ?thesis
    using wf h unfolding timers_wf_def by (auto simp: the_timer_def)
qed

lemma reset_one_step:
  assumes wf: "timers_wf q" and pk: "parked (insert (snd e) ps) q" and new: "snd e \<notin> ps"
  shows "timers_wf (reset_one t e q)" and "parked ps (reset_one t e q)"
    and "cancelingTimers (reset_one t e q) = cancelingTimers q"
    and "\<And>r. r \<noteq> snd e \<Longrightarrow> heap (reset_one t e q) r = heap q r"
    and "set (timers (reset_one t e q)) = set (timers q) \<union> renewed t {e} q"
    and "fired (reset_one t e q) = fired q"
proof -
  let ?p = "snd e"
  obtain x where h: "heap q ?p = Some x" using pk by (auto simp: parked_def)
  then have x: "the_timer q ?p = x" by (simp add: the_timer_def)
  have p: "?p \<notin> snd ` set (timers q)" using pk by (auto simp: parked_def)
  let ?q = "q\<lparr>heap := (heap q)(?p := Some (restart t x))\<rparr>"
  have h': "heap ?q ?p = Some (restart t x)" by simp
  have "timers_wf (reset_one t e q) \<and> parked ps (reset_one t e q) \<and>
    cancelingTimers (reset_one t e q) = cancelingTimers q \<and>
    (\<forall>r. r \<noteq> ?p \<longrightarrow> heap (reset_one t e q) r = heap q r) \<and>
    set (timers (reset_one t e q)) = set (timers q) \<union> renewed t {e} q \<and>
    fired (reset_one t e q) = fired q"
  proof (cases "repeats x \<and> (?p, sequence x) \<notin> cancelingTimers q")
    case True
    then have r: "reset_one t e q = snd (insert_timer ?p ?q)"
      by (simp add: reset_one_def x Let_def)
    have "renewed t {e} q = {(expiration (restart t x), ?p)}"
      using True by (auto simp: renewed_def x restart_def)
    then show ?thesis
      unfolding r using insert_timer_wf [OF restart_wf [OF wf h p] h'] set_insert_timer [OF h'] pk new
      by (auto simp: parked_def)
  next
    case False
    then show ?thesis
      using wf pk by (auto simp: reset_one_def x Let_def renewed_def parked_def)
  qed
  then show "timers_wf (reset_one t e q)" and "parked ps (reset_one t e q)"
    and "cancelingTimers (reset_one t e q) = cancelingTimers q"
    and "\<And>r. r \<noteq> snd e \<Longrightarrow> heap (reset_one t e q) r = heap q r"
    and "set (timers (reset_one t e q)) = set (timers q) \<union> renewed t {e} q"
    and "fired (reset_one t e q) = fired q"
    by blast+
qed

lemma fold_reset_one:
  assumes "timers_wf q" and "parked (snd ` set es) q" and "distinct (map snd es)"
  shows "timers_wf (fold (reset_one t) es q) \<and>
    set (timers (fold (reset_one t) es q)) = set (timers q) \<union> renewed t (set es) q \<and>
    fired (fold (reset_one t) es q) = fired q"
  using assms
proof (induction es arbitrary: q)
  case Nil
  then show ?case by (simp add: renewed_def)
next
  case (Cons e es)
  let ?q = "reset_one t e q"
  have pre: "parked (insert (snd e) (snd ` set es)) q" "snd e \<notin> snd ` set es"
    using Cons.prems(2,3) by auto
  note st = reset_one_step [OF Cons.prems(1) pre, where t = t]
  have "renewed t (set es) ?q = renewed t (set es) q"
    using st(3,4) pre(2) unfolding renewed_def the_timer_def by (metis (no_types, lifting))
  moreover have "renewed t (set (e # es)) q = renewed t {e} q \<union> renewed t (set es) q"
    unfolding renewed_def by auto
  ultimately show ?case
    using Cons.IH [OF st(1,2)] Cons.prems(3) st(5,6) by auto
qed

lemma reset_eq:
  assumes "timers_wf q" and "parked (snd ` set es) q" and "distinct (map snd es)"
  shows "timers_wf (reset es t q)"
    and "set (timers (reset es t q)) = set (timers q) \<union> renewed t (set es) q"
    and "fired (reset es t q) = fired q"
    and "timers (reset es t q) \<noteq> [] \<Longrightarrow> 0 < fst (hd (timers (reset es t q))) \<Longrightarrow>
      armedFor (reset es t q) = Some (fst (hd (timers (reset es t q))))"
proof -
  let ?q = "fold (reset_one t) es q"
  note f = fold_reset_one [OF assms, of t]
  have tm: "timers (reset es t q) = timers ?q" by (simp add: reset_def Let_def)
  show "timers_wf (reset es t q)" "fired (reset es t q) = fired q"
    using f by (simp_all add: reset_def Let_def)
  show "set (timers (reset es t q)) = set (timers q) \<union> renewed t (set es) q"
    using f tm by simp
  show "armedFor (reset es t q) = Some (fst (hd (timers (reset es t q))))"
    if "timers (reset es t q) \<noteq> []" "0 < fst (hd (timers (reset es t q)))"
  proof -
    have "hd (timers ?q) \<in> set (timers ?q)" using that tm by simp
    then have "expiration (the_timer ?q (snd (hd (timers ?q)))) = fst (hd (timers ?q))"
      using entry_eq(1) [of ?q "hd (timers ?q)"] f by (metis fst_conv)
    with that tm show ?thesis by (simp add: reset_def Let_def timestamp_valid_def)
  qed
qed

section \<open>The whole expiry handler\<close>

definition due :: "timer_queue \<Rightarrow> entry list" where
  "due q = filter (\<lambda>e. fst e < clock q (reads q)) (timers q)"

definition cancels :: "timer_queue \<Rightarrow> tptr \<Rightarrow> bool" where
  "cancels q p \<longleftrightarrow>
     (\<exists>e \<in> set (due q). CallCancel p (sequence (the_timer q p)) \<in> set (callback (the_timer q (snd e))))"

lemma handleRead_stages:
  assumes wf: "timers_wf q"
  defines "t \<equiv> clock q (reads q)"
  obtains q1 where "handleRead q = reset (due q) t (q1\<lparr>callingExpiredTimers := False\<rparr>)"
    and "kept (snd ` set (due q)) (heap q) q1" and "fired q1 = fired q @ map snd (due q)"
    and "\<And>p. p \<in> snd ` set (due q) \<Longrightarrow>
      (p, sequence (the_timer q p)) \<in> cancelingTimers q1 \<longleftrightarrow> cancels q p"
    and "distinct (map snd (due q))"
proof -
  let ?ps = "snd ` set (due q)"
  define q0 where "q0 = q\<lparr>timerfd := None, armedFor := None, reads := Suc (reads q)\<rparr>"
  have wf0: "timers_wf q0" using wf wf_cong(1) [of q0 q] by (simp add: q0_def)
  have due: "fst (getExpired t q0) = due q"
    using getExpired_eq(1) [OF wf0] by (simp add: due_def q0_def t_def)
  define q2 where "q2 = (snd (getExpired t q0))\<lparr>callingExpiredTimers := True, cancelingTimers := {}\<rparr>"
  have k2: "kept ?ps (heap q) q2"
    using getExpired_wf [OF wf0, of t] due wf_cong [of q2 "snd (getExpired t q0)"]
    by (simp add: kept_def q2_def q0_def)
  let ?q1 = "fold run_timer (due q) q2"
  have "handleRead q = reset (due q) t (?q1\<lparr>callingExpiredTimers := False\<rparr>)"
    using due by (simp add: handleRead_def readTimerfd_def now_def Let_def case_prod_unfold q2_def
        q0_def t_def)
  moreover have "kept ?ps (heap q) ?q1" by (rule kept_run_timers [OF k2])
  moreover have "fired ?q1 = fired q @ map snd (due q)"
    by (simp add: fold_run_timer_frame q2_def q0_def)
  moreover have "(p, sequence (the_timer q p)) \<in> cancelingTimers ?q1 \<longleftrightarrow> cancels q p"
    if "p \<in> ?ps" for p
    using canceling_run_timers [OF k2 that, of "due q"]
    by (simp add: q2_def cancels_def the_timer_def)
  moreover have "distinct (map snd (due q))"
    using timers_wfD(2) [OF wf] snd_inj [OF wf]
    by (auto simp: due_def distinct_map inj_on_def)
  ultimately show thesis using that by blast
qed

lemma handleRead_wf [invs]: "timers_wf q \<Longrightarrow> timers_wf (handleRead q)"
proof -
  assume wf: "timers_wf q"
  obtain q1 where q1: "handleRead q = reset (due q) (clock q (reads q)) (q1\<lparr>callingExpiredTimers := False\<rparr>)"
    "kept (snd ` set (due q)) (heap q) q1" "distinct (map snd (due q))"
    using handleRead_stages [OF wf] by metis
  then show ?thesis
    using reset_eq(1) [of "q1\<lparr>callingExpiredTimers := False\<rparr>" "due q"]
      wf_cong [of "q1\<lparr>callingExpiredTimers := False\<rparr>" q1] by (simp add: kept_def)
qed

section \<open>Runs of the queue\<close>

datatype tq_event =
    EvAdd "tq_call list" int rat | EvEvery rat "tq_call list" | EvCancel active_timer | EvExpire

fun tq_step :: "tq_event \<Rightarrow> timer_queue \<Rightarrow> timer_queue" where
  "tq_step (EvAdd cb w iv) q = snd (addTimer cb w iv q)"
| "tq_step (EvEvery iv cb) q = snd (runEvery iv cb q)"
| "tq_step (EvCancel a) q = cancelInLoop a q"
| "tq_step EvExpire q = handleRead q"

definition init_queue :: "(nat \<Rightarrow> tptr) \<Rightarrow> (nat \<Rightarrow> int) \<Rightarrow> timer_queue" where
  "init_queue al cl =
     \<lparr>heap = Map.empty, alloc = al, numCreated = 0, clock = cl, reads = 0, timerfd = None,
      armedFor = None, callingExpiredTimers = False, timers = [], activeTimers = {},
      cancelingTimers = {}, fired = []\<rparr>"

lemma init_queue_wf: "inj al \<Longrightarrow> (\<forall>n. al n \<noteq> 0) \<Longrightarrow> timers_wf (init_queue al cl)"
  by (simp add: timers_wf_def init_queue_def)

lemma runEvery_eq:
  "snd (runEvery iv cb q) =
     snd (addTimer cb (addTime (clock q (reads q)) iv) iv (q\<lparr>reads := Suc (reads q)\<rparr>))"
  by (simp add: runEvery_def now_def)

lemma wf_reads [simp]: "timers_wf (q\<lparr>reads := n\<rparr>) \<longleftrightarrow> timers_wf q"
  by (rule wf_cong) simp_all

interpretation tq: event_machine tq_step timers_wf
proof
  fix q e assume "timers_wf q"
  then show "timers_wf (tq_step e q)"
    by (cases e) (simp_all add: addTimer_wf cancelInLoop_wf handleRead_wf runEvery_eq)
qed

section \<open>The timer descriptor is armed in time\<close>

definition armed_ok :: "timer_queue \<Rightarrow> bool" where
  "armed_ok q \<longleftrightarrow>
     (timers q \<noteq> [] \<longrightarrow> (\<exists>a. armedFor q = Some a \<and> a \<le> fst (hd (timers q))))"

lemma armed_reads [simp]: "armed_ok (q\<lparr>reads := n\<rparr>) \<longleftrightarrow> armed_ok q"
  by (simp add: armed_ok_def)

lemma hd_insort_insert:
  "sorted xs \<Longrightarrow> hd (insort_insert x xs) = (if xs = [] then x else min x (hd xs))"
  by (cases xs) (auto simp: insort_insert_key_def insort_is_Cons min_def)

lemma addTimerInLoop_armed:
  assumes wf: "timers_wf q" and h: "heap q p = Some x" and ok: "armed_ok q"
  shows "armed_ok (addTimerInLoop p q)"
proof -
  let ?w = "expiration x"
  have t: "the_timer q p = x" by (simp add: the_timer_def h)
  have tm: "timers (addTimerInLoop p q) = insort_insert (?w, p) (timers q)"
    by (simp add: insert_timer_def Let_def t)
  have hd: "hd (insort_insert (?w, p) (timers q)) =
      (if timers q = [] then (?w, p) else min (?w, p) (hd (timers q)))"
    by (rule hd_insort_insert [OF timers_wfD(1) [OF wf]])
  show ?thesis
  proof (cases "timers q = [] \<or> ?w < fst (hd (timers q))")
    case True
    then have "armedFor (addTimerInLoop p q) = Some ?w"
      by (simp add: addTimerInLoop_eq insert_timer_def Let_def t)
    moreover have "fst (hd (timers (addTimerInLoop p q))) = ?w"
      using True unfolding tm hd by (auto simp: min_def less_eq_prod_def)
    ultimately show ?thesis by (simp add: armed_ok_def)
  next
    case False
    then have a: "armedFor (addTimerInLoop p q) = armedFor q"
      by (simp add: addTimerInLoop_eq insert_timer_def Let_def t)
    have "fst (hd (timers (addTimerInLoop p q))) = fst (hd (timers q))"
      using False unfolding tm hd by (auto simp: min_def less_eq_prod_def)
    then show ?thesis using ok False a by (simp add: armed_ok_def)
  qed
qed

lemma addTimer_armed:
  assumes wf: "timers_wf q" and ok: "armed_ok q"
  shows "armed_ok (snd (addTimer cb w iv q))"
proof -
  obtain p q1 where mk: "mkTimer cb w iv q = (p, q1)" by fastforce
  note m = mkTimer_wf [OF wf mk]
  have "armedFor q1 = armedFor q" using mk by (auto simp: mkTimer_def Let_def)
  then have "armed_ok q1" using ok m(3) by (simp add: armed_ok_def)
  then show ?thesis
    using addTimerInLoop_armed [OF m(1,2)] by (simp add: addTimer_def mk Let_def)
qed

lemma cancelInLoop_armed:
  assumes wf: "timers_wf q" and ok: "armed_ok q"
  shows "armed_ok (cancelInLoop a q)"
proof -
  have sub: "set (timers (cancelInLoop a q)) \<subseteq> set (timers q)"
    by (simp add: cancelInLoop_def set_remove1_subset)
  have "fst (hd (timers q)) \<le> fst (hd (timers (cancelInLoop a q)))"
    if "timers (cancelInLoop a q) \<noteq> []"
  proof -
    have "hd (timers (cancelInLoop a q)) \<in> set (timers q)"
      using that sub by (meson hd_in_set subsetD)
    then have "hd (timers q) \<le> hd (timers (cancelInLoop a q))"
      using timers_wfD(1) [OF wf] by (cases "timers q") auto
    then show ?thesis by (auto simp: less_eq_prod_def)
  qed
  moreover have "armedFor (cancelInLoop a q) = armedFor q" by (simp add: cancelInLoop_def)
  moreover have "timers (cancelInLoop a q) \<noteq> [] \<Longrightarrow> timers q \<noteq> []" using sub by auto
  ultimately show ?thesis using ok unfolding armed_ok_def by force
qed

lemma handleRead_armed:
  assumes wf: "timers_wf q" and pos: "\<forall>e \<in> set (timers (handleRead q)). 0 < fst e"
  shows "armed_ok (handleRead q)"
proof -
  obtain q1 where q1: "handleRead q = reset (due q) (clock q (reads q)) (q1\<lparr>callingExpiredTimers := False\<rparr>)"
    "kept (snd ` set (due q)) (heap q) q1" "distinct (map snd (due q))"
    using handleRead_stages [OF wf] by metis
  then show ?thesis
    using reset_eq(4) [of "q1\<lparr>callingExpiredTimers := False\<rparr>" "due q"] pos
      wf_cong [of "q1\<lparr>callingExpiredTimers := False\<rparr>" q1] by (simp add: kept_def armed_ok_def)
qed

text \<open>Events after which every queued time lies after the epoch.\<close>

fun sane_run :: "tq_event list \<Rightarrow> timer_queue \<Rightarrow> bool" where
  "sane_run [] q = True"
| "sane_run (e # es) q =
     ((\<forall>x \<in> set (timers (tq_step e q)). 0 < fst x) \<and> sane_run es (tq_step e q))"

lemma armed_run:
  "timers_wf q \<Longrightarrow> armed_ok q \<Longrightarrow> sane_run es q \<Longrightarrow> armed_ok (fold tq_step es q)"
proof (induction es arbitrary: q)
  case (Cons e es)
  have "armed_ok (tq_step e q)"
    using Cons.prems
    by (cases e) (simp_all add: addTimer_armed cancelInLoop_armed handleRead_armed runEvery_eq)
  then show ?case
    using Cons tq.good_step by simp
qed simp

section \<open>A concrete queue\<close>

definition demo_queue :: timer_queue where
  "demo_queue = fold tq_step [EvAdd [] 3 1, EvAdd [] 20 0] (init_queue Suc (\<lambda>_. 10))"

lemma demo_queue_wf: "timers_wf demo_queue"
  unfolding demo_queue_def by (rule tq.good_run, rule init_queue_wf) auto

lemmas tq_eval = addTimer_def mkTimer_def addTimerInLoop_def insert_timer_def the_timer_def
  resetTimerfd_def now_def Let_def insort_insert_key_def init_queue_def

lemma demo_queue_eval:
  "timers demo_queue = [(3, 1), (20, 2)]" "clock demo_queue = (\<lambda>_. 10)" "fired demo_queue = []"
  "the_timer demo_queue 1 = \<lparr>callback = [], expiration = 3, interval = 1, repeats = True, sequence = 0\<rparr>"
  by (simp_all add: demo_queue_def tq_eval)

lemmas demo_simps = demo_queue_eval demo_queue_eval(4) [unfolded One_nat_def]

section \<open>Properties\<close>

text \<open>The expiry handler runs the callback of every queued timer whose time lies strictly
  before the clock's reading, once each and in order of time, and of no other timer.\<close>

theorem handleRead_fires:
  assumes "timers_wf q"
  shows "fired (handleRead q) =
    fired q @ map snd (filter (\<lambda>e. fst e < clock q (reads q)) (timers q))"
proof -
  obtain q1 where q1: "handleRead q = reset (due q) (clock q (reads q)) (q1\<lparr>callingExpiredTimers := False\<rparr>)"
    "kept (snd ` set (due q)) (heap q) q1" "fired q1 = fired q @ map snd (due q)" "distinct (map snd (due q))"
    using handleRead_stages [OF assms] by metis
  then show ?thesis
    using reset_eq(3) [of "q1\<lparr>callingExpiredTimers := False\<rparr>" "due q"]
      wf_cong [of "q1\<lparr>callingExpiredTimers := False\<rparr>" q1] by (simp add: kept_def due_def)
qed

theorem handleRead_fires_witness:
  "timers_wf demo_queue \<and> fired (handleRead demo_queue) = [1]"
  using handleRead_fires [OF demo_queue_wf] demo_queue_wf by (simp add: demo_queue_eval)

text \<open>A timer that has fired is queued again exactly when it repeats and no callback of the
  round cancelled it, and then for one interval after the reading.\<close>

theorem handleRead_requeues:
  assumes wf: "timers_wf q" and p: "p \<in> snd ` set (due q)"
  shows "(w, p) \<in> set (timers (handleRead q)) \<longleftrightarrow>
    repeats (the_timer q p) \<and> \<not> cancels q p \<and>
    w = addTime (clock q (reads q)) (interval (the_timer q p))"
proof -
  let ?t = "clock q (reads q)"
  obtain q1 where q1: "handleRead q = reset (due q) ?t (q1\<lparr>callingExpiredTimers := False\<rparr>)"
    "kept (snd ` set (due q)) (heap q) q1" "distinct (map snd (due q))"
    and c: "(p, sequence (the_timer q p)) \<in> cancelingTimers q1 \<longleftrightarrow> cancels q p"
    using handleRead_stages [OF wf] p by metis
  have same: "the_timer q1 p = the_timer q p"
    using q1(2) p by (auto simp: kept_def the_timer_def)
  have "p \<notin> snd ` set (timers q1)"
    using q1(2) p by (auto simp only: kept_def parked_def)
  then have "(w, p) \<notin> set (timers q1)" by force
  then have "(w, p) \<in> set (timers (handleRead q)) \<longleftrightarrow> (w, p) \<in> renewed ?t (set (due q)) q1"
    using reset_eq(2) [of "q1\<lparr>callingExpiredTimers := False\<rparr>" "due q" ?t] q1
      wf_cong [of "q1\<lparr>callingExpiredTimers := False\<rparr>" q1]
    by (simp add: kept_def renewed_def the_timer_def)
  then show ?thesis
    using p c same by (auto simp: renewed_def)
qed

theorem handleRead_requeues_witness:
  "1 \<in> snd ` set (due demo_queue) \<and> (1000010, 1) \<in> set (timers (handleRead demo_queue))"
proof -
  have d: "due demo_queue = [(3, 1)]" by (simp add: due_def demo_queue_eval)
  then have "\<not> cancels demo_queue 1" by (simp add: cancels_def demo_simps)
  moreover have "(1000010 :: int) = addTime 10 1" by (simp add: addTime_def trunc_def)
  ultimately show ?thesis
    using handleRead_requeues [OF demo_queue_wf, of 1 1000010] d by (simp add: demo_simps)
qed

text \<open>C28: whatever timers are added, repeated, cancelled and fired, and in any order, the time
  index and the active set of the queue describe the same timers.\<close>

theorem timer_queue_invariant:
  assumes "inj al" and "\<forall>n. al n \<noteq> 0"
  shows "timers_wf (fold tq_step es (init_queue al cl))"
  by (rule tq.good_run [OF init_queue_wf [OF assms]])

theorem timer_queue_invariant_witness:
  "inj Suc \<and> timers_wf (fold tq_step [EvAdd [CallCancel 1 0] 3 1, EvExpire, EvCancel (1, 0)]
     (init_queue Suc (\<lambda>n. int n)))"
  using timer_queue_invariant [of Suc "[EvAdd [CallCancel 1 0] 3 1, EvExpire, EvCancel (1, 0)]"
      "\<lambda>n. int n"] by simp



text \<open>The value given to \<^verbatim>\<open>timerfd_settime\<close> is a valid, non-zero \<^verbatim>\<open>timespec\<close> (a zero one would
  disarm the timer): the remaining time, at least 100 microseconds.\<close>

theorem howMuchTimeFromNow_valid:
  "let (s, ns) = howMuchTimeFromNow w t in
     0 \<le> s \<and> 0 \<le> ns \<and> ns < 1000000000 \<and> s * 1000000000 + ns = 1000 * max 100 (w - t)"
proof -
  have *: "0 \<le> u div 1000000 \<and> 0 \<le> u mod 1000000 * 1000 \<and> u mod 1000000 * 1000 < 1000000000 \<and>
    u div 1000000 * 1000000000 + u mod 1000000 * 1000 = 1000 * u" if "100 \<le> u" for u :: int
  proof -
    define d m where "d = u div 1000000" and "m = u mod 1000000"
    have "u = d * 1000000 + m" "0 \<le> m" "m < 1000000" "0 \<le> d"
      using that by (simp_all add: d_def m_def pos_imp_zdiv_nonneg_iff)
    then show ?thesis unfolding d_def [symmetric] m_def [symmetric] by linarith
  qed
  have u: "(if w - t < 100 then 100 else w - t) = max 100 (w - t)" by simp
  show ?thesis
    using * [of "max 100 (w - t)"] unfolding howMuchTimeFromNow_def Let_def u by simp
qed

end
