(* ===== verification/Poller.thy ===== *)
theory Poller
  imports Prelude
begin

text \<open>
  \<^verbatim>\<open>mymuduo/Channel\<close>, \<^verbatim>\<open>Poller\<close> and \<^verbatim>\<open>EPollPoller\<close>.  A \<^verbatim>\<open>Channel*\<close> is a number; \<^verbatim>\<open>Channel::update\<close> and
  \<^verbatim>\<open>remove\<close> go through the loop to the poller, so every channel operation acts on the pair of the
  poller and the channel.  The kernel is the poller's field \<open>epoll_ctl\<close>, an arbitrary function of
  the calls made so far; \<open>ctl_calls\<close> records those calls.  \<open>fatal\<close> is set by \<^verbatim>\<open>LOG_FATAL\<close>, which
  ends the process: nothing is claimed of a state with the flag set except that correct use never
  reaches it.
\<close>

section \<open>Channels\<close>

type_synonym u32 = "32 word"
type_synonym cptr = nat

definition EPOLLIN :: u32 where "EPOLLIN = 0x001"
definition EPOLLPRI :: u32 where "EPOLLPRI = 0x002"
definition EPOLLOUT :: u32 where "EPOLLOUT = 0x004"
definition EPOLLERR :: u32 where "EPOLLERR = 0x008"
definition EPOLLHUP :: u32 where "EPOLLHUP = 0x010"

definition kNoneEvent :: u32 where "kNoneEvent = 0"
definition kReadEvent :: u32 where "kReadEvent = EPOLLIN OR EPOLLPRI"
definition kWriteEvent :: u32 where "kWriteEvent = EPOLLOUT"

definition kNew :: int where "kNew = - 1"
definition kAdded :: int where "kAdded = 1"
definition kDeleted :: int where "kDeleted = 2"

record channel =
  fd :: int
  events :: u32
  revents :: u32
  index :: int
  tied :: bool
  readCallback :: bool        \<comment> \<open>whether the \<^verbatim>\<open>std::function\<close> is set\<close>
  writeCallback :: bool
  closeCallback :: bool
  errorCallback :: bool

definition mkChannel :: "int \<Rightarrow> channel" where
  "mkChannel f =
     \<lparr>fd = f, events = 0, revents = 0, index = - 1, tied = False, readCallback = False,
      writeCallback = False, closeCallback = False, errorCallback = False\<rparr>"

definition setReadCallback :: "channel \<Rightarrow> channel" where
  "setReadCallback ch = ch\<lparr>readCallback := True\<rparr>"

definition setWriteCallback :: "channel \<Rightarrow> channel" where
  "setWriteCallback ch = ch\<lparr>writeCallback := True\<rparr>"

definition setCloseCallback :: "channel \<Rightarrow> channel" where
  "setCloseCallback ch = ch\<lparr>closeCallback := True\<rparr>"

definition setErrorCallback :: "channel \<Rightarrow> channel" where
  "setErrorCallback ch = ch\<lparr>errorCallback := True\<rparr>"

definition tie :: "channel \<Rightarrow> channel" where
  "tie ch = ch\<lparr>tied := True\<rparr>"

definition set_revents :: "u32 \<Rightarrow> channel \<Rightarrow> channel" where
  "set_revents r ch = ch\<lparr>revents := r\<rparr>"

definition isNoneEvent :: "channel \<Rightarrow> bool" where
  "isNoneEvent ch \<longleftrightarrow> events ch = kNoneEvent"

definition isWriting :: "channel \<Rightarrow> bool" where
  "isWriting ch \<longleftrightarrow> events ch AND kWriteEvent \<noteq> 0"

definition isReading :: "channel \<Rightarrow> bool" where
  "isReading ch \<longleftrightarrow> events ch AND kReadEvent \<noteq> 0"

datatype event_cb = CbClose | CbError | CbRead | CbWrite

text \<open>The callbacks \<^verbatim>\<open>handleEventWithGuard\<close> invokes, in order.\<close>

definition handleEventWithGuard :: "channel \<Rightarrow> event_cb list" where
  "handleEventWithGuard ch =
     (if revents ch AND EPOLLHUP \<noteq> 0 \<and> revents ch AND EPOLLIN = 0
      then (if closeCallback ch then [CbClose] else []) else []) @
     (if revents ch AND EPOLLERR \<noteq> 0
      then (if errorCallback ch then [CbError] else []) else []) @
     (if revents ch AND (EPOLLIN OR EPOLLPRI) \<noteq> 0
      then (if readCallback ch then [CbRead] else []) else []) @
     (if revents ch AND EPOLLOUT \<noteq> 0
      then (if writeCallback ch then [CbWrite] else []) else [])"

text \<open>\<open>alive\<close>: whether the object the channel is tied to still exists (\<^verbatim>\<open>tie_.lock()\<close>).\<close>

definition handleEvent :: "bool \<Rightarrow> channel \<Rightarrow> event_cb list" where
  "handleEvent alive ch =
     (if tied ch then (if alive then handleEventWithGuard ch else [])
      else handleEventWithGuard ch)"

section \<open>The epoll poller\<close>

datatype ctl_op = CTL_ADD | CTL_DEL | CTL_MOD

record ctl_call =
  ctl_op :: ctl_op
  ctl_fd :: int
  ctl_events :: u32
  ctl_ptr :: cptr

record epoll =
  channels :: "int \<Rightarrow> cptr option"
  epoll_ctl :: "ctl_call list \<Rightarrow> ctl_call \<Rightarrow> bool"
  ctl_calls :: "ctl_call list"
  eventListSize :: nat
  fatal :: bool

definition kInitEventListSize :: nat where "kInitEventListSize = 16"

definition mkEPollPoller :: "(ctl_call list \<Rightarrow> ctl_call \<Rightarrow> bool) \<Rightarrow> epoll" where
  "mkEPollPoller kern =
     \<lparr>channels = Map.empty, epoll_ctl = kern, ctl_calls = [],
      eventListSize = kInitEventListSize, fatal = False\<rparr>"

text \<open>\<^verbatim>\<open>newDefaultPoller\<close> has no other poller to offer when the environment asks for one.\<close>

definition newDefaultPoller :: "bool \<Rightarrow> (ctl_call list \<Rightarrow> ctl_call \<Rightarrow> bool) \<Rightarrow> epoll option" where
  "newDefaultPoller muduo_use_poll kern = (if muduo_use_poll then None else Some (mkEPollPoller kern))"

definition hasChannel :: "cptr \<Rightarrow> epoll \<Rightarrow> channel \<Rightarrow> bool" where
  "hasChannel p ep ch \<longleftrightarrow> channels ep (fd ch) = Some p"

definition update :: "ctl_op \<Rightarrow> cptr \<Rightarrow> epoll \<Rightarrow> channel \<Rightarrow> epoll" where
  "update oper p ep ch =
     (let call = \<lparr>ctl_op = oper, ctl_fd = fd ch, ctl_events = events ch, ctl_ptr = p\<rparr>;
          ok = epoll_ctl ep (ctl_calls ep) call
      in ep\<lparr>ctl_calls := ctl_calls ep @ [call],
            fatal := (fatal ep \<or> \<not> ok \<and> oper \<noteq> CTL_DEL)\<rparr>)"

definition updateChannel :: "cptr \<Rightarrow> epoll \<times> channel \<Rightarrow> epoll \<times> channel" where
  "updateChannel p = (\<lambda>(ep, ch).
     (if index ch = kNew \<or> index ch = kDeleted then
        (let ep = (if index ch = kNew then ep\<lparr>channels := (channels ep)(fd ch \<mapsto> p)\<rparr> else ep);
             ch = ch\<lparr>index := kAdded\<rparr>
         in (update CTL_ADD p ep ch, ch))
      else if isNoneEvent ch then (update CTL_DEL p ep ch, ch\<lparr>index := kDeleted\<rparr>)
      else (update CTL_MOD p ep ch, ch)))"

definition removeChannel :: "cptr \<Rightarrow> epoll \<times> channel \<Rightarrow> epoll \<times> channel" where
  "removeChannel p = (\<lambda>(ep, ch).
     (let ep = ep\<lparr>channels := (channels ep)(fd ch := None)\<rparr>;
          ep = (if index ch = kAdded then update CTL_DEL p ep ch else ep)
      in (ep, ch\<lparr>index := kNew\<rparr>)))"

definition enableReading :: "cptr \<Rightarrow> epoll \<times> channel \<Rightarrow> epoll \<times> channel" where
  "enableReading p = (\<lambda>(ep, ch). updateChannel p (ep, ch\<lparr>events := events ch OR kReadEvent\<rparr>))"

definition disableReading :: "cptr \<Rightarrow> epoll \<times> channel \<Rightarrow> epoll \<times> channel" where
  "disableReading p = (\<lambda>(ep, ch). updateChannel p (ep, ch\<lparr>events := events ch AND NOT kReadEvent\<rparr>))"

definition enableWriting :: "cptr \<Rightarrow> epoll \<times> channel \<Rightarrow> epoll \<times> channel" where
  "enableWriting p = (\<lambda>(ep, ch). updateChannel p (ep, ch\<lparr>events := events ch OR kWriteEvent\<rparr>))"

definition disableWriting :: "cptr \<Rightarrow> epoll \<times> channel \<Rightarrow> epoll \<times> channel" where
  "disableWriting p = (\<lambda>(ep, ch). updateChannel p (ep, ch\<lparr>events := events ch AND NOT kWriteEvent\<rparr>))"

definition disableAll :: "cptr \<Rightarrow> epoll \<times> channel \<Rightarrow> epoll \<times> channel" where
  "disableAll p = (\<lambda>(ep, ch). updateChannel p (ep, ch\<lparr>events := kNoneEvent\<rparr>))"

text \<open>
  \<^verbatim>\<open>poll\<close>: the kernel reports at most \<open>eventListSize\<close> ready channels; each gets its \<^verbatim>\<open>revents_\<close> and is
  appended to the active list.  A full report doubles the list.
\<close>

definition fillActiveChannels ::
  "(cptr \<times> u32) list \<Rightarrow> (cptr \<Rightarrow> channel) \<Rightarrow> cptr list \<Rightarrow> (cptr \<Rightarrow> channel) \<times> cptr list" where
  "fillActiveChannels evs chs active =
     fold (\<lambda>(p, r) (chs, active). (chs(p := set_revents r (chs p)), active @ [p])) evs (chs, active)"

datatype poll_result = PollError int | PollEvents "(cptr \<times> u32) list"

definition poll ::
  "poll_result \<Rightarrow> epoll \<Rightarrow> (cptr \<Rightarrow> channel) \<Rightarrow> cptr list \<Rightarrow> epoll \<times> (cptr \<Rightarrow> channel) \<times> cptr list" where
  "poll res ep chs active =
     (case res of
        PollError _ \<Rightarrow> (ep, chs, active)
      | PollEvents evs \<Rightarrow>
          if evs = [] then (ep, chs, active)
          else (if length evs = eventListSize ep then ep\<lparr>eventListSize := eventListSize ep * 2\<rparr> else ep,
                fillActiveChannels evs chs active))"

section \<open>Event masks\<close>

lemma and_bit: "(w :: u32) AND 2 ^ n \<noteq> 0 \<longleftrightarrow> bit w n"
  by (simp add: and_exp_eq_0_iff_not_bit)

lemma isWriting_bit: "isWriting ch \<longleftrightarrow> bit (events ch) 2"
  using and_bit [of "events ch" 2] by (simp add: isWriting_def kWriteEvent_def EPOLLOUT_def)

lemma bit_kWriteEvent: "bit kWriteEvent n \<longleftrightarrow> n = 2"
proof -
  have eq: "kWriteEvent = 2 ^ 2" by (simp add: kWriteEvent_def EPOLLOUT_def)
  show ?thesis unfolding eq bit_exp_iff by auto
qed

lemma bit_kReadEvent: "bit kReadEvent n \<longleftrightarrow> n = 0 \<or> n = 1"
proof -
  have eq: "kReadEvent = 2 ^ 0 OR 2 ^ 1" by (simp add: kReadEvent_def EPOLLIN_def EPOLLPRI_def)
  show ?thesis unfolding eq bit_or_iff bit_exp_iff by auto
qed

lemma updateChannel_channel [simp]:
  "fd (snd (updateChannel p s)) = fd (snd s)" "events (snd (updateChannel p s)) = events (snd s)"
  "tied (snd (updateChannel p s)) = tied (snd s)" "revents (snd (updateChannel p s)) = revents (snd s)"
  by (cases s; simp add: updateChannel_def Let_def)+

lemma isWriting_ops [simp]:
  "isWriting (snd (enableWriting p s))"
  "\<not> isWriting (snd (disableWriting p s))"
  "\<not> isWriting (snd (disableAll p s))"
  "isWriting (snd (enableReading p s)) \<longleftrightarrow> isWriting (snd s)"
  "isWriting (snd (disableReading p s)) \<longleftrightarrow> isWriting (snd s)"
  "isWriting (snd (removeChannel p s)) \<longleftrightarrow> isWriting (snd s)"
  by (cases s; simp add: isWriting_bit enableWriting_def disableWriting_def disableAll_def
      enableReading_def disableReading_def removeChannel_def Let_def bit_or_iff bit_and_iff
      bit_not_iff bit_kWriteEvent bit_kReadEvent kNoneEvent_def)+

section \<open>The kernel's interest list\<close>

text \<open>What \<^verbatim>\<open>epoll_ctl(2)\<close> documents: the interest list the calls build up, and the calls that succeed.\<close>

definition apply_ctl :: "ctl_call \<Rightarrow> (int \<Rightarrow> (u32 \<times> cptr) option) \<Rightarrow> int \<Rightarrow> (u32 \<times> cptr) option" where
  "apply_ctl c m =
     (case ctl_op c of
        CTL_DEL \<Rightarrow> m(ctl_fd c := None)
      | _ \<Rightarrow> m(ctl_fd c \<mapsto> (ctl_events c, ctl_ptr c)))"

definition interest :: "ctl_call list \<Rightarrow> int \<Rightarrow> (u32 \<times> cptr) option" where
  "interest calls = fold apply_ctl calls Map.empty"

definition legal_call :: "(int \<Rightarrow> (u32 \<times> cptr) option) \<Rightarrow> ctl_call \<Rightarrow> bool" where
  "legal_call m c = (case ctl_op c of CTL_ADD \<Rightarrow> m (ctl_fd c) = None | _ \<Rightarrow> m (ctl_fd c) \<noteq> None)"

definition epoll_ctl_spec :: "(ctl_call list \<Rightarrow> ctl_call \<Rightarrow> bool) \<Rightarrow> bool" where
  "epoll_ctl_spec kern \<longleftrightarrow> (\<forall>hist c. legal_call (interest hist) c \<longrightarrow> kern hist c)"

lemma interest_snoc [simp]: "interest (cs @ [c]) = apply_ctl c (interest cs)"
  by (simp add: interest_def)

section \<open>Many channels on one poller\<close>

datatype chan_op = OpEnableReading | OpDisableReading | OpEnableWriting | OpDisableWriting
  | OpDisableAll | OpRemove

fun chan_op_fun :: "chan_op \<Rightarrow> cptr \<Rightarrow> epoll \<times> channel \<Rightarrow> epoll \<times> channel" where
  "chan_op_fun OpEnableReading = enableReading"
| "chan_op_fun OpDisableReading = disableReading"
| "chan_op_fun OpEnableWriting = enableWriting"
| "chan_op_fun OpDisableWriting = disableWriting"
| "chan_op_fun OpDisableAll = disableAll"
| "chan_op_fun OpRemove = removeChannel"

type_synonym poller_state = "epoll \<times> (cptr \<Rightarrow> channel)"

definition poller_step :: "chan_op \<Rightarrow> cptr \<Rightarrow> poller_state \<Rightarrow> poller_state" where
  "poller_step oper p s =
     (let (ep, ch) = chan_op_fun oper p (fst s, snd s p) in (ep, (snd s)(p := ch)))"

text \<open>A channel that is not registered must not share its descriptor with one that is.\<close>

definition admissible :: "cptr \<Rightarrow> poller_state \<Rightarrow> bool" where
  "admissible p s \<longleftrightarrow> (index (snd s p) = kNew \<longrightarrow> channels (fst s) (fd (snd s p)) = None)"

inductive poller_reach :: "poller_state \<Rightarrow> poller_state \<Rightarrow> bool" for s0 where
  poller_start: "poller_reach s0 s0"
| poller_next: "poller_reach s0 s \<Longrightarrow> admissible p s \<Longrightarrow> poller_reach s0 (poller_step oper p s)"

definition poller_inv :: "poller_state \<Rightarrow> bool" where
  "poller_inv s \<longleftrightarrow>
     (\<forall>p. index (snd s p) \<in> {kNew, kAdded, kDeleted}) \<and>
     (\<forall>p. index (snd s p) \<noteq> kNew \<longleftrightarrow> channels (fst s) (fd (snd s p)) = Some p) \<and>
     (\<forall>f p. channels (fst s) f = Some p \<longrightarrow> fd (snd s p) = f) \<and>
     (\<forall>f. interest (ctl_calls (fst s)) f =
        (case channels (fst s) f of
           None \<Rightarrow> None
         | Some p \<Rightarrow> if index (snd s p) = kAdded then Some (events (snd s p), p) else None)) \<and>
     epoll_ctl_spec (epoll_ctl (fst s)) \<and> \<not> fatal (fst s)"

lemmas index_consts = kNew_def kAdded_def kDeleted_def

lemma update_fatal:
  assumes "epoll_ctl_spec (epoll_ctl ep)" and "\<not> fatal ep"
    and "legal_call (interest (ctl_calls ep)) \<lparr>ctl_op = oper, ctl_fd = fd ch, ctl_events = events ch, ctl_ptr = p\<rparr>"
  shows "\<not> fatal (update oper p ep ch)"
  using assms by (auto simp: update_def Let_def epoll_ctl_spec_def)

lemma update_frame [simp]:
  "channels (update oper p ep ch) = channels ep" "epoll_ctl (update oper p ep ch) = epoll_ctl ep"
  "eventListSize (update oper p ep ch) = eventListSize ep"
  "interest (ctl_calls (update oper p ep ch)) =
     apply_ctl \<lparr>ctl_op = oper, ctl_fd = fd ch, ctl_events = events ch, ctl_ptr = p\<rparr> (interest (ctl_calls ep))"
  by (simp_all add: update_def Let_def)

text \<open>A new channel that is enabled for reading is known to the poller and to the kernel.\<close>

lemma enableReading_new:
  assumes "epoll_ctl_spec (epoll_ctl ep)" and "\<not> fatal ep" and "index ch = kNew"
    and "interest (ctl_calls ep) (fd ch) = None"
  shows "\<not> fatal (fst (enableReading p (ep, ch)))"
    and "channels (fst (enableReading p (ep, ch))) = (channels ep)(fd ch \<mapsto> p)"
    and "interest (ctl_calls (fst (enableReading p (ep, ch)))) =
      (interest (ctl_calls ep))(fd ch \<mapsto> (events ch OR kReadEvent, p))"
    and "epoll_ctl (fst (enableReading p (ep, ch))) = epoll_ctl ep"
    and "snd (enableReading p (ep, ch)) = ch\<lparr>events := events ch OR kReadEvent, index := kAdded\<rparr>"
  using assms update_fatal [of "ep\<lparr>channels := (channels ep)(fd ch \<mapsto> p)\<rparr>" CTL_ADD
      "ch\<lparr>events := events ch OR kReadEvent, index := kAdded\<rparr>" p]
  by (simp_all add: enableReading_def updateChannel_def Let_def legal_call_def apply_ctl_def)

lemma poller_invD:
  assumes "poller_inv (ep, chs)"
  shows "index (chs p) = kNew \<or> index (chs p) = kAdded \<or> index (chs p) = kDeleted"
    and "index (chs p) \<noteq> kNew \<longleftrightarrow> channels ep (fd (chs p)) = Some p"
    and "channels ep f = Some p \<Longrightarrow> fd (chs p) = f"
    and "interest (ctl_calls ep) f = (case channels ep f of None \<Rightarrow> None
         | Some p \<Rightarrow> if index (chs p) = kAdded then Some (events (chs p), p) else None)"
    and "epoll_ctl_spec (epoll_ctl ep)" and "\<not> fatal ep"
  using assms unfolding poller_inv_def fst_conv snd_conv by blast+

lemma registered_or_none:
  assumes "poller_inv (ep, chs)" and "admissible p (ep, chs)"
  shows "channels ep (fd (chs p)) = None \<or> channels ep (fd (chs p)) = Some p"
  using assms poller_invD(2) [OF assms(1), of p] by (auto simp: admissible_def)

text \<open>One channel's entries in the poller and in the kernel change together.\<close>

lemma poller_inv_update:
  assumes inv: "poller_inv (ep, chs)" and adm: "admissible p (ep, chs)"
    and f: "fd ch' = fd (chs p)" and i: "index ch' = kNew \<or> index ch' = kAdded \<or> index ch' = kDeleted"
    and c: "channels ep' = (channels ep)(fd (chs p) := (if index ch' = kNew then None else Some p))"
    and n: "interest (ctl_calls ep') = (interest (ctl_calls ep))(fd (chs p) :=
        (if index ch' = kAdded then Some (events ch', p) else None))"
    and k: "epoll_ctl ep' = epoll_ctl ep" and nf: "\<not> fatal ep'"
  shows "poller_inv (ep', chs(p := ch'))"
proof -
  note D = poller_invD [OF inv] and R = registered_or_none [OF inv adm]
  have others: "channels ep' (fd (chs q)) = Some q \<longleftrightarrow> channels ep (fd (chs q)) = Some q"
    if "q \<noteq> p" for q
    using that R by (auto simp: c)
  have "index ((chs(p := ch')) q) \<noteq> kNew \<longleftrightarrow> channels ep' (fd ((chs(p := ch')) q)) = Some q" for q
    using D(2) [of q] others [of q] by (cases "q = p") (auto simp: c f)
  moreover have "channels ep' g = Some q \<longrightarrow> fd ((chs(p := ch')) q) = g" for g q
    using D(3) [of g q] by (auto simp: c f split: if_splits)
  moreover have "interest (ctl_calls ep') g = (case channels ep' g of None \<Rightarrow> None
      | Some q \<Rightarrow> if index ((chs(p := ch')) q) = kAdded then Some (events ((chs(p := ch')) q), q) else None)" for g
  proof (cases "g = fd (chs p)")
    case True
    then show ?thesis by (auto simp: n c index_consts)
  next
    case False
    then have "channels ep' g = channels ep g" and "channels ep g \<noteq> Some p"
      using D(3) [of g p] by (auto simp: c)
    then show ?thesis using False D(4) [of g] by (auto simp: n split: option.split)
  qed
  moreover have "index ((chs(p := ch')) q) \<in> {kNew, kAdded, kDeleted}" for q
    using D(1) [of q] i by auto
  ultimately show ?thesis
    unfolding poller_inv_def fst_conv snd_conv using D(5) k nf by simp
qed

lemma updateChannel_inv:
  assumes inv: "poller_inv (ep, chs)" and adm: "admissible p (ep, chs)"
    and ch: "fd ch = fd (chs p)" "index ch = index (chs p)"
  shows "poller_inv (fst (updateChannel p (ep, ch)), chs(p := snd (updateChannel p (ep, ch))))"
proof -
  note D = poller_invD [OF inv] and R = registered_or_none [OF inv adm]
  have int: "interest (ctl_calls ep) (fd (chs p)) =
      (if index (chs p) = kAdded then Some (events (chs p), p) else None)"
    using D(4) [of "fd (chs p)"] D(2) [of p] R by (auto simp: index_consts)
  have reg: "index (chs p) \<noteq> kNew \<Longrightarrow> channels ep (fd (chs p)) = Some p"
    using D(2) by blast
  note fatal = update_fatal [of ep _ ch p] update_fatal [of "ep\<lparr>channels := (channels ep)(fd (chs p) \<mapsto> p)\<rparr>"
      _ "ch\<lparr>index := kAdded\<rparr>" p] update_fatal [of ep _ "ch\<lparr>index := kAdded\<rparr>" p]
  show ?thesis
    using D(1) [of p] int reg D(5,6) ch fatal
    by (intro poller_inv_update [OF inv adm])
      (auto simp: updateChannel_def Let_def index_consts apply_ctl_def legal_call_def fun_upd_idem)
qed

lemma removeChannel_inv:
  assumes inv: "poller_inv (ep, chs)" and adm: "admissible p (ep, chs)"
  shows "poller_inv (fst (removeChannel p (ep, chs p)), chs(p := snd (removeChannel p (ep, chs p))))"
proof -
  note D = poller_invD [OF inv] and R = registered_or_none [OF inv adm]
  have int: "interest (ctl_calls ep) (fd (chs p)) =
      (if index (chs p) = kAdded then Some (events (chs p), p) else None)"
    using D(4) [of "fd (chs p)"] D(2) [of p] R by (auto simp: index_consts)
  show ?thesis
    using int D(5,6) update_fatal [of "ep\<lparr>channels := (channels ep)(fd (chs p) := None)\<rparr>" CTL_DEL "chs p" p]
    by (intro poller_inv_update [OF inv adm])
      (auto simp: removeChannel_def Let_def index_consts apply_ctl_def legal_call_def fun_upd_idem)
qed

lemma poller_step_inv:
  assumes "poller_inv s" and "admissible p s"
  shows "poller_inv (poller_step oper p s)"
proof -
  obtain ep chs where s: "s = (ep, chs)" by fastforce
  show ?thesis
    using assms updateChannel_inv [of ep chs p] removeChannel_inv [of ep chs p] unfolding s
    by (cases oper)
      (simp_all add: poller_step_def enableReading_def disableReading_def enableWriting_def
        disableWriting_def disableAll_def case_prod_unfold Let_def)
qed

lemma poller_reach_inv: "poller_reach s0 s \<Longrightarrow> poller_inv s0 \<Longrightarrow> poller_inv s"
  by (induction rule: poller_reach.induct) (auto intro: poller_step_inv)

lemma poller_inv_init:
  assumes "epoll_ctl_spec kern" and "\<forall>p. index (chs p) = kNew"
  shows "poller_inv (mkEPollPoller kern, chs)"
  using assms by (simp add: poller_inv_def mkEPollPoller_def interest_def)

definition put_revents :: "cptr \<times> u32 \<Rightarrow> (cptr \<Rightarrow> channel) \<Rightarrow> cptr \<Rightarrow> channel" where
  "put_revents e c = c(fst e := set_revents (snd e) (c (fst e)))"

lemma fillActiveChannels_eq:
  "fillActiveChannels evs chs active = (fold put_revents evs chs, active @ map fst evs)"
  by (induction evs arbitrary: chs active) (auto simp: fillActiveChannels_def put_revents_def)

lemma put_revents_other: "p \<notin> fst ` set es \<Longrightarrow> fold put_revents es c p = c p"
  by (induction es arbitrary: c) (auto simp: put_revents_def)

lemma fillActiveChannels_revents:
  assumes "distinct (map fst evs)" and "(p, r) \<in> set evs"
  shows "fst (fillActiveChannels evs chs active) p = set_revents r (chs p)"
proof -
  have "fold put_revents evs chs p = set_revents r (chs p)"
    using assms
  proof (induction evs arbitrary: chs)
    case (Cons e es)
    show ?case
    proof (cases "e = (p, r)")
      case True
      then have "p \<notin> fst ` set es" using Cons.prems by auto
      then show ?thesis using True by (simp add: put_revents_other) (simp add: put_revents_def)
    next
      case False
      then have mem: "(p, r) \<in> set es" using Cons.prems by auto
      have "p \<in> fst ` set es" using image_eqI [of p fst "(p, r)"] mem by simp
      then have "fst e \<noteq> p" using Cons.prems(1) by auto
      then show ?thesis using Cons.IH [of "put_revents e chs"] Cons.prems mem by (simp add: put_revents_def)
    qed
  qed simp
  then show ?thesis by (simp add: fillActiveChannels_eq)
qed

section \<open>Properties\<close>



end
