(* ===== verification/Event_Loop.thy ===== *)
theory Event_Loop
  imports Poller Timers
begin

text \<open>
  \<^verbatim>\<open>mymuduo/EventLoop\<close>, \<^verbatim>\<open>EventLoopThreadPool\<close> and \<^verbatim>\<open>CurrentThread\<close>.  A loop is a record; the thread that
  calls an operation is its argument \<open>tid\<close>.  The type \<open>'f\<close> of functors is left open: the
  connections supply it.  The \<^verbatim>\<open>eventfd\<close> is its 64-bit counter.

  The second part models the threads.  The loop thread is a program counter \<open>phase\<close> over the lines
  of \<^verbatim>\<open>EventLoop::loop\<close> and \<^verbatim>\<open>doPendingFunctors\<close>; any other thread may run \<^verbatim>\<open>queueInLoop\<close> or \<^verbatim>\<open>quit\<close>,
  and the write of shared state and the \<^verbatim>\<open>wakeup\<close> that follows it are separate steps, between which
  everything else may happen.
\<close>

section \<open>State and operations\<close>

record 'f event_loop =
  looping :: bool
  quit_flag :: bool
  threadId :: nat
  pollReturnTime :: int
  poller :: epoll
  timerQueue :: timer_queue
  wakeupCount :: nat                    \<comment> \<open>the counter behind \<^verbatim>\<open>wakeupFd_\<close>\<close>
  wakeupChannel :: channel
  callingPendingFunctors :: bool
  pendingFunctors :: "'f list"

definition eventfd_max :: nat where
  "eventfd_max = 2 ^ 64 - 2"

definition isInLoopThread :: "nat \<Rightarrow> 'f event_loop \<Rightarrow> bool" where
  "isInLoopThread tid l \<longleftrightarrow> threadId l = tid"

definition mkEventLoop ::
  "nat \<Rightarrow> epoll \<Rightarrow> timer_queue \<Rightarrow> cptr \<Rightarrow> int \<Rightarrow> 'f event_loop" where
  "mkEventLoop tid ep tq wptr wfd =
     (let (ep, ch) = enableReading wptr (ep, setReadCallback (mkChannel wfd))
      in \<lparr>looping = False, quit_flag = False, threadId = tid, pollReturnTime = 0, poller = ep,
          timerQueue = tq, wakeupCount = 0, wakeupChannel = ch, callingPendingFunctors = False,
          pendingFunctors = []\<rparr>)"

text \<open>\<^verbatim>\<open>write\<close> of 1 to the event descriptor; a full counter makes it fail, which is only logged.\<close>

definition wakeup :: "'f event_loop \<Rightarrow> 'f event_loop" where
  "wakeup l = (if wakeupCount l + 1 \<le> eventfd_max then l\<lparr>wakeupCount := wakeupCount l + 1\<rparr> else l)"

definition handleRead_wakeup :: "'f event_loop \<Rightarrow> 'f event_loop" where
  "handleRead_wakeup l = l\<lparr>wakeupCount := 0\<rparr>"

definition queueInLoop :: "nat \<Rightarrow> 'f \<Rightarrow> 'f event_loop \<Rightarrow> 'f event_loop" where
  "queueInLoop tid cb l =
     (let l = l\<lparr>pendingFunctors := pendingFunctors l @ [cb]\<rparr>
      in if \<not> isInLoopThread tid l \<or> callingPendingFunctors l then wakeup l else l)"

definition quit :: "nat \<Rightarrow> 'f event_loop \<Rightarrow> 'f event_loop" where
  "quit tid l = (let l = l\<lparr>quit_flag := True\<rparr> in if \<not> isInLoopThread tid l then wakeup l else l)"

text \<open>\<^verbatim>\<open>doPendingFunctors\<close>: up to and including the swap, and after the last functor.\<close>

definition take_functors :: "'f event_loop \<Rightarrow> 'f list \<times> 'f event_loop" where
  "take_functors l =
     (let l = l\<lparr>callingPendingFunctors := True\<rparr>
      in (pendingFunctors l, l\<lparr>pendingFunctors := []\<rparr>))"

definition end_functors :: "'f event_loop \<Rightarrow> 'f event_loop" where
  "end_functors l = l\<lparr>callingPendingFunctors := False\<rparr>"

text \<open>The destructor takes the wake-up channel out of the poller.\<close>

definition destroyEventLoop :: "cptr \<Rightarrow> 'f event_loop \<Rightarrow> 'f event_loop" where
  "destroyEventLoop wptr l =
     (let (ep, ch) = removeChannel wptr (disableAll wptr (poller l, wakeupChannel l))
      in l\<lparr>poller := ep, wakeupChannel := ch\<rparr>)"

definition runEvery_loop ::
  "rat \<Rightarrow> tq_call list \<Rightarrow> 'f event_loop \<Rightarrow> active_timer \<times> 'f event_loop" where
  "runEvery_loop ival cb l =
     (let (tid, tq) = runEvery ival cb (timerQueue l) in (tid, l\<lparr>timerQueue := tq\<rparr>))"

section \<open>The pool of loop threads\<close>

record thread_pool =
  baseLoop :: nat
  pool_name :: string
  pool_started :: bool
  numThreads :: int
  next_loop :: nat
  thread_names :: "string list"
  loops :: "nat list"

definition mkThreadPool :: "nat \<Rightarrow> string \<Rightarrow> thread_pool" where
  "mkThreadPool base nameArg =
     \<lparr>baseLoop = base, pool_name = nameArg, pool_started = False, numThreads = 0, next_loop = 0,
      thread_names = [], loops = []\<rparr>"

definition setThreadNum :: "int \<Rightarrow> thread_pool \<Rightarrow> thread_pool" where
  "setThreadNum n p = p\<lparr>numThreads := n\<rparr>"

text \<open>\<open>startLoop i\<close> is the address of the loop that the \<open>i\<close>-th new thread runs; the result's
  first part lists the loops on which the thread-initialisation callback was invoked.\<close>

definition pool_start :: "bool \<Rightarrow> (nat \<Rightarrow> nat) \<Rightarrow> thread_pool \<Rightarrow> nat list \<times> thread_pool" where
  "pool_start has_cb startLoop p =
     (let is = [0..<nat (numThreads p)];
          p' = p\<lparr>pool_started := True,
                 thread_names := thread_names p @ map (\<lambda>i. pool_name p @ nat_str i) is,
                 loops := loops p @ map startLoop is\<rparr>
      in (if has_cb then (if numThreads p = 0 then [baseLoop p] else map startLoop is) else [], p'))"

definition getNextLoop :: "thread_pool \<Rightarrow> nat \<times> thread_pool" where
  "getNextLoop p =
     (if loops p \<noteq> [] then
        (let l = loops p ! next_loop p;
             n = next_loop p + 1;
             n = (if n \<ge> length (loops p) then 0 else n)
         in (l, p\<lparr>next_loop := n\<rparr>))
      else (baseLoop p, p))"

definition getAllLoops :: "thread_pool \<Rightarrow> nat list" where
  "getAllLoops p = (if loops p = [] then [baseLoop p] else loops p)"

fun assign_loops :: "nat \<Rightarrow> thread_pool \<Rightarrow> nat list \<times> thread_pool" where
  "assign_loops 0 p = ([], p)"
| "assign_loops (Suc k) p =
     (let (l, p1) = getNextLoop p; (ls, p2) = assign_loops k p1 in (l # ls, p2))"

lemma assign_loops_aux:
  assumes "loops p \<noteq> []" and "next_loop p < length (loops p)"
  shows "fst (assign_loops k p) =
      map (\<lambda>i. loops p ! ((next_loop p + i) mod length (loops p))) [0..<k]"
  using assms
proof (induction k arbitrary: p)
  case (Suc k)
  let ?n = "length (loops p)"
  have nxt: "next_loop (snd (getNextLoop p)) = Suc (next_loop p) mod ?n"
    and lps: "loops (snd (getNextLoop p)) = loops p"
    and hd: "fst (getNextLoop p) = loops p ! (next_loop p mod ?n)"
    using Suc.prems by (auto simp: getNextLoop_def Let_def mod_Suc)
  have "fst (assign_loops (Suc k) p) =
      fst (getNextLoop p) # fst (assign_loops k (snd (getNextLoop p)))"
    by (simp add: case_prod_unfold Let_def)
  also have "\<dots> = loops p ! (next_loop p mod ?n) #
      map (\<lambda>i. loops p ! ((Suc (next_loop p) mod ?n + i) mod ?n)) [0..<k]"
    using Suc.IH [of "snd (getNextLoop p)"] Suc.prems by (simp add: nxt lps hd)
  also have "\<dots> = map (\<lambda>i. loops p ! ((next_loop p + i) mod ?n)) [0..<Suc k]"
    by (simp add: upt_conv_Cons map_Suc_upt [symmetric] mod_simps del: upt_Suc)
  finally show ?case .
qed simp

section \<open>Threads\<close>

text \<open>Where the loop thread stands: before \<^verbatim>\<open>loop()\<close> or after it; at the test of \<^verbatim>\<open>quit_\<close>; inside
  \<^verbatim>\<open>epoll_wait\<close>; handling the active channels; after \<^verbatim>\<open>callingPendingFunctors_ = true\<close>; running the
  functors that are left of the swapped vector.\<close>

datatype 'f phase = Outside | Testing | Polling | Dispatching | Calling | Running "'f list"

record 'f loop_sys =
  evl :: "'f event_loop"
  phase :: "'f phase"
  owed :: nat                  \<comment> \<open>threads that still have to execute the \<^verbatim>\<open>wakeup()\<close> of their call\<close>
  submitted :: "'f list"       \<comment> \<open>every functor queued so far, in the order of the lock\<close>
  executed :: "'f list"        \<comment> \<open>every functor called so far, in order\<close>

abbreviation push :: "'f \<Rightarrow> 'f loop_sys \<Rightarrow> 'f loop_sys" where
  "push f s \<equiv> s\<lparr>evl := (evl s)\<lparr>pendingFunctors := pendingFunctors (evl s) @ [f]\<rparr>,
                submitted := submitted s @ [f]\<rparr>"

text \<open>\<open>called\<close> is a functor or an event handler: code of the loop thread that runs inside
  \<^verbatim>\<open>loop()\<close> and may call \<^verbatim>\<open>queueInLoop\<close> and \<^verbatim>\<open>quit\<close> itself.\<close>

inductive loop_step :: "'f loop_sys \<Rightarrow> 'f loop_sys \<Rightarrow> bool" where
  start: "phase s = Outside \<Longrightarrow>
    loop_step s (s\<lparr>evl := (evl s)\<lparr>looping := True, quit_flag := False\<rparr>, phase := Testing\<rparr>)"
| leave: "phase s = Testing \<Longrightarrow> quit_flag (evl s) \<Longrightarrow>
    loop_step s (s\<lparr>evl := (evl s)\<lparr>looping := False\<rparr>, phase := Outside\<rparr>)"
| wait: "phase s = Testing \<Longrightarrow> \<not> quit_flag (evl s) \<Longrightarrow> loop_step s (s\<lparr>phase := Polling\<rparr>)"
| woken: "phase s = Polling \<Longrightarrow> wakeupCount (evl s) > 0 \<Longrightarrow>
    loop_step s (s\<lparr>evl := handleRead_wakeup (evl s), phase := Dispatching\<rparr>)"
| polled: "phase s = Polling \<Longrightarrow> loop_step s (s\<lparr>phase := Dispatching\<rparr>)"
| calling: "phase s = Dispatching \<Longrightarrow>
    loop_step s (s\<lparr>evl := (evl s)\<lparr>callingPendingFunctors := True\<rparr>, phase := Calling\<rparr>)"
| swap: "phase s = Calling \<Longrightarrow>
    loop_step s (s\<lparr>evl := snd (take_functors (evl s)), phase := Running (fst (take_functors (evl s)))\<rparr>)"
| call: "phase s = Running (f # fs) \<Longrightarrow>
    loop_step s (s\<lparr>phase := Running fs, executed := executed s @ [f]\<rparr>)"
| finish: "phase s = Running [] \<Longrightarrow>
    loop_step s (s\<lparr>evl := end_functors (evl s), phase := Testing\<rparr>)"
| own_queue: "phase s = Dispatching \<or> phase s = Running fs \<Longrightarrow>
    loop_step s (s\<lparr>evl := queueInLoop (threadId (evl s)) f (evl s), submitted := submitted s @ [f]\<rparr>)"
| own_quit: "phase s = Dispatching \<or> phase s = Running fs \<Longrightarrow>
    loop_step s (s\<lparr>evl := quit (threadId (evl s)) (evl s)\<rparr>)"
| foreign_push: "loop_step s ((push f s)\<lparr>owed := Suc (owed s)\<rparr>)"
| foreign_quit: "loop_step s (s\<lparr>evl := (evl s)\<lparr>quit_flag := True\<rparr>, owed := Suc (owed s)\<rparr>)"
| foreign_wakeup: "owed s = Suc n \<Longrightarrow> loop_step s (s\<lparr>evl := wakeup (evl s), owed := n\<rparr>)"

inductive loop_reach :: "'f loop_sys \<Rightarrow> 'f loop_sys \<Rightarrow> bool" for s0 where
  loop_init: "loop_reach s0 s0"
| loop_next: "loop_reach s0 s \<Longrightarrow> loop_step s t \<Longrightarrow> loop_reach s0 t"

definition fresh_loop :: "'f event_loop \<Rightarrow> 'f loop_sys" where
  "fresh_loop l = \<lparr>evl = l, phase = Outside, owed = 0, submitted = [], executed = []\<rparr>"

fun to_run :: "'f phase \<Rightarrow> 'f list" where
  "to_run (Running fs) = fs"
| "to_run _ = []"

text \<open>A wake-up is on its way: the counter is up or a thread is about to raise it.\<close>

definition alarmed :: "'f loop_sys \<Rightarrow> bool" where
  "alarmed s \<longleftrightarrow> wakeupCount (evl s) > 0 \<or> owed s > 0"

definition loop_inv :: "'f loop_sys \<Rightarrow> bool" where
  "loop_inv s \<longleftrightarrow>
     executed s @ to_run (phase s) @ pendingFunctors (evl s) = submitted s \<and>
     wakeupCount (evl s) \<le> eventfd_max \<and>
     (callingPendingFunctors (evl s) \<longleftrightarrow> (phase s = Calling \<or> (\<exists>fs. phase s = Running fs))) \<and>
     (pendingFunctors (evl s) \<noteq> [] \<and> phase s \<notin> {Dispatching, Calling} \<longrightarrow> alarmed s) \<and>
     (quit_flag (evl s) \<and> phase s = Polling \<longrightarrow> alarmed s)"

lemma wakeup_props [simp]:
  "pendingFunctors (wakeup l) = pendingFunctors l" "quit_flag (wakeup l) = quit_flag l"
  "callingPendingFunctors (wakeup l) = callingPendingFunctors l" "threadId (wakeup l) = threadId l"
  "poller (wakeup l) = poller l"
  by (simp_all add: wakeup_def)

lemma wakeup_raises [simp]: "wakeupCount (wakeup l) > 0"
  by (simp add: wakeup_def eventfd_max_def)

lemma wakeup_bound [simp]: "wakeupCount l \<le> eventfd_max \<Longrightarrow> wakeupCount (wakeup l) \<le> eventfd_max"
  by (simp add: wakeup_def)

lemma loop_step_inv: "loop_step s t \<Longrightarrow> loop_inv s \<Longrightarrow> loop_inv t"
  by (induction rule: loop_step.induct)
    (auto simp: loop_inv_def alarmed_def queueInLoop_def quit_def take_functors_def end_functors_def
      handleRead_wakeup_def isInLoopThread_def Let_def)

lemma loop_reach_inv: "loop_reach s0 s \<Longrightarrow> loop_inv s0 \<Longrightarrow> loop_inv s"
  by (induction rule: loop_reach.induct) (auto intro: loop_step_inv)

lemma fresh_loop_inv: "loop_inv (fresh_loop (mkEventLoop tid ep tq p f))"
  by (simp add: loop_inv_def fresh_loop_def mkEventLoop_def Let_def case_prod_unfold)

lemma queueInLoop_foreign:
  "tid \<noteq> threadId (evl s) \<Longrightarrow> evl (push f s) = l \<Longrightarrow> queueInLoop tid f (evl s) = wakeup l"
  by (auto simp: queueInLoop_def isInLoopThread_def Let_def)

lemma loop_reach_trans: "loop_reach t u \<Longrightarrow> loop_reach s t \<Longrightarrow> loop_reach s u"
  by (induction rule: loop_reach.induct) (auto intro: loop_next)

lemma run_functors:
  "loop_reach s (s\<lparr>phase := Running [], executed := executed s @ fs\<rparr>)" if "phase s = Running fs"
  using that
proof (induction fs arbitrary: s)
  case Nil
  then have "s\<lparr>phase := Running [], executed := executed s @ []\<rparr> = s" by simp
  then show ?case using loop_init [of s] by simp
next
  case (Cons f fs)
  let ?s = "s\<lparr>phase := Running fs, executed := executed s @ [f]\<rparr>"
  have "loop_reach s ?s" using Cons.prems by (intro loop_next [OF loop_init] loop_step.call)
  moreover have "loop_reach ?s (s\<lparr>phase := Running [], executed := executed s @ f # fs\<rparr>)"
    using Cons.IH [of ?s] by simp
  ultimately show ?case using loop_reach_trans by blast
qed

lemma poll_runs_pending:
  assumes "phase s = Polling" and "wakeupCount (evl s) > 0"
  shows "\<exists>t. loop_reach s t \<and> executed t = executed s @ pendingFunctors (evl s)
    \<and> pendingFunctors (evl t) = [] \<and> submitted t = submitted s \<and> phase t = Testing"
proof -
  let ?a = "s\<lparr>evl := handleRead_wakeup (evl s), phase := Dispatching\<rparr>"
  let ?b = "?a\<lparr>evl := (evl ?a)\<lparr>callingPendingFunctors := True\<rparr>, phase := Calling\<rparr>"
  let ?c = "?b\<lparr>evl := snd (take_functors (evl ?b)), phase := Running (fst (take_functors (evl ?b)))\<rparr>"
  let ?d = "?c\<lparr>phase := Running [], executed := executed ?c @ fst (take_functors (evl ?b))\<rparr>"
  let ?e = "?d\<lparr>evl := end_functors (evl ?d), phase := Testing\<rparr>"
  have "loop_reach s ?a" using assms by (intro loop_next [OF loop_init] loop_step.woken)
  then have "loop_reach s ?b" by (rule loop_next) (rule loop_step.calling, simp)
  then have "loop_reach s ?c" by (rule loop_next) (rule loop_step.swap, simp)
  moreover have "loop_reach ?c ?d" by (rule run_functors) simp
  ultimately have "loop_reach s ?d" using loop_reach_trans by blast
  then have "loop_reach s ?e" by (rule loop_next) (rule loop_step.finish, simp)
  then show ?thesis
    by (intro exI [of _ ?e])
      (simp add: take_functors_def handleRead_wakeup_def end_functors_def Let_def)
qed

section \<open>Properties\<close>

text \<open>C4: no wake-up is lost.  Under every interleaving of the loop thread with threads that queue
  functors or ask it to quit, when the loop thread is inside \<^verbatim>\<open>epoll_wait\<close> while a functor is pending
  or \<^verbatim>\<open>quit_\<close> is set, then the event descriptor is readable or some thread is still about to write it;
  and once it is readable the loop thread can run on, alone, until everything pending has been
  called.\<close>

theorem no_lost_wakeup:
  assumes "loop_reach (fresh_loop (mkEventLoop tid ep tq p f)) s" and "phase s = Polling"
    and "pendingFunctors (evl s) \<noteq> [] \<or> quit_flag (evl s)"
  shows "alarmed s \<and>
    (owed s = 0 \<longrightarrow> (\<exists>t. loop_reach s t \<and> phase t = Testing \<and> executed t = submitted s
       \<and> pendingFunctors (evl t) = []))"
proof -
  have inv: "loop_inv s" using loop_reach_inv [OF assms(1) fresh_loop_inv] .
  then have al: "alarmed s" using assms(2,3) by (auto simp: loop_inv_def)
  have sub: "executed s @ pendingFunctors (evl s) = submitted s"
    using inv assms(2) by (simp add: loop_inv_def)
  show ?thesis
  proof (intro conjI al impI)
    assume "owed s = 0"
    then have "wakeupCount (evl s) > 0" using al by (simp add: alarmed_def)
    from poll_runs_pending [OF assms(2) this]
    show "\<exists>t. loop_reach s t \<and> phase t = Testing \<and> executed t = submitted s
       \<and> pendingFunctors (evl t) = []" using sub by metis
  qed
qed

theorem no_lost_wakeup_witness:
  "\<exists>s :: nat loop_sys. phase s = Polling \<and> pendingFunctors (evl s) = [7] \<and> alarmed s"
proof -
  let ?l = "mkEventLoop 3 (mkEPollPoller (\<lambda>h c. True)) (init_queue Suc int) 0 5 :: nat event_loop"
  let ?a = "(fresh_loop ?l)\<lparr>evl := ?l\<lparr>looping := True, quit_flag := False\<rparr>, phase := Testing\<rparr>"
  let ?b = "?a\<lparr>phase := Polling\<rparr>"
  let ?c = "(push 7 ?b)\<lparr>owed := Suc (owed ?b)\<rparr>"
  have p: "pendingFunctors ?l = []" by (simp add: mkEventLoop_def Let_def case_prod_unfold)
  have "loop_reach (fresh_loop ?l) ?a"
    using loop_next [OF loop_init loop_step.start [of "fresh_loop ?l"]] by (simp add: fresh_loop_def)
  then have "loop_reach (fresh_loop ?l) ?b" by (rule loop_next) (rule loop_step.wait; simp)
  then have r: "loop_reach (fresh_loop ?l) ?c" by (rule loop_next) (rule loop_step.foreign_push)
  have "alarmed ?c" using no_lost_wakeup [OF r] by simp
  then show ?thesis by (intro exI [of _ ?c]) (simp add: p)
qed

text \<open>C37: every queued functor is called at most once and in the order in which the calls of
  \<^verbatim>\<open>queueInLoop\<close> took the lock: at any moment the functors called so far, those left of the vector
  being run and those still pending are together exactly the ones submitted.\<close>

theorem functors_in_order:
  assumes "loop_reach (fresh_loop (mkEventLoop tid ep tq p f)) s"
  shows "submitted s = executed s @ to_run (phase s) @ pendingFunctors (evl s)"
  using loop_reach_inv [OF assms fresh_loop_inv] by (simp add: loop_inv_def)

theorem functors_in_order_witness:
  "\<exists>s :: nat loop_sys. submitted s = [3] \<and> submitted s = executed s @ to_run (phase s) @ pendingFunctors (evl s)"
proof -
  let ?l = "mkEventLoop 3 (mkEPollPoller (\<lambda>h c. True)) (init_queue Suc int) 0 5 :: nat event_loop"
  let ?s = "(push 3 (fresh_loop ?l))\<lparr>owed := Suc (owed (fresh_loop ?l))\<rparr>"
  have r: "loop_reach (fresh_loop ?l) ?s"
    by (rule loop_next [OF loop_init loop_step.foreign_push])
  show ?thesis
    using functors_in_order [OF r] by (intro exI [of _ ?s]) (simp add: fresh_loop_def)
qed

text \<open>A call of \<^verbatim>\<open>quit()\<close> from another thread that comes before the loop thread has entered \<^verbatim>\<open>loop()\<close>
  is lost, because \<^verbatim>\<open>loop()\<close> begins by clearing \<^verbatim>\<open>quit_\<close>: the loop can end up in \<^verbatim>\<open>epoll_wait\<close> with
  nothing left to wake it.  (\<^verbatim>\<open>EventLoopThread\<close>'s destructor makes such a call, and then waits for the
  thread.)\<close>

theorem early_quit_lost:
  assumes "tid \<noteq> threadId l" and "pendingFunctors l = []"
  shows "\<exists>s. loop_reach (fresh_loop (quit tid l)) s \<and> phase s = Polling \<and> \<not> quit_flag (evl s) \<and> \<not> alarmed s"
proof -
  let ?s = "fresh_loop (quit tid l)"
  let ?a = "?s\<lparr>evl := (evl ?s)\<lparr>looping := True, quit_flag := False\<rparr>, phase := Testing\<rparr>"
  let ?b = "?a\<lparr>phase := Polling\<rparr>"
  let ?c = "?b\<lparr>evl := handleRead_wakeup (evl ?b), phase := Dispatching\<rparr>"
  let ?d = "?c\<lparr>evl := (evl ?c)\<lparr>callingPendingFunctors := True\<rparr>, phase := Calling\<rparr>"
  let ?e = "?d\<lparr>evl := snd (take_functors (evl ?d)), phase := Running (fst (take_functors (evl ?d)))\<rparr>"
  let ?f = "?e\<lparr>evl := end_functors (evl ?e), phase := Testing\<rparr>"
  let ?g = "?f\<lparr>phase := Polling\<rparr>"
  have q: "quit tid l = wakeup (l\<lparr>quit_flag := True\<rparr>)"
    using assms by (simp add: quit_def isInLoopThread_def Let_def)
  have e: "fst (take_functors (evl ?d)) = []"
    using assms(2) by (simp add: take_functors_def handleRead_wakeup_def fresh_loop_def q Let_def)
  have "loop_reach ?s ?a" by (rule loop_next [OF loop_init loop_step.start]) (simp add: fresh_loop_def)
  then have "loop_reach ?s ?b" by (rule loop_next) (rule loop_step.wait; simp)
  then have "loop_reach ?s ?c" by (rule loop_next) (rule loop_step.woken; simp add: fresh_loop_def q)
  then have "loop_reach ?s ?d" by (rule loop_next) (rule loop_step.calling; simp)
  then have "loop_reach ?s ?e" by (rule loop_next) (rule loop_step.swap; simp)
  then have "loop_reach ?s ?f" by (rule loop_next) (rule loop_step.finish; use e in simp)
  then have "loop_reach ?s ?g"
    by (rule loop_next) (rule loop_step.wait; simp add: take_functors_def end_functors_def
        handleRead_wakeup_def Let_def)
  then show ?thesis
    by (intro exI [of _ ?g]) (simp add: alarmed_def take_functors_def end_functors_def
        handleRead_wakeup_def fresh_loop_def Let_def)
qed

theorem early_quit_lost_witness:
  "\<exists>s. loop_reach (fresh_loop (quit 2 (mkEventLoop 3 (mkEPollPoller (\<lambda>h c. True)) (init_queue Suc int) 0 5 :: nat event_loop))) s
     \<and> phase s = Polling \<and> \<not> quit_flag (evl s) \<and> \<not> alarmed s"
  by (rule early_quit_lost) (simp_all add: mkEventLoop_def Let_def case_prod_unfold)

text \<open>New connections are dealt to the pool's loops in turn: the \<open>i\<close>-th connection goes to the
  loop at position \<open>i\<close> modulo the number of loops, and a pool without threads uses the base loop.\<close>

theorem round_robin:
  assumes "next_loop p = 0"
  shows "fst (assign_loops k p) =
    map (\<lambda>i. getAllLoops p ! (i mod length (getAllLoops p))) [0..<k]"
proof (cases "loops p = []")
  case True
  then have "getNextLoop p = (baseLoop p, p)" by (simp add: getNextLoop_def)
  then have "fst (assign_loops k p) = replicate k (baseLoop p)"
    by (induction k) (simp_all add: case_prod_unfold Let_def)
  then show ?thesis using True by (simp add: getAllLoops_def map_replicate_const)
next
  case False
  then show ?thesis using assms assign_loops_aux [of p k] by (simp add: getAllLoops_def)
qed

theorem round_robin_witness:
  "fst (assign_loops 4 (snd (pool_start False (\<lambda>i. i + 10) (setThreadNum 3 (mkThreadPool 0 ''srv''))))) = [10, 11, 12, 10]"
proof -
  let ?p = "snd (pool_start False (\<lambda>i. i + 10) (setThreadNum 3 (mkThreadPool 0 ''srv'')))"
  have n: "next_loop ?p = 0" and l: "getAllLoops ?p = [10, 11, 12]"
    by (simp_all add: pool_start_def setThreadNum_def mkThreadPool_def getAllLoops_def Let_def upt_rec)
  show ?thesis using round_robin [OF n, of 4] unfolding l by (simp add: upt_rec)
qed

end
