(* ===== verification/Threads.thy ===== *)
theory Threads
  imports Event_Loop
begin

text \<open>
  \<^verbatim>\<open>mymuduo/Thread\<close>, \<^verbatim>\<open>CurrentThread\<close> and \<^verbatim>\<open>EventLoopThread\<close>: how a loop thread comes into being and how
  it ends.  Two threads take part, the one that owns the \<^verbatim>\<open>EventLoopThread\<close> object (\<open>starter\<close>) and the
  new one (\<open>worker\<close>); they share a semaphore, a mutex with a condition variable, the pointer \<^verbatim>\<open>loop_\<close>
  and the flag \<^verbatim>\<open>quit_\<close> of the loop.  Each thread is a program counter over the lines of its code, and
  any interleaving of their steps is possible.
\<close>

section \<open>Thread objects\<close>

record thread =
  thr_started :: bool
  thr_joined :: bool
  thr_tid :: int
  thr_name :: string
  thr_detached :: bool         \<comment> \<open>whether \<^verbatim>\<open>std::thread::detach\<close> has been called\<close>

text \<open>\<open>num\<close> is the static counter \<^verbatim>\<open>numCreated_\<close>; \<^verbatim>\<open>snprintf\<close> into 32 bytes keeps 31 characters.\<close>

definition setDefaultName :: "int \<Rightarrow> string \<Rightarrow> string \<times> int" where
  "setDefaultName num nm =
     (if nm = [] then take 31 (''Thread'' @ int_str num) else nm, num + 1)"

definition mkThread :: "int \<Rightarrow> string \<Rightarrow> thread \<times> int" where
  "mkThread num nm =
     (let (n, num) = setDefaultName num nm
      in (\<lparr>thr_started = False, thr_joined = False, thr_tid = 0, thr_name = n, thr_detached = False\<rparr>, num))"

definition destroyThread :: "thread \<Rightarrow> thread" where
  "destroyThread t = (if thr_started t \<and> \<not> thr_joined t then t\<lparr>thr_detached := True\<rparr> else t)"

section \<open>The cached thread id\<close>

text \<open>\<open>cache\<close> is the thread-local variable \<^verbatim>\<open>t_cacheTid\<close> of every thread, \<open>gettid\<close> the system call.\<close>

definition cacheTid :: "('t \<Rightarrow> int) \<Rightarrow> 't \<Rightarrow> ('t \<Rightarrow> int) \<Rightarrow> 't \<Rightarrow> int" where
  "cacheTid gettid me cache = (if cache me = 0 then cache(me := gettid me) else cache)"

definition current_tid :: "('t \<Rightarrow> int) \<Rightarrow> 't \<Rightarrow> ('t \<Rightarrow> int) \<Rightarrow> int \<times> ('t \<Rightarrow> int)" where
  "current_tid gettid me cache =
     (let cache = (if cache me = 0 then cacheTid gettid me cache else cache) in (cache me, cache))"

fun tid_calls :: "('t \<Rightarrow> int) \<Rightarrow> 't list \<Rightarrow> ('t \<Rightarrow> int) \<Rightarrow> int list \<times> ('t \<Rightarrow> int)" where
  "tid_calls gettid [] cache = ([], cache)"
| "tid_calls gettid (me # ms) cache =
     (let (i, cache) = current_tid gettid me cache; (is, cache) = tid_calls gettid ms cache
      in (i # is, cache))"

lemma tid_calls_correct:
  "(\<And>t. cache t = 0 \<or> cache t = gettid t) \<Longrightarrow> fst (tid_calls gettid ms cache) = map gettid ms"
proof (induction ms arbitrary: cache)
  case (Cons me ms)
  let ?c = "snd (current_tid gettid me cache)"
  have "?c t = 0 \<or> ?c t = gettid t" for t
    using Cons.prems [of t] by (auto simp: current_tid_def cacheTid_def)
  then have "fst (tid_calls gettid ms ?c) = map gettid ms" by (rule Cons.IH)
  moreover have "fst (current_tid gettid me cache) = gettid me"
    using Cons.prems [of me] by (auto simp: current_tid_def cacheTid_def)
  ultimately show ?case by (simp add: case_prod_unfold Let_def)
qed simp

section \<open>A loop thread\<close>

datatype who = Starter | Worker

text \<open>The owner: \<^verbatim>\<open>EventLoopThread::startLoop\<close> with \<^verbatim>\<open>Thread::start\<close> (create the thread, wait for the
  semaphore, lock, test \<^verbatim>\<open>loop_\<close>, wait on the condition, unlock with the pointer read), then the
  destructor (test \<^verbatim>\<open>loop_\<close>, \<^verbatim>\<open>quit\<close>, \<^verbatim>\<open>join\<close>).\<close>

datatype starter_pc =
    SStart | SSemWait | SLock | STest | SWaiting | SUnlock nat | SReturned nat | SQuit | SJoin | SEnd

text \<open>The new thread: the lambda of \<^verbatim>\<open>Thread::start\<close> and \<^verbatim>\<open>EventLoopThread::threadFunc\<close>.\<close>

datatype worker_pc =
    WNone | WTid | WPost | WConstruct | WCallback | WLock | WStore | WNotify | WUnlock
  | WEnter | WLooping | WLock2 | WClear | WUnlock2 | WEnd

record loop_thread =
  thr :: thread
  sem :: nat
  mutex :: "who option"
  loop_ptr :: "nat option"
  exiting :: bool
  waiting :: bool              \<comment> \<open>the owner is in the condition's wait set\<close>
  initialised :: "nat list"    \<comment> \<open>the loops the init callback has been called with\<close>
  loop_quit :: bool            \<comment> \<open>\<^verbatim>\<open>quit_\<close> of the worker's loop\<close>
  starter :: starter_pc
  worker :: worker_pc

definition mkEventLoopThread :: "int \<Rightarrow> string \<Rightarrow> loop_thread" where
  "mkEventLoopThread num nm =
     \<lparr>thr = fst (mkThread num nm), sem = 0, mutex = None, loop_ptr = None, exiting = False, waiting = False,
      initialised = [], loop_quit = False, starter = SStart, worker = WNone\<rparr>"

text \<open>\<open>a\<close> is the address of the worker's \<^verbatim>\<open>EventLoop\<close> on its stack, \<open>i\<close> its thread id, \<open>cb\<close> whether
  there is an init callback.  While the worker is inside \<^verbatim>\<open>loop()\<close> it leaves when it sees \<^verbatim>\<open>quit_\<close>.\<close>

inductive thread_step :: "nat \<Rightarrow> int \<Rightarrow> bool \<Rightarrow> loop_thread \<Rightarrow> loop_thread \<Rightarrow> bool" for a i cb where
  start: "starter s = SStart \<Longrightarrow>
    thread_step a i cb s (s\<lparr>thr := (thr s)\<lparr>thr_started := True\<rparr>, worker := WTid, starter := SSemWait\<rparr>)"
| sem_wait: "starter s = SSemWait \<Longrightarrow> sem s > 0 \<Longrightarrow>
    thread_step a i cb s (s\<lparr>sem := sem s - 1, starter := SLock\<rparr>)"
| lock: "starter s = SLock \<Longrightarrow> mutex s = None \<Longrightarrow>
    thread_step a i cb s (s\<lparr>mutex := Some Starter, starter := STest\<rparr>)"
| cond_wait: "starter s = STest \<Longrightarrow> loop_ptr s = None \<Longrightarrow>
    thread_step a i cb s (s\<lparr>mutex := None, waiting := True, starter := SWaiting\<rparr>)"
| rewoken: "starter s = SWaiting \<Longrightarrow> \<not> waiting s \<Longrightarrow> mutex s = None \<Longrightarrow>
    thread_step a i cb s (s\<lparr>mutex := Some Starter, starter := STest\<rparr>)"
| got_loop: "starter s = STest \<Longrightarrow> loop_ptr s = Some l \<Longrightarrow>
    thread_step a i cb s (s\<lparr>starter := SUnlock l\<rparr>)"
| unlock: "starter s = SUnlock l \<Longrightarrow>
    thread_step a i cb s (s\<lparr>mutex := None, starter := SReturned l\<rparr>)"
| destroy: "starter s = SReturned l \<Longrightarrow>
    thread_step a i cb s (s\<lparr>exiting := True, starter := (if loop_ptr s \<noteq> None then SQuit else SEnd)\<rparr>)"
| quit: "starter s = SQuit \<Longrightarrow>
    thread_step a i cb s (s\<lparr>loop_quit := True, starter := SJoin\<rparr>)"
| join: "starter s = SJoin \<Longrightarrow> worker s = WEnd \<Longrightarrow>
    thread_step a i cb s (s\<lparr>thr := (thr s)\<lparr>thr_joined := True\<rparr>, starter := SEnd\<rparr>)"
| set_tid: "worker s = WTid \<Longrightarrow>
    thread_step a i cb s (s\<lparr>thr := (thr s)\<lparr>thr_tid := i\<rparr>, worker := WPost\<rparr>)"
| sem_post: "worker s = WPost \<Longrightarrow>
    thread_step a i cb s (s\<lparr>sem := sem s + 1, worker := WConstruct\<rparr>)"
| construct: "worker s = WConstruct \<Longrightarrow>
    thread_step a i cb s (s\<lparr>loop_quit := False, worker := WCallback\<rparr>)"
| callback: "worker s = WCallback \<Longrightarrow>
    thread_step a i cb s (s\<lparr>initialised := (if cb then initialised s @ [a] else initialised s), worker := WLock\<rparr>)"
| w_lock: "worker s = WLock \<Longrightarrow> mutex s = None \<Longrightarrow>
    thread_step a i cb s (s\<lparr>mutex := Some Worker, worker := WStore\<rparr>)"
| store: "worker s = WStore \<Longrightarrow> thread_step a i cb s (s\<lparr>loop_ptr := Some a, worker := WNotify\<rparr>)"
| notify: "worker s = WNotify \<Longrightarrow> thread_step a i cb s (s\<lparr>waiting := False, worker := WUnlock\<rparr>)"
| w_unlock: "worker s = WUnlock \<Longrightarrow> thread_step a i cb s (s\<lparr>mutex := None, worker := WEnter\<rparr>)"
| enter: "worker s = WEnter \<Longrightarrow> thread_step a i cb s (s\<lparr>loop_quit := False, worker := WLooping\<rparr>)"
| leave: "worker s = WLooping \<Longrightarrow> loop_quit s \<Longrightarrow> thread_step a i cb s (s\<lparr>worker := WLock2\<rparr>)"
| w_lock2: "worker s = WLock2 \<Longrightarrow> mutex s = None \<Longrightarrow>
    thread_step a i cb s (s\<lparr>mutex := Some Worker, worker := WClear\<rparr>)"
| clear: "worker s = WClear \<Longrightarrow> thread_step a i cb s (s\<lparr>loop_ptr := None, worker := WUnlock2\<rparr>)"
| w_unlock2: "worker s = WUnlock2 \<Longrightarrow> thread_step a i cb s (s\<lparr>mutex := None, worker := WEnd\<rparr>)"

text \<open>Reachable states; a condition variable may also wake its waiter for no reason.\<close>

inductive thread_reach :: "nat \<Rightarrow> int \<Rightarrow> bool \<Rightarrow> loop_thread \<Rightarrow> loop_thread \<Rightarrow> bool" for a i cb s0 where
  reach_init: "thread_reach a i cb s0 s0"
| reach_step: "thread_reach a i cb s0 s \<Longrightarrow> thread_step a i cb s t \<Longrightarrow> thread_reach a i cb s0 t"
| reach_spurious: "thread_reach a i cb s0 s \<Longrightarrow> thread_reach a i cb s0 (s\<lparr>waiting := False\<rparr>)"

section \<open>Invariant\<close>

fun owner_done :: "starter_pc \<Rightarrow> bool" where
  "owner_done (SUnlock l) = True" | "owner_done (SReturned l) = True" | "owner_done SQuit = True"
| "owner_done SJoin = True" | "owner_done SEnd = True" | "owner_done _ = False"

definition worker_before :: "worker_pc set" where
  "worker_before = {WNone, WTid, WPost, WConstruct, WCallback, WLock, WStore}"

definition worker_shows :: "worker_pc set" where
  "worker_shows = {WNotify, WUnlock, WEnter, WLooping, WLock2, WClear}"

definition thread_inv :: "nat \<Rightarrow> int \<Rightarrow> bool \<Rightarrow> loop_thread \<Rightarrow> bool" where
  "thread_inv a i cb s \<longleftrightarrow>
     (mutex s = Some Starter \<longleftrightarrow> starter s = STest \<or> (\<exists>l. starter s = SUnlock l)) \<and>
     (mutex s = Some Worker \<longleftrightarrow> worker s \<in> {WStore, WNotify, WUnlock, WClear, WUnlock2}) \<and>
     (starter s = SStart \<longleftrightarrow> worker s = WNone) \<and>
     sem s = (if starter s = SSemWait \<and> worker s \<notin> {WTid, WPost} then 1 else 0) \<and>
     (starter s \<noteq> SStart \<and> starter s \<noteq> SSemWait \<longrightarrow> worker s \<notin> {WTid, WPost}) \<and>
     loop_ptr s = (if worker s \<in> worker_shows then Some a else None) \<and>
     (waiting s \<longrightarrow> starter s = SWaiting \<and> (worker s \<in> worker_before \<or> worker s = WNotify)) \<and>
     (owner_done (starter s) \<longrightarrow> worker s \<notin> worker_before) \<and>
     (\<forall>l. starter s = SUnlock l \<or> starter s = SReturned l \<longrightarrow> l = a) \<and>
     (worker s \<in> {WLock2, WClear, WUnlock2, WEnd} \<longrightarrow> starter s = SJoin \<or> starter s = SEnd) \<and>
     (loop_quit s \<longrightarrow> starter s = SJoin \<or> starter s = SEnd) \<and>
     (worker s \<notin> {WNone, WTid} \<longrightarrow> thr_tid (thr s) = i) \<and>
     (worker s \<notin> {WNone, WTid, WPost, WConstruct, WCallback} \<longrightarrow> initialised s = (if cb then [a] else [])) \<and>
     (worker s \<in> {WNone, WTid, WPost, WConstruct, WCallback} \<longrightarrow> initialised s = []) \<and>
     (starter s = SEnd \<longrightarrow> worker s = WEnd \<and> thr_joined (thr s)) \<and>
     (starter s \<noteq> SStart \<longrightarrow> thr_started (thr s))"

lemmas pc_sets = worker_before_def worker_shows_def

lemma thread_inv_init: "thread_inv a i cb (mkEventLoopThread num nm)"
  by (simp add: thread_inv_def mkEventLoopThread_def pc_sets)

lemma thread_step_inv:
  assumes "thread_step a i cb s t" and "thread_inv a i cb s"
  shows "thread_inv a i cb t"
  using assms(1)
  by cases
    (((insert assms(2), cases "worker s"; simp add: thread_inv_def pc_sets)+)[10],
     (insert assms(2), cases "starter s"; simp add: thread_inv_def pc_sets)+)

lemma thread_reach_inv: "thread_reach a i cb (mkEventLoopThread num nm) s \<Longrightarrow> thread_inv a i cb s"
proof (induction rule: thread_reach.induct)
  case (reach_step s t)
  then show ?case by (simp add: thread_step_inv)
next
  case (reach_spurious s)
  then show ?case by (simp add: thread_inv_def)
qed (rule thread_inv_init)

section \<open>Progress\<close>

fun starter_rank :: "starter_pc \<Rightarrow> bool \<Rightarrow> nat" where
  "starter_rank SStart w = 10" | "starter_rank SSemWait w = 9" | "starter_rank SLock w = 8"
| "starter_rank STest w = 6" | "starter_rank SWaiting w = (if w then 5 else 7)" | "starter_rank (SUnlock l) w = 4"
| "starter_rank (SReturned l) w = 3" | "starter_rank SQuit w = 2" | "starter_rank SJoin w = 1" | "starter_rank SEnd w = 0"

fun worker_rank :: "worker_pc \<Rightarrow> nat" where
  "worker_rank WNone = 14" | "worker_rank WTid = 13" | "worker_rank WPost = 12" | "worker_rank WConstruct = 11"
| "worker_rank WCallback = 10" | "worker_rank WLock = 9" | "worker_rank WStore = 8" | "worker_rank WNotify = 7"
| "worker_rank WUnlock = 6" | "worker_rank WEnter = 5" | "worker_rank WLooping = 4" | "worker_rank WLock2 = 3"
| "worker_rank WClear = 2" | "worker_rank WUnlock2 = 1" | "worker_rank WEnd = 0"

definition thread_rank :: "loop_thread \<Rightarrow> nat" where
  "thread_rank s = 3 * worker_rank (worker s) + starter_rank (starter s) (waiting s)"

lemma thread_step_rank: "thread_step a i cb s t \<Longrightarrow> thread_inv a i cb s \<Longrightarrow> thread_rank t < thread_rank s"
  by (erule thread_step.cases) (auto simp: thread_rank_def thread_inv_def split: if_splits)

interpretation life: ranked_machine "thread_step a i cb" "thread_inv a i cb" thread_rank for a i cb
  by unfold_locales (rule thread_step_inv thread_step_rank; assumption)+

text \<open>The one way to get stuck: \<^verbatim>\<open>quit\<close> came before \<^verbatim>\<open>loop()\<close> cleared the flag.\<close>

definition quit_lost :: "loop_thread \<Rightarrow> bool" where
  "quit_lost s \<longleftrightarrow> starter s = SJoin \<and> worker s = WLooping \<and> \<not> loop_quit s"

lemma thread_invD:
  assumes "thread_inv a i cb s"
  shows "mutex s = Some Starter \<longleftrightarrow> starter s = STest \<or> (\<exists>l. starter s = SUnlock l)"
    and "mutex s = Some Worker \<longleftrightarrow> worker s \<in> {WStore, WNotify, WUnlock, WClear, WUnlock2}"
    and "starter s = SStart \<longleftrightarrow> worker s = WNone"
    and "sem s = (if starter s = SSemWait \<and> worker s \<notin> {WTid, WPost} then 1 else 0)"
    and "waiting s \<longrightarrow> starter s = SWaiting \<and> (worker s \<in> worker_before \<or> worker s = WNotify)"
    and "worker s \<in> {WLock2, WClear, WUnlock2, WEnd} \<longrightarrow> starter s = SJoin \<or> starter s = SEnd"
  using assms unfolding thread_inv_def by - (elim conjE, assumption)+

lemma mutex_cases: "mutex s = None \<or> mutex s = Some Starter \<or> mutex s = Some Worker"
  by (cases "mutex s") (auto intro: who.exhaust)

lemma worker_moves:
  assumes "thread_inv a i cb s" and "mutex s \<noteq> Some Starter" and "\<nexists>t. thread_step a i cb s t"
  shows "worker s \<in> {WNone, WEnd} \<or> worker s = WLooping \<and> \<not> loop_quit s"
proof -
  have "worker s \<in> {WLock, WLock2} \<Longrightarrow> mutex s = None"
    using thread_invD(2) [OF assms(1)] assms(2) mutex_cases [of s] by auto
  then show ?thesis using assms(3) by (cases "worker s") (auto intro: thread_step.intros)
qed

lemma starter_moves:
  assumes "\<nexists>t. thread_step a i cb s t"
  shows "starter s \<in> {SSemWait, SLock, SWaiting, SJoin, SEnd}"
  using assms by (cases "starter s"; cases "loop_ptr s") (auto intro: thread_step.intros)

lemma thread_stuck:
  assumes inv: "thread_inv a i cb s" and stuck: "\<nexists>t. thread_step a i cb s t"
  shows "starter s = SEnd \<or> quit_lost s"
proof -
  have st: "starter s \<in> {SSemWait, SLock, SWaiting, SJoin, SEnd}" using starter_moves [OF stuck] .
  then have m: "mutex s \<noteq> Some Starter" using thread_invD(1) [OF inv] by auto
  have w: "worker s = WEnd \<or> worker s = WLooping \<and> \<not> loop_quit s"
    using worker_moves [OF inv m stuck] thread_invD(3) [OF inv] st by auto
  then have free: "mutex s = None"
    using thread_invD(2) [OF inv] m mutex_cases [of s] by auto
  have "starter s = SJoin \<and> worker s = WLooping \<and> \<not> loop_quit s \<or> starter s = SEnd"
    using st
  proof (elim insertE emptyE)
    assume "starter s = SSemWait"
    moreover from this have "sem s > 0" using thread_invD(4) [OF inv] w by auto
    ultimately show ?thesis using stuck thread_step.sem_wait by blast
  next
    assume "starter s = SLock"
    then show ?thesis using stuck free thread_step.lock by blast
  next
    assume "starter s = SWaiting"
    moreover from this have "\<not> waiting s" using thread_invD(5,6) [OF inv] w by (auto simp: pc_sets)
    ultimately show ?thesis using stuck free thread_step.rewoken by blast
  next
    assume "starter s = SJoin"
    then show ?thesis using stuck w thread_step.join by blast
  qed simp
  then show ?thesis by (auto simp: quit_lost_def)
qed

lemma mkEventLoopThread_rank: "thread_rank (mkEventLoopThread num nm) = 52"
  by (simp add: thread_rank_def mkEventLoopThread_def)

text \<open>A run of \<^verbatim>\<open>startLoop\<close> in which the worker is first at the lock, and its continuation in which the
  owner destroys the thread before the worker has entered \<^verbatim>\<open>loop()\<close>.\<close>

definition returned_thread :: "nat \<Rightarrow> int \<Rightarrow> bool \<Rightarrow> int \<Rightarrow> string \<Rightarrow> loop_thread" where
  "returned_thread a i cb num nm = (mkEventLoopThread num nm)
     \<lparr>thr := (fst (mkThread num nm))\<lparr>thr_started := True, thr_tid := i\<rparr>, loop_ptr := Some a,
      initialised := (if cb then [a] else []), starter := SReturned a, worker := WEnter\<rparr>"

definition hung_thread :: "nat \<Rightarrow> int \<Rightarrow> bool \<Rightarrow> int \<Rightarrow> string \<Rightarrow> loop_thread" where
  "hung_thread a i cb num nm = (returned_thread a i cb num nm)\<lparr>exiting := True, starter := SJoin, worker := WLooping\<rparr>"

lemma returned_thread_steps: "(thread_step a i cb ^^ 13) (mkEventLoopThread num nm) (returned_thread a i cb num nm)"
proof -
  note init = relpowp_0_I [of "thread_step a i cb" "mkEventLoopThread num nm"]
  note r1 = relpowp_Suc_I [OF init thread_step.start]
  note r2 = relpowp_Suc_I [OF r1 thread_step.set_tid]
  note r3 = relpowp_Suc_I [OF r2 thread_step.sem_post]
  note r4 = relpowp_Suc_I [OF r3 thread_step.sem_wait]
  note r5 = relpowp_Suc_I [OF r4 thread_step.construct]
  note r6 = relpowp_Suc_I [OF r5 thread_step.callback]
  note r7 = relpowp_Suc_I [OF r6 thread_step.w_lock]
  note r8 = relpowp_Suc_I [OF r7 thread_step.store]
  note r9 = relpowp_Suc_I [OF r8 thread_step.notify]
  note r10 = relpowp_Suc_I [OF r9 thread_step.w_unlock]
  note r11 = relpowp_Suc_I [OF r10 thread_step.lock]
  note r12 = relpowp_Suc_I [OF r11 thread_step.got_loop [where l = a]]
  note r13 = relpowp_Suc_I [OF r12 thread_step.unlock [where l = a]]
  have n: "(13::nat) = Suc (Suc (Suc (Suc (Suc (Suc (Suc (Suc (Suc (Suc (Suc (Suc (Suc 0))))))))))))" by simp
  have "\<exists>s. (thread_step a i cb ^^ 13) (mkEventLoopThread num nm) s \<and> s = returned_thread a i cb num nm"
    unfolding n
    by (rule exI, rule conjI, rule r13)
      (simp_all add: returned_thread_def mkEventLoopThread_def mkThread_def setDefaultName_def)
  then show ?thesis by simp
qed

lemma hung_thread_steps: "(thread_step a i cb ^^ 16) (mkEventLoopThread num nm) (hung_thread a i cb num nm)"
proof -
  note r1 = relpowp_Suc_I [OF returned_thread_steps [of a i cb num nm] thread_step.destroy [where l = a]]
  note r2 = relpowp_Suc_I [OF r1 thread_step.quit]
  note r3 = relpowp_Suc_I [OF r2 thread_step.enter]
  have n: "(16::nat) = Suc (Suc (Suc 13))" by simp
  have "\<exists>s. (thread_step a i cb ^^ 16) (mkEventLoopThread num nm) s \<and> s = hung_thread a i cb num nm"
    unfolding n
    by (rule exI, rule conjI, rule r3) (simp_all add: hung_thread_def returned_thread_def mkEventLoopThread_def)
  then show ?thesis by simp
qed

lemma hung_thread_stuck: "\<not> thread_step a i cb (hung_thread a i cb num nm) t"
  by (auto simp: hung_thread_def returned_thread_def mkEventLoopThread_def elim: thread_step.cases)

lemma steps_reach: "(thread_step a i cb ^^ n) s0 s \<Longrightarrow> thread_reach a i cb s0 s"
  by (induction n arbitrary: s) (auto intro: thread_reach.intros)

section \<open>Properties\<close>

text \<open>C14: \<^verbatim>\<open>startLoop\<close> returns the right loop.  However the two threads interleave, and however often the
  condition wakes for no reason, the pointer it returns is the address of the worker's loop, never
  null; by then the thread id is set, the init callback (if there is one) has run on that loop exactly
  once, and the loop object is still alive: \<^verbatim>\<open>loop_\<close> still points to it until the owner destroys the
  thread.\<close>

theorem startLoop_returns_live_loop:
  assumes "thread_reach a i cb (mkEventLoopThread num nm) s" and "starter s = SReturned l"
  shows "l = a \<and> thr_tid (thr s) = i \<and> initialised s = (if cb then [a] else []) \<and> loop_ptr s = Some a"
proof -
  have "thread_inv a i cb s" using thread_reach_inv [OF assms(1)] .
  then show ?thesis using assms(2) by (cases "worker s") (auto simp: thread_inv_def pc_sets)
qed

theorem startLoop_returns_live_loop_witness:
  "\<exists>s. thread_reach 5 77 True (mkEventLoopThread 0 []) s \<and> starter s = SReturned 5 \<and>
     thr_tid (thr s) = 77 \<and> initialised s = [5]"
proof -
  let ?s = "returned_thread 5 77 True 0 []"
  have r: "thread_reach 5 77 True (mkEventLoopThread 0 []) ?s" using steps_reach [OF returned_thread_steps] .
  have "starter ?s = SReturned 5" by (simp add: returned_thread_def)
  from startLoop_returns_live_loop [OF r this] r this show ?thesis by auto
qed

text \<open>C13: the life of a loop thread ends.  From its creation, no execution has more than 52 steps (steps
  without a spurious wake-up), and it stops only when the destructor has joined the finished thread,
  or in the one state where \<^verbatim>\<open>quit\<close> was called before the worker entered \<^verbatim>\<open>loop()\<close>, which cleared the
  flag: there the destructor waits for ever.  One of the two always lies ahead.  In particular \<^verbatim>\<open>startLoop\<close> cannot miss the notification.\<close>

theorem thread_life_terminates:
  assumes "(thread_step a i cb ^^ n) (mkEventLoopThread num nm) s"
  shows "n \<le> 52 \<and> ((\<nexists>t. thread_step a i cb s t) \<longrightarrow>
    starter s = SEnd \<and> worker s = WEnd \<and> thr_joined (thr s) \<and> loop_ptr s = None \<or> quit_lost s) \<and>
    (\<exists>t. (thread_step a i cb)\<^sup>*\<^sup>* s t \<and> (starter t = SEnd \<or> quit_lost t))"
proof -
  have b: "n + thread_rank s \<le> 52" and inv: "thread_inv a i cb s"
    using life.steps_bounded [OF assms thread_inv_init] by (simp_all add: mkEventLoopThread_rank)
  have "starter s = SEnd \<Longrightarrow> worker s = WEnd \<and> thr_joined (thr s) \<and> loop_ptr s = None"
    using inv by (simp add: thread_inv_def pc_sets)
  moreover have "\<exists>t. (thread_step a i cb)\<^sup>*\<^sup>* s t \<and> (starter t = SEnd \<or> quit_lost t)"
    using life.comes_to_rest [OF inv] thread_stuck by blast
  ultimately show ?thesis using b thread_stuck [OF inv] by auto
qed

theorem thread_life_terminates_witness:
  "quit_lost (hung_thread 5 77 True 0 [])"
  using thread_life_terminates [OF hung_thread_steps [of 5 77 True 0 "[]"]] hung_thread_stuck [of 5 77 True 0 "[]"]
  by (simp add: hung_thread_def)

text \<open>Destroying a loop thread can hang.  The owner's destructor may run right after \<^verbatim>\<open>startLoop\<close> has
  returned, before the worker has entered \<^verbatim>\<open>loop()\<close>; \<^verbatim>\<open>quit\<close> then sets a flag that \<^verbatim>\<open>loop()\<close> clears, no
  step is possible any more and \<^verbatim>\<open>join\<close> never returns.\<close>

theorem destructor_can_hang:
  "\<exists>s. thread_reach a i cb (mkEventLoopThread num nm) s \<and> starter s = SJoin \<and> \<not> thr_joined (thr s) \<and>
     (\<forall>t. \<not> thread_step a i cb s t)"
proof (intro exI conjI allI)
  show "thread_reach a i cb (mkEventLoopThread num nm) (hung_thread a i cb num nm)"
    using steps_reach [OF hung_thread_steps] .
  show "\<not> thread_step a i cb (hung_thread a i cb num nm) t" for t by (rule hung_thread_stuck)
qed (simp_all add: hung_thread_def returned_thread_def mkThread_def setDefaultName_def)

end
