(* ===== verification/Connection.thy ===== *)
theory Connection
  imports Net_Buffer Event_Loop "HOL-Library.Sublist"
begin

text \<open>
  \<^verbatim>\<open>mymuduo/TcpConnection\<close> (and \<^verbatim>\<open>Socket::shutdownWrite\<close>).  The state \<open>net\<close> holds every connection
  object and every loop by its address, the running thread, and the application's own state
  \<open>usr\<close>; an operation of a connection is a function on it, so that a callback can reach all of
  them, as in the code.  The \<^verbatim>\<open>std::function\<close> members are the record \<open>callbacks\<close>; a callback may
  throw, which ends the process (\<open>Inl\<close>).

  The environment of a connection: \<open>kwrites\<close> are the results of the coming \<^verbatim>\<open>write\<close> calls on its
  socket (an exhausted list answers \<^verbatim>\<open>EWOULDBLOCK\<close>), \<open>wire\<close> the bytes the kernel has taken, and
  \<open>halfClosed\<close> whether \<^verbatim>\<open>shutdown(SHUT_WR)\<close> has been called.

  \<^verbatim>\<open>TcpConnection::send\<close> from another thread binds the \<^emph>\<open>address\<close> of the caller's characters into the
  functor.  When the functor runs, the caller's string is gone; what the functor then reads at this
  address is \<open>stale net s\<close>, an arbitrary function of the position.
\<close>

section \<open>State\<close>

type_synonym cid = nat
type_synonym lid = nat

datatype StateE = kDisconnected | kDisconnecting | kConnected | kConnecting

record conn =
  cn_name :: string
  cn_loop :: lid
  cn_state :: StateE
  cn_reading :: bool
  cn_cptr :: cptr
  cn_channel :: channel
  inputBuffer :: buffer
  outputBuffer :: buffer
  highWaterMark :: nat
  hasWriteComplete :: bool
  hasHighWaterMark :: bool
  kwrites :: "write_result list"
  wire :: string
  halfClosed :: bool

datatype loop_functor =
    FSendInLoop cid string        \<comment> \<open>the pointer into this string, and its size\<close>
  | FShutdownInLoop cid
  | FConnectEstablished cid
  | FConnectDestroyed cid
  | FRemoveConnectionInLoop cid
  | FListen
  | FWriteComplete cid
  | FHighWaterMark cid nat

record 'u net =
  conns :: "cid \<Rightarrow> conn"
  evloops :: "lid \<Rightarrow> loop_functor event_loop"
  curThread :: nat
  stale :: "string \<Rightarrow> nat \<Rightarrow> char"
  usr :: 'u

record 'u callbacks =
  connectionCallback :: "cid \<Rightarrow> 'u net \<Rightarrow> 'u net result"
  messageCallback :: "cid \<Rightarrow> int \<Rightarrow> 'u net \<Rightarrow> 'u net result"
  closeCb :: "cid \<Rightarrow> 'u net \<Rightarrow> 'u net result"
  writeCompleteCallback :: "cid \<Rightarrow> 'u net \<Rightarrow> 'u net result"
  highWaterMarkCallback :: "cid \<Rightarrow> nat \<Rightarrow> 'u net \<Rightarrow> 'u net result"

definition EAGAIN :: int where "EAGAIN = 11"
definition EWOULDBLOCK :: int where "EWOULDBLOCK = EAGAIN"
definition EPIPE :: int where "EPIPE = 32"
definition ECONNRESET :: int where "ECONNRESET = 104"

definition kHighWaterMark :: nat where "kHighWaterMark = 64 * 1024 * 1024"

definition mkTcpConnection :: "lid \<Rightarrow> string \<Rightarrow> int \<Rightarrow> cptr \<Rightarrow> write_result list \<Rightarrow> conn" where
  "mkTcpConnection l nameArg sockfd p ks =
     \<lparr>cn_name = nameArg, cn_loop = l, cn_state = kConnecting, cn_reading = True, cn_cptr = p,
      cn_channel = setErrorCallback (setCloseCallback (setWriteCallback (setReadCallback (mkChannel sockfd)))),
      inputBuffer = mkBuffer kInitialSize, outputBuffer = mkBuffer kInitialSize,
      highWaterMark = kHighWaterMark, hasWriteComplete = False, hasHighWaterMark = False,
      kwrites = ks, wire = [], halfClosed = False\<rparr>"

section \<open>Access to the state\<close>

definition upd_conn :: "cid \<Rightarrow> (conn \<Rightarrow> conn) \<Rightarrow> 'u net \<Rightarrow> 'u net" where
  "upd_conn c f net = net\<lparr>conns := (conns net)(c := f (conns net c))\<rparr>"

definition upd_loop :: "lid \<Rightarrow> (loop_functor event_loop \<Rightarrow> loop_functor event_loop) \<Rightarrow> 'u net \<Rightarrow> 'u net" where
  "upd_loop l f net = net\<lparr>evloops := (evloops net)(l := f (evloops net l))\<rparr>"

definition setState :: "cid \<Rightarrow> StateE \<Rightarrow> 'u net \<Rightarrow> 'u net" where
  "setState c s = upd_conn c (\<lambda>k. k\<lparr>cn_state := s\<rparr>)"

text \<open>The setters of the two optional callbacks: whether one is set, and for the second its mark.\<close>

definition setWriteCompleteCallback :: "bool \<Rightarrow> conn \<Rightarrow> conn" where
  "setWriteCompleteCallback has k = k\<lparr>hasWriteComplete := has\<rparr>"

definition setHighWaterMarkCallback :: "bool \<Rightarrow> nat \<Rightarrow> conn \<Rightarrow> conn" where
  "setHighWaterMarkCallback has mark k = k\<lparr>hasHighWaterMark := has, highWaterMark := mark\<rparr>"

definition connected :: "cid \<Rightarrow> 'u net \<Rightarrow> bool" where
  "connected c net \<longleftrightarrow> cn_state (conns net c) = kConnected"

definition inLoopThread :: "lid \<Rightarrow> 'u net \<Rightarrow> bool" where
  "inLoopThread l net \<longleftrightarrow> isInLoopThread (curThread net) (evloops net l)"

text \<open>An operation of the connection's channel, which updates the poller of its loop.\<close>

definition on_channel ::
  "(cptr \<Rightarrow> epoll \<times> channel \<Rightarrow> epoll \<times> channel) \<Rightarrow> cid \<Rightarrow> 'u net \<Rightarrow> 'u net" where
  "on_channel oper c net =
     (let k = conns net c;
          r = oper (cn_cptr k) (poller (evloops net (cn_loop k)), cn_channel k)
      in upd_loop (cn_loop k) (\<lambda>l. l\<lparr>poller := fst r\<rparr>)
           (upd_conn c (\<lambda>k. k\<lparr>cn_channel := snd r\<rparr>) net))"

definition queue_in :: "lid \<Rightarrow> loop_functor \<Rightarrow> 'u net \<Rightarrow> 'u net" where
  "queue_in l f net = upd_loop l (queueInLoop (curThread net) f) net"

text \<open>\<^verbatim>\<open>EventLoop::runInLoop\<close>: \<open>f\<close> is the functor as it is queued, \<open>body\<close> what calling it does.\<close>

definition runInLoop :: "lid \<Rightarrow> loop_functor \<Rightarrow> ('u net \<Rightarrow> 'u net result) \<Rightarrow> 'u net \<Rightarrow> 'u net result" where
  "runInLoop l f body net = (if inLoopThread l net then body net else Inr (queue_in l f net))"

section \<open>Operations\<close>

text \<open>\<^verbatim>\<open>write(fd, data, len)\<close>.\<close>

definition sock_write :: "cid \<Rightarrow> string \<Rightarrow> 'u net \<Rightarrow> write_result \<times> 'u net" where
  "sock_write c data net =
     (let ks = kwrites (conns net c);
          r = (case ks of [] \<Rightarrow> WriteErr EWOULDBLOCK
               | WriteOk n # _ \<Rightarrow> WriteOk (min n (length data))
               | WriteErr e # _ \<Rightarrow> WriteErr e)
      in (r, upd_conn c (\<lambda>k. k\<lparr>kwrites := tl ks,
                wire := wire k @ (case r of WriteOk n \<Rightarrow> take n data | WriteErr _ \<Rightarrow> [])\<rparr>) net))"

definition direct_write :: "cid \<Rightarrow> string \<Rightarrow> 'u net \<Rightarrow> (nat \<times> nat \<times> bool) \<times> 'u net" where
  "direct_write c data net =
     (let k = conns net c; len = length data in
      if \<not> isWriting (cn_channel k) \<and> readableBytes (outputBuffer k) = 0 then
        (case sock_write c data net of
           (WriteOk nwrote, net) \<Rightarrow>
             (let remaining = len - nwrote
              in ((nwrote, remaining, False),
                  if remaining = 0 \<and> hasWriteComplete k then queue_in (cn_loop k) (FWriteComplete c) net
                  else net))
         | (WriteErr e, net) \<Rightarrow>
             ((0, len, e \<noteq> EWOULDBLOCK \<and> (e = EPIPE \<or> e = ECONNRESET)), net))
      else ((0, len, False), net))"

definition buffer_rest :: "cid \<Rightarrow> string \<Rightarrow> 'u net \<Rightarrow> 'u net" where
  "buffer_rest c rest net =
     (let k = conns net c;
          oldLen = readableBytes (outputBuffer k);
          remaining = length rest;
          net = (if oldLen + remaining \<ge> highWaterMark k \<and> oldLen < highWaterMark k \<and> hasHighWaterMark k
                 then queue_in (cn_loop k) (FHighWaterMark c (oldLen + remaining)) net else net);
          net = upd_conn c (\<lambda>k. k\<lparr>outputBuffer := append_buf rest (outputBuffer k)\<rparr>) net
      in if \<not> isWriting (cn_channel k) then on_channel enableWriting c net else net)"

definition sendInLoop :: "cid \<Rightarrow> string \<Rightarrow> 'u net \<Rightarrow> 'u net" where
  "sendInLoop c data net =
     (if cn_state (conns net c) = kDisconnected then net
      else case direct_write c data net of
        ((nwrote, remaining, faultError), net) \<Rightarrow>
          if \<not> faultError \<and> remaining > 0 then buffer_rest c (drop nwrote data) net else net)"

definition shutdownWrite :: "cid \<Rightarrow> 'u net \<Rightarrow> 'u net" where
  "shutdownWrite c = upd_conn c (\<lambda>k. k\<lparr>halfClosed := True\<rparr>)"

definition shutdownInLoop :: "cid \<Rightarrow> 'u net \<Rightarrow> 'u net" where
  "shutdownInLoop c net = (if \<not> isWriting (cn_channel (conns net c)) then shutdownWrite c net else net)"

definition send :: "cid \<Rightarrow> string \<Rightarrow> 'u net \<Rightarrow> 'u net" where
  "send c buf net =
     (if cn_state (conns net c) = kConnected then
        (let l = cn_loop (conns net c) in
         if inLoopThread l net then sendInLoop c buf net else queue_in l (FSendInLoop c buf) net)
      else net)"

definition send_buffer :: "cid \<Rightarrow> buffer \<Rightarrow> 'u net \<Rightarrow> 'u net" where
  "send_buffer c buf net =
     (if cn_state (conns net c) = kConnected then
        (let l = cn_loop (conns net c) in
         if inLoopThread l net then sendInLoop c (content buf) net
         else queue_in l (FSendInLoop c (content buf)) net)
      else net)"

definition shutdown :: "cid \<Rightarrow> 'u net \<Rightarrow> 'u net" where
  "shutdown c net =
     (if cn_state (conns net c) = kConnected then
        (let net = setState c kDisconnecting net; l = cn_loop (conns net c) in
         if inLoopThread l net then shutdownInLoop c net else queue_in l (FShutdownInLoop c) net)
      else net)"

definition connectEstablished :: "'u callbacks \<Rightarrow> cid \<Rightarrow> 'u net \<Rightarrow> 'u net result" where
  "connectEstablished cb c net =
     (let net = setState c kConnected net;
          net = upd_conn c (\<lambda>k. k\<lparr>cn_channel := tie (cn_channel k)\<rparr>) net;
          net = on_channel enableReading c net
      in connectionCallback cb c net)"

definition connectDestroyed :: "'u callbacks \<Rightarrow> cid \<Rightarrow> 'u net \<Rightarrow> 'u net result" where
  "connectDestroyed cb c net =
     rbind (if cn_state (conns net c) = kConnected then
              connectionCallback cb c (on_channel disableAll c (setState c kDisconnected net))
            else Inr net)
       (\<lambda>net. Inr (on_channel removeChannel c net))"

definition handleClose :: "'u callbacks \<Rightarrow> cid \<Rightarrow> 'u net \<Rightarrow> 'u net result" where
  "handleClose cb c net =
     rbind (connectionCallback cb c (on_channel disableAll c (setState c kDisconnected net)))
       (closeCb cb c)"

text \<open>\<^verbatim>\<open>handleError\<close> reads \<^verbatim>\<open>SO_ERROR\<close> and logs it.\<close>

definition handleError :: "cid \<Rightarrow> 'u net \<Rightarrow> 'u net" where
  "handleError c net = net"

definition handleRead_conn ::
  "'u callbacks \<Rightarrow> cid \<Rightarrow> int \<Rightarrow> read_result \<Rightarrow> 'u net \<Rightarrow> 'u net result" where
  "handleRead_conn cb c receiveTime r net =
     (let (n, b) = readFd r (inputBuffer (conns net c));
          net = upd_conn c (\<lambda>k. k\<lparr>inputBuffer := b\<rparr>) net
      in if n > 0 then messageCallback cb c receiveTime net
         else if n = 0 then handleClose cb c net
         else Inr (handleError c net))"

definition handleWrite :: "cid \<Rightarrow> 'u net \<Rightarrow> 'u net" where
  "handleWrite c net =
     (let k = conns net c in
      if isWriting (cn_channel k) then
        (case sock_write c (content (outputBuffer k)) net of
           (WriteOk n, net) \<Rightarrow>
             if n > 0 then
               (let b = retrieve n (outputBuffer k);
                    net = upd_conn c (\<lambda>k. k\<lparr>outputBuffer := b\<rparr>) net
                in if readableBytes b = 0 then
                     (let net = on_channel disableWriting c net;
                          net = (if hasWriteComplete k then queue_in (cn_loop k) (FWriteComplete c) net else net)
                      in if cn_state k = kDisconnecting then shutdownInLoop c net else net)
                   else net)
             else net
         | (WriteErr _, net) \<Rightarrow> net)
      else net)"

text \<open>The handlers that the channel calls for an event.\<close>

fun on_event ::
  "'u callbacks \<Rightarrow> cid \<Rightarrow> int \<Rightarrow> read_result \<Rightarrow> event_cb \<Rightarrow> 'u net \<Rightarrow> 'u net result" where
  "on_event cb c t r CbClose net = handleClose cb c net"
| "on_event cb c t r CbError net = Inr (handleError c net)"
| "on_event cb c t r CbRead net = handleRead_conn cb c t r net"
| "on_event cb c t r CbWrite net = Inr (handleWrite c net)"

fun on_events ::
  "'u callbacks \<Rightarrow> cid \<Rightarrow> int \<Rightarrow> read_result \<Rightarrow> event_cb list \<Rightarrow> 'u net \<Rightarrow> 'u net result" where
  "on_events cb c t r [] net = Inr net"
| "on_events cb c t r (e # es) net = rbind (on_event cb c t r e net) (on_events cb c t r es)"

section \<open>What the operations leave alone\<close>

lemma conns_upd_conn [simp]: "conns (upd_conn c f net) = (conns net)(c := f (conns net c))"
  by (simp add: upd_conn_def)

lemma conns_frame [simp]:
  "conns (upd_loop l g net) = conns net" "conns (queue_in l q net) = conns net"
  by (simp_all add: upd_loop_def queue_in_def)

lemma conns_on_channel [simp]:
  "conns (on_channel oper c net) =
     (conns net)(c := (conns net c)\<lparr>cn_channel :=
        snd (oper (cn_cptr (conns net c)) (poller (evloops net (cn_loop (conns net c))), cn_channel (conns net c)))\<rparr>)"
  by (simp add: on_channel_def Let_def)

lemma conns_setState [simp]: "conns (setState c s net) = (conns net)(c := (conns net c)\<lparr>cn_state := s\<rparr>)"
  by (simp add: setState_def)

lemma conns_shutdownWrite [simp]:
  "conns (shutdownWrite c net) = (conns net)(c := (conns net c)\<lparr>halfClosed := True\<rparr>)"
  by (simp add: shutdownWrite_def)

lemma usr_frame [simp]:
  "usr (upd_conn c f net) = usr net" "usr (upd_loop l g net) = usr net"
  "usr (queue_in l q net) = usr net" "usr (on_channel oper c net) = usr net"
  "usr (setState c s net) = usr net" "usr (shutdownWrite c net) = usr net"
  by (simp_all add: upd_conn_def upd_loop_def queue_in_def on_channel_def setState_def shutdownWrite_def Let_def)

lemma thread_frame [simp]:
  "curThread (upd_conn c f net) = curThread net" "curThread (upd_loop l g net) = curThread net"
  "curThread (queue_in l q net) = curThread net" "curThread (on_channel oper c net) = curThread net"
  "curThread (setState c s net) = curThread net" "curThread (shutdownWrite c net) = curThread net"
  "stale (upd_conn c f net) = stale net" "stale (upd_loop l g net) = stale net"
  "stale (queue_in l q net) = stale net" "stale (on_channel oper c net) = stale net"
  "stale (setState c s net) = stale net" "stale (shutdownWrite c net) = stale net"
  by (simp_all add: upd_conn_def upd_loop_def queue_in_def on_channel_def setState_def shutdownWrite_def Let_def)

lemma threadId_queueInLoop [simp]: "threadId (queueInLoop tid f l) = threadId l"
  by (simp add: queueInLoop_def Let_def)

lemma loop_threads [simp]:
  "threadId (evloops (upd_conn c f net) l) = threadId (evloops net l)"
  "threadId (evloops (queue_in l' q net) l) = threadId (evloops net l)"
  "threadId (evloops (on_channel oper c net) l) = threadId (evloops net l)"
  "threadId (evloops (setState c s net) l) = threadId (evloops net l)"
  "threadId (evloops (shutdownWrite c net) l) = threadId (evloops net l)"
  by (simp_all add: upd_conn_def upd_loop_def queue_in_def on_channel_def setState_def shutdownWrite_def Let_def)

lemma inLoopThread_frame [simp]:
  "inLoopThread l (upd_conn c f net) = inLoopThread l net"
  "inLoopThread l (queue_in l' q net) = inLoopThread l net"
  "inLoopThread l (on_channel oper c net) = inLoopThread l net"
  "inLoopThread l (setState c s net) = inLoopThread l net"
  "inLoopThread l (shutdownWrite c net) = inLoopThread l net"
  by (simp_all add: inLoopThread_def isInLoopThread_def)

section \<open>Well-formed connections and their stream\<close>

definition conn_wf :: "conn \<Rightarrow> bool" where
  "conn_wf k \<longleftrightarrow> buffer_inv (inputBuffer k) \<and> buffer_inv (outputBuffer k) \<and>
     (isWriting (cn_channel k) \<longleftrightarrow> cn_state k \<noteq> kDisconnected \<and> content (outputBuffer k) \<noteq> [])"

text \<open>Everything the connection has taken responsibility for: what the kernel has and what waits.\<close>

definition stream :: "conn \<Rightarrow> string" where
  "stream k = wire k @ content (outputBuffer k)"

text \<open>The peer neither resets nor closes under the coming writes.\<close>

definition healthy :: "conn \<Rightarrow> bool" where
  "healthy k \<longleftrightarrow> WriteErr EPIPE \<notin> set (kwrites k) \<and> WriteErr ECONNRESET \<notin> set (kwrites k)"

lemma conn_wfD:
  "conn_wf k \<Longrightarrow> buffer_inv (inputBuffer k)" "conn_wf k \<Longrightarrow> buffer_inv (outputBuffer k)"
  "conn_wf k \<Longrightarrow> cn_state k \<noteq> kDisconnected \<Longrightarrow> isWriting (cn_channel k) \<longleftrightarrow> content (outputBuffer k) \<noteq> []"
  "conn_wf k \<Longrightarrow> cn_state k = kDisconnected \<Longrightarrow> \<not> isWriting (cn_channel k)"
  by (simp_all add: conn_wf_def)

lemma mkTcpConnection_wf [invs]: "conn_wf (mkTcpConnection l n sockfd p ks)"
  by (simp add: conn_wf_def mkTcpConnection_def setReadCallback_def setWriteCallback_def
      setCloseCallback_def setErrorCallback_def mkChannel_def isWriting_def)

text \<open>The outcome of a \<^verbatim>\<open>write\<close> on a socket.\<close>

lemma sock_write_cases:
  obtains (ok) n where "sock_write c data net = (WriteOk n, upd_conn c (\<lambda>k. k\<lparr>kwrites := tl (kwrites (conns net c)),
      wire := wire k @ take n data\<rparr>) net)" "n \<le> length data"
    "\<exists>m ks. kwrites (conns net c) = WriteOk m # ks \<and> n = min m (length data)"
  | (err) e where "sock_write c data net = (WriteErr e, upd_conn c (\<lambda>k. k\<lparr>kwrites := tl (kwrites (conns net c))\<rparr>) net)"
    "healthy (conns net c) \<longrightarrow> e \<noteq> EPIPE \<and> e \<noteq> ECONNRESET"
proof (cases "kwrites (conns net c)")
  case Nil
  then show ?thesis
    by (intro err [of EWOULDBLOCK])
      (simp_all add: sock_write_def upd_conn_def EWOULDBLOCK_def EAGAIN_def EPIPE_def ECONNRESET_def)
next
  case (Cons r ks)
  show ?thesis
  proof (cases r)
    case (WriteErr e)
    then show ?thesis using Cons
      by (intro err [of e]) (auto simp: sock_write_def upd_conn_def healthy_def)
  next
    case (WriteOk m)
    then show ?thesis using Cons
      by (intro ok [of "min m (length data)"]) (auto simp: sock_write_def upd_conn_def)
  qed
qed

lemma healthy_tl: "healthy k \<Longrightarrow> healthy (k\<lparr>kwrites := tl (kwrites k)\<rparr>)"
  by (cases "kwrites k") (auto simp: healthy_def)

lemma buffer_rest_conn:
  fixes net :: "'u net"
  assumes "conn_wf (conns net c)" and "cn_state (conns net c) \<noteq> kDisconnected" and "rest \<noteq> []"
  defines "k' \<equiv> conns (buffer_rest c rest net) c"
  shows "conn_wf k' \<and> stream k' = stream (conns net c) @ rest \<and> wire k' = wire (conns net c)
    \<and> cn_state k' = cn_state (conns net c) \<and> halfClosed k' = halfClosed (conns net c)
    \<and> kwrites k' = kwrites (conns net c)"
  using assms by (auto simp: buffer_rest_def Let_def conn_wf_def stream_def)

lemma conns_buffer_rest_other: "d \<noteq> c \<Longrightarrow> conns (buffer_rest c rest net) d = conns net d"
  by (simp add: buffer_rest_def Let_def)

lemma conn_wf_wire [simp]: "conn_wf (k\<lparr>kwrites := ks, wire := w\<rparr>) = conn_wf k"
  "conn_wf (k\<lparr>kwrites := ks\<rparr>) = conn_wf k"
  by (simp_all add: conn_wf_def)

lemma stream_wire [simp]:
  "stream (k\<lparr>kwrites := ks, wire := w\<rparr>) = w @ content (outputBuffer k)"
  "stream (k\<lparr>kwrites := ks\<rparr>) = stream k"
  by (simp_all add: stream_def)

lemma healthy_wire [simp]: "healthy (k\<lparr>kwrites := ks, wire := w\<rparr>) = healthy (k\<lparr>kwrites := ks\<rparr>)"
  by (simp add: healthy_def)

lemma direct_write_busy:
  "conn_wf (conns net c) \<Longrightarrow> content (outputBuffer (conns net c)) \<noteq> [] \<Longrightarrow>
    direct_write c data net = ((0, length data, False), net)"
  using conn_wfD(2) [of "conns net c"] by (simp add: direct_write_def Let_def readableBytes_eq)

lemma direct_write_idle:
  fixes net :: "'u net"
  assumes wf: "conn_wf (conns net c)" and st: "cn_state (conns net c) \<noteq> kDisconnected"
    and e: "content (outputBuffer (conns net c)) = []"
  obtains n net' where "direct_write c data net = ((n, length data - n, False), net')" "n \<le> length data"
    "conns net' = (conns net)(c := (conns net c)\<lparr>kwrites := tl (kwrites (conns net c)),
        wire := wire (conns net c) @ take n data\<rparr>)"
  | net' where "direct_write c data net = ((0, length data, True), net')"
    "conns net' = (conns net)(c := (conns net c)\<lparr>kwrites := tl (kwrites (conns net c))\<rparr>)"
    "\<not> healthy (conns net c)"
proof -
  have cond: "\<not> isWriting (cn_channel (conns net c)) \<and> readableBytes (outputBuffer (conns net c)) = 0"
    using conn_wfD [OF wf] st e by simp
  show ?thesis
  proof (cases rule: sock_write_cases [where c = c and data = data and net = net])
    case (ok n)
    then show ?thesis using cond
      by (intro that(1)) (auto simp: direct_write_def Let_def)
  next
    case (err x)
    show ?thesis
    proof (cases "x = EPIPE \<or> x = ECONNRESET")
      case True
      then have "x \<noteq> EWOULDBLOCK" by (auto simp: EPIPE_def ECONNRESET_def EWOULDBLOCK_def EAGAIN_def)
      then show ?thesis using cond err True
        by (intro that(2)) (auto simp: direct_write_def Let_def)
    next
      case False
      then show ?thesis using cond err
        by (intro that(1) [of 0]) (auto simp: direct_write_def Let_def)
    qed
  qed
qed

lemma sendInLoop_conn:
  fixes net :: "'u net" and data :: string
  assumes wf: "conn_wf (conns net c)" and st: "cn_state (conns net c) \<noteq> kDisconnected"
    and h: "healthy (conns net c)"
  defines "k' \<equiv> conns (sendInLoop c data net) c"
  shows "conn_wf k' \<and> stream k' = stream (conns net c) @ data \<and> prefix (wire (conns net c)) (wire k')
    \<and> cn_state k' = cn_state (conns net c) \<and> halfClosed k' = halfClosed (conns net c) \<and> healthy k'"
proof (cases "content (outputBuffer (conns net c)) = []")
  case False
  then show ?thesis
    using direct_write_busy [OF wf False, of data] st wf h buffer_rest_conn [OF wf st, of data]
    by (cases "data = []") (auto simp: k'_def sendInLoop_def healthy_def)
next
  case True
  from wf st True show ?thesis
  proof (cases rule: direct_write_idle [where data = data])
    case (1 n net')
    let ?k = "conns net' c"
    have k: "conn_wf ?k" "cn_state ?k \<noteq> kDisconnected" "stream ?k = stream (conns net c) @ take n data"
      "wire ?k = wire (conns net c) @ take n data" "healthy ?k"
      "cn_state ?k = cn_state (conns net c)" "halfClosed ?k = halfClosed (conns net c)"
      using 1 wf st True healthy_tl [OF h] by (simp_all add: stream_def)
    show ?thesis
    proof (cases "n = length data")
      case True
      then have "k' = ?k" using 1 st by (simp add: k'_def sendInLoop_def)
      then show ?thesis using k True by simp
    next
      case False
      then have ne: "drop n data \<noteq> []" "n < length data" using 1 by auto
      then have "k' = conns (buffer_rest c (drop n data) net') c"
        using 1 st by (simp add: k'_def sendInLoop_def)
      then show ?thesis using buffer_rest_conn [OF k(1,2) ne(1)] k by (auto simp: healthy_def)
    qed
  next
    case (2 net')
    then show ?thesis using h by simp
  qed
qed

lemma sendInLoop_disconnected [simp]:
  "cn_state (conns net c) = kDisconnected \<Longrightarrow> sendInLoop c data net = net"
  by (simp add: sendInLoop_def)

lemma handleWrite_idle [simp]:
  "\<not> isWriting (cn_channel (conns net c)) \<Longrightarrow> handleWrite c net = net"
  by (simp add: handleWrite_def Let_def)

lemma handleWrite_conn:
  fixes net :: "'u net"
  assumes wf: "conn_wf (conns net c)" and st: "cn_state (conns net c) \<noteq> kDisconnected"
  defines "k \<equiv> conns net c" and "k' \<equiv> conns (handleWrite c net) c"
  shows "conn_wf k' \<and> stream k' = stream k \<and> prefix (wire k) (wire k') \<and> cn_state k' = cn_state k
    \<and> (healthy k \<longrightarrow> healthy k') \<and> (halfClosed k' \<longrightarrow> halfClosed k \<or> content (outputBuffer k') = [])"
proof (cases "isWriting (cn_channel (conns net c))")
  case False
  then show ?thesis using wf by (simp add: k_def k'_def)
next
  case True
  note inv = conn_wfD(2) [OF wf]
  show ?thesis
  proof (cases rule: sock_write_cases [where c = c and data = "content (outputBuffer (conns net c))" and net = net])
    case (err e)
    then show ?thesis using True wf healthy_tl [of "conns net c"]
      by (simp add: handleWrite_def Let_def k_def k'_def)
  next
    case (ok n)
    have len: "readableBytes (outputBuffer (conns net c)) = length (content (outputBuffer (conns net c)))"
      using inv by (simp add: readableBytes_eq)
    show ?thesis
    proof (cases "n = 0")
      case True': True
      then show ?thesis using True wf healthy_tl [of "conns net c"] ok
        by (simp add: handleWrite_def Let_def k_def k'_def stream_def)
    next
      case False
      then show ?thesis using True wf inv ok healthy_tl [of "conns net c"] len st
        by (auto simp: handleWrite_def Let_def k_def k'_def stream_def conn_wf_def
            shutdownInLoop_def healthy_def)
    qed
  qed
qed

section \<open>What sending leaves alone\<close>

text \<open>The part of a state that sending and shutting down never change: the application, the running
  thread, and of every connection all but its output side.\<close>

definition rest_of :: "conn \<Rightarrow> string \<times> lid \<times> cptr \<times> buffer \<times> bool" where
  "rest_of k = (cn_name k, cn_loop k, cn_cptr k, inputBuffer k, cn_reading k)"

definition same_rest :: "'u net \<Rightarrow> 'u net \<Rightarrow> bool" where
  "same_rest net net' \<longleftrightarrow> usr net' = usr net \<and> curThread net' = curThread net \<and> stale net' = stale net \<and>
     (\<forall>l. threadId (evloops net' l) = threadId (evloops net l)) \<and>
     (\<forall>d. rest_of (conns net' d) = rest_of (conns net d))"

lemma same_rest_refl [simp]: "same_rest net net"
  by (simp add: same_rest_def)

lemma same_rest_trans: "same_rest a b \<Longrightarrow> same_rest b c \<Longrightarrow> same_rest a c"
  by (simp add: same_rest_def)

lemma same_restD:
  "same_rest net net' \<Longrightarrow> usr net' = usr net" "same_rest net net' \<Longrightarrow> curThread net' = curThread net"
  "same_rest net net' \<Longrightarrow> stale net' = stale net"
  "same_rest net net' \<Longrightarrow> inputBuffer (conns net' d) = inputBuffer (conns net d)"
  "same_rest net net' \<Longrightarrow> cn_loop (conns net' d) = cn_loop (conns net d)"
  "same_rest net net' \<Longrightarrow> cn_name (conns net' d) = cn_name (conns net d)"
  "same_rest net net' \<Longrightarrow> inLoopThread l net' = inLoopThread l net"
  by (auto simp: same_rest_def rest_of_def inLoopThread_def isInLoopThread_def)

lemma same_rest_steps [simp]:
  "same_rest a (queue_in l f net) = same_rest a net"
  "same_rest a (on_channel oper c net) = same_rest a net"
  "same_rest a (setState c s net) = same_rest a net"
  "same_rest a (shutdownWrite c net) = same_rest a net"
  by (auto simp: same_rest_def rest_of_def)

lemma same_rest_upd_conn [simp]:
  "(\<And>k. rest_of (g k) = rest_of k) \<Longrightarrow> same_rest a (upd_conn c g net) = same_rest a net"
  by (auto simp: same_rest_def)

lemma rest_of_upd [simp]:
  "rest_of (k\<lparr>outputBuffer := b\<rparr>) = rest_of k" "rest_of (k\<lparr>kwrites := ks\<rparr>) = rest_of k"
  "rest_of (k\<lparr>wire := w\<rparr>) = rest_of k"
  by (simp_all add: rest_of_def)

lemma same_rest_sock_write [simp]: "same_rest a (snd (sock_write c data net)) = same_rest a net"
  by (simp add: sock_write_def Let_def)

lemma same_rest_direct_write [simp]: "same_rest a (snd (direct_write c data net)) = same_rest a net"
proof -
  obtain r n where sw: "sock_write c data net = (r, n)" by fastforce
  then have "same_rest a n = same_rest a net" using same_rest_sock_write [of a c data net] by simp
  then show ?thesis by (simp add: direct_write_def sw Let_def split: write_result.split)
qed

lemma same_rest_buffer_rest [simp]: "same_rest a (buffer_rest c rest net) = same_rest a net"
  by (simp add: buffer_rest_def Let_def)

lemma same_rest_sendInLoop [simp]: "same_rest a (sendInLoop c data net) = same_rest a net"
  by (simp add: sendInLoop_def case_prod_unfold)

lemma same_rest_send [simp]: "same_rest a (send c data net) = same_rest a net"
  by (simp add: send_def Let_def)

lemma same_rest_shutdown [simp]: "same_rest a (shutdown c net) = same_rest a net"
  by (simp add: shutdown_def shutdownInLoop_def Let_def)

lemma buffer_rest_state [simp]: "cn_state (conns (buffer_rest c r net) d) = cn_state (conns net d)"
  by (simp add: buffer_rest_def Let_def)

lemma sendInLoop_other [simp]: "d \<noteq> c \<Longrightarrow> conns (sendInLoop c data net) d = conns net d"
proof -
  assume d: "d \<noteq> c"
  have "conns (snd (direct_write c data net)) d = conns net d"
    using d by (auto simp: direct_write_def sock_write_def Let_def split: list.split write_result.split)
  then show ?thesis using d by (auto simp: sendInLoop_def case_prod_unfold conns_buffer_rest_other)
qed

lemma send_other [simp]: "d \<noteq> c \<Longrightarrow> conns (send c data net) d = conns net d"
  by (simp add: send_def Let_def)

lemma sendInLoop_state [simp]: "cn_state (conns (sendInLoop c data net) d) = cn_state (conns net d)"
proof -
  have "cn_state (conns (snd (direct_write c data net)) d) = cn_state (conns net d)"
    by (auto simp: direct_write_def sock_write_def Let_def split: list.split write_result.split)
  then show ?thesis by (auto simp: sendInLoop_def case_prod_unfold)
qed

lemma send_state [simp]: "cn_state (conns (send c data net) d) = cn_state (conns net d)"
  by (simp add: send_def Let_def)

lemma connected_send [simp]: "connected d (send c data net) = connected d net"
  by (simp add: connected_def)

section \<open>Ready connections\<close>

text \<open>A connection that is up, in order and handled by its own thread.\<close>

definition ready :: "cid \<Rightarrow> 'u net \<Rightarrow> bool" where
  "ready c net \<longleftrightarrow> conn_wf (conns net c) \<and> healthy (conns net c) \<and> connected c net \<and>
     inLoopThread (cn_loop (conns net c)) net"

lemma send_ready:
  assumes "ready c net"
  shows "ready c (send c d net)" and "stream (conns (send c d net) c) = stream (conns net c) @ d"
proof -
  have e: "send c d net = sendInLoop c d net" using assms by (simp add: ready_def send_def connected_def)
  have k: "conn_wf (conns (send c d net) c) \<and> stream (conns (send c d net) c) = stream (conns net c) @ d \<and>
      healthy (conns (send c d net) c)"
    using sendInLoop_conn [of net c d] assms unfolding e by (simp add: ready_def connected_def)
  moreover have "cn_loop (conns (send c d net) c) = cn_loop (conns net c)"
    and "inLoopThread l (send c d net) = inLoopThread l net" for l
    using same_restD [of net "send c d net"] by simp_all
  ultimately show "ready c (send c d net)" "stream (conns (send c d net) c) = stream (conns net c) @ d"
    using assms by (simp_all add: ready_def)
qed

lemma shutdown_ready:
  assumes "ready c net"
  shows "cn_state (conns (shutdown c net) c) = kDisconnecting"
    and "stream (conns (shutdown c net) c) = stream (conns net c)"
    and "halfClosed (conns (shutdown c net) c) \<or> content (outputBuffer (conns (shutdown c net) c)) \<noteq> []"
  using assms
  by (auto simp: ready_def shutdown_def connected_def shutdownInLoop_def stream_def conn_wf_def Let_def
      shutdownWrite_def setState_def)

section \<open>Runs of one connection\<close>

text \<open>Whatever happens to a connection, from its loop, from the application or from another thread,
  is a sequence of these steps.\<close>

datatype conn_ev = EvSend string | EvSendInLoop string | EvShutdown | EvShutdownInLoop | EvWritable
  | EvReadable read_result | EvRetrieve nat | EvClose

fun conn_step :: "cid \<Rightarrow> conn_ev \<Rightarrow> 'u net \<Rightarrow> 'u net" where
  "conn_step c (EvSend d) net = send c d net"
| "conn_step c (EvSendInLoop d) net = sendInLoop c d net"
| "conn_step c EvShutdown net = shutdown c net"
| "conn_step c EvShutdownInLoop net = shutdownInLoop c net"
| "conn_step c EvWritable net = handleWrite c net"
| "conn_step c (EvReadable r) net =
     upd_conn c (\<lambda>k. k\<lparr>inputBuffer := snd (readFd r (inputBuffer k))\<rparr>) net"
| "conn_step c (EvRetrieve n) net = upd_conn c (\<lambda>k. k\<lparr>inputBuffer := retrieve n (inputBuffer k)\<rparr>) net"
| "conn_step c EvClose net = on_channel disableAll c (setState c kDisconnected net)"

text \<open>The bytes a step hands to the connection.\<close>

fun offered :: "cid \<Rightarrow> conn_ev \<Rightarrow> 'u net \<Rightarrow> string" where
  "offered c (EvSend d) net = (if connected c net \<and> inLoopThread (cn_loop (conns net c)) net then d else [])"
| "offered c (EvSendInLoop d) net = (if cn_state (conns net c) = kDisconnected then [] else d)"
| "offered c _ net = []"

fun offered_run :: "cid \<Rightarrow> conn_ev list \<Rightarrow> 'u net \<Rightarrow> string" where
  "offered_run c [] net = []"
| "offered_run c (e # es) net = offered c e net @ offered_run c es (conn_step c e net)"

definition conn_good :: "cid \<Rightarrow> 'u net \<Rightarrow> bool" where
  "conn_good c net \<longleftrightarrow> conn_wf (conns net c) \<and> healthy (conns net c)"

text \<open>The connection closes its side only with nothing left to send.\<close>

definition closes_drained :: "conn \<Rightarrow> conn \<Rightarrow> bool" where
  "closes_drained k k' \<longleftrightarrow>
     (halfClosed k' \<and> \<not> halfClosed k \<and> cn_state k \<noteq> kDisconnected \<longrightarrow> content (outputBuffer k') = [])"

lemma conn_step_good:
  fixes net :: "'u net" and e :: conn_ev
  assumes "conn_good c net"
  defines "k \<equiv> conns net c" and "k' \<equiv> conns (conn_step c e net) c"
  shows "conn_good c (conn_step c e net) \<and> stream k' = stream k @ offered c e net
    \<and> prefix (wire k) (wire k') \<and> closes_drained k k'"
proof -
  have g: "conn_wf k" "healthy k" using assms by (simp_all add: conn_good_def)
  have same: ?thesis if "conn_wf k'" "stream k' = stream k" "healthy k'" "prefix (wire k) (wire k')"
      "closes_drained k k'" "offered c e net = []"
    using that by (simp add: conn_good_def k'_def)
  show ?thesis
  proof (cases e)
    case (EvSend d)
    then show ?thesis
      using g sendInLoop_conn [of net c d] unfolding conn_good_def closes_drained_def k_def k'_def
      by (auto simp: send_def connected_def Let_def)
  next
    case (EvSendInLoop d)
    then show ?thesis
      using g sendInLoop_conn [of net c d] unfolding conn_good_def closes_drained_def k_def k'_def
      by (cases "cn_state k = kDisconnected") (simp_all add: k_def)
  next
    case EvShutdown
    then show ?thesis
      using g by (intro same)
        (auto simp: k_def k'_def shutdown_def shutdownInLoop_def Let_def conn_wf_def stream_def
          healthy_def closes_drained_def)
  next
    case EvShutdownInLoop
    then show ?thesis
      using g by (intro same)
        (auto simp: k_def k'_def shutdownInLoop_def Let_def conn_wf_def stream_def
          healthy_def closes_drained_def)
  next
    case EvWritable
    show ?thesis
    proof (cases "cn_state k = kDisconnected")
      case True
      then show ?thesis
        using g EvWritable conn_wfD(4) [of k]
        by (intro same) (auto simp: k_def k'_def closes_drained_def)
    next
      case False
      then show ?thesis
        using g EvWritable handleWrite_conn [of net c]
        by (intro same) (auto simp: k_def k'_def closes_drained_def)
    qed
  next
    case (EvReadable r)
    then show ?thesis
      using g readFd_inv [of "inputBuffer k" r] by (intro same)
        (auto simp: k_def k'_def conn_wf_def stream_def healthy_def closes_drained_def)
  next
    case (EvRetrieve n)
    then show ?thesis
      using g by (intro same)
        (auto simp: k_def k'_def conn_wf_def stream_def healthy_def closes_drained_def)
  next
    case EvClose
    then show ?thesis
      using g by (intro same)
        (auto simp: k_def k'_def conn_wf_def stream_def healthy_def closes_drained_def)
  qed
qed


lemma conn_good_run:
  "conn_good c net \<Longrightarrow> conn_good c (fold (conn_step c) es net) \<and>
    stream (conns (fold (conn_step c) es net) c) = stream (conns net c) @ offered_run c es net \<and>
    prefix (wire (conns net c)) (wire (conns (fold (conn_step c) es net) c))"
proof (induction es arbitrary: net)
  case (Cons e es)
  have s: "conn_good c (conn_step c e net)"
    "stream (conns (conn_step c e net) c) = stream (conns net c) @ offered c e net"
    "prefix (wire (conns net c)) (wire (conns (conn_step c e net) c))"
    using conn_step_good [OF Cons.prems, of e] by simp_all
  then show ?case using Cons.IH [OF s(1)] prefix_order.trans [OF s(3)] by simp
qed simp

interpretation tcp: event_machine "conn_step c" "conn_good c" for c
  by unfold_locales (simp add: conn_step_good)

text \<open>Draining: writes that make progress empty the buffer and let a pending shutdown through.\<close>

lemma handleWrite_progress:
  fixes net :: "'u net"
  assumes wf: "conn_wf (conns net c)" and st: "cn_state (conns net c) = kDisconnecting"
    and ks: "kwrites (conns net c) = WriteOk m # ks" "m > 0"
    and ne: "content (outputBuffer (conns net c)) \<noteq> []"
  defines "k \<equiv> conns net c" and "k' \<equiv> conns (handleWrite c net) c"
  shows "conn_wf k' \<and> cn_state k' = kDisconnecting \<and> kwrites k' = ks
    \<and> content (outputBuffer k') = drop m (content (outputBuffer k)) \<and> stream k' = stream k
    \<and> (content (outputBuffer k') = [] \<longrightarrow> halfClosed k')"
proof -
  have w: "isWriting (cn_channel (conns net c))" and inv: "buffer_inv (outputBuffer (conns net c))"
    using conn_wfD [OF wf] st ne by simp_all
  let ?n = "min m (length (content (outputBuffer (conns net c))))"
  have sw: "sock_write c (content (outputBuffer (conns net c))) net = (WriteOk ?n,
      upd_conn c (\<lambda>k. k\<lparr>kwrites := ks, wire := wire k @ take ?n (content (outputBuffer (conns net c)))\<rparr>) net)"
    using ks by (simp add: sock_write_def upd_conn_def)
  have "?n > 0" using ks ne by simp
  then have e: "conns (handleWrite c net) c = k' \<and> kwrites k' = ks \<and>
      content (outputBuffer k') = drop ?n (content (outputBuffer k)) \<and>
      (content (outputBuffer k') = [] \<longrightarrow> halfClosed k')"
    using w inv st sw by (auto simp: handleWrite_def Let_def shutdownInLoop_def k_def k'_def)
  have "drop ?n (content (outputBuffer k)) = drop m (content (outputBuffer k))"
    by (simp add: k_def min_def)
  then show ?thesis using e handleWrite_conn [OF wf] st by (simp add: k_def k'_def)
qed

lemma handleWrite_drains:
  fixes net :: "'u net"
  assumes "conn_wf (conns net c)" and "cn_state (conns net c) = kDisconnecting"
    and "kwrites (conns net c) = map WriteOk ns @ ks" and "\<forall>n\<in>set ns. n > 0"
    and "content (outputBuffer (conns net c)) \<noteq> [] \<or> halfClosed (conns net c)"
    and "length (content (outputBuffer (conns net c))) \<le> length ns"
  shows "\<exists>i \<le> length ns. let k' = conns ((handleWrite c ^^ i) net) c in
    content (outputBuffer k') = [] \<and> halfClosed k' \<and> wire k' = stream (conns net c)"
  using assms
proof (induction ns arbitrary: net)
  case Nil
  then show ?case by (simp add: stream_def)
next
  case (Cons m ns)
  show ?case
  proof (cases "content (outputBuffer (conns net c)) = []")
    case True
    then show ?thesis using Cons.prems by (intro exI [of _ 0]) (simp add: stream_def)
  next
    case False
    let ?net = "handleWrite c net"
    have m: "m > 0" and ks: "kwrites (conns net c) = WriteOk m # (map WriteOk ns @ ks)"
      using Cons.prems by simp_all
    note P = handleWrite_progress [OF Cons.prems(1,2) ks m False]
    have "length (content (outputBuffer (conns ?net c))) \<le> length ns"
      using P Cons.prems(6) m by simp
    then obtain i where "i \<le> length ns" and i: "let k' = conns ((handleWrite c ^^ i) ?net) c in
        content (outputBuffer k') = [] \<and> halfClosed k' \<and> wire k' = stream (conns ?net c)"
      using Cons.IH [of ?net] P Cons.prems(4) by auto
    moreover have "stream (conns ?net c) = stream (conns net c)" using P by blast
    ultimately show ?thesis
      by (intro exI [of _ "Suc i"]) (simp add: Let_def funpow_swap1 del: funpow.simps, simp add: funpow_Suc_right del: funpow.simps)
  qed
qed

section \<open>A small concrete state\<close>

definition demo_loop :: "loop_functor event_loop" where
  "demo_loop = mkEventLoop 1 (mkEPollPoller (\<lambda>h c. True)) (init_queue Suc int) 0 5"

text \<open>One connected connection, owned by the running thread's loop, with \<open>waiting\<close> in its output
  buffer and the given results of the coming writes.\<close>

definition demo_conn :: "string \<Rightarrow> write_result list \<Rightarrow> conn" where
  "demo_conn waiting ks = (mkTcpConnection 0 ''c'' 9 3 ks)\<lparr>cn_state := kConnected,
     outputBuffer := append_buf waiting (mkBuffer kInitialSize),
     cn_channel := (mkChannel 9)\<lparr>events := (if waiting = [] then kReadEvent else kReadEvent OR kWriteEvent)\<rparr>\<rparr>"

definition demo_net :: "conn \<Rightarrow> 'u \<Rightarrow> 'u net" where
  "demo_net k u = \<lparr>conns = (\<lambda>_. k), evloops = (\<lambda>_. demo_loop), curThread = 1,
     stale = (\<lambda>s i. CHR 0x00), usr = u\<rparr>"

lemma demo_conn_wf: "conn_wf (demo_conn waiting ks)"
  by (simp add: conn_wf_def demo_conn_def mkTcpConnection_def isWriting_bit bit_or_iff
      bit_kReadEvent bit_kWriteEvent)

lemma demo_net_sel [simp]: "conns (demo_net k u) c = k" "usr (demo_net k u) = u"
  by (simp_all add: demo_net_def)

lemma demo_net_thread [simp]: "inLoopThread l (demo_net k u)"
  by (simp add: inLoopThread_def isInLoopThread_def demo_net_def demo_loop_def mkEventLoop_def
      Let_def case_prod_unfold)

lemma demo_conn_sel [simp]:
  "kwrites (demo_conn w ks) = ks" "cn_state (demo_conn w ks) = kConnected"
  "content (outputBuffer (demo_conn w ks)) = w" "wire (demo_conn w ks) = []"
  "halfClosed (demo_conn w ks) = False" "cn_loop (demo_conn w ks) = 0"
  by (simp_all add: demo_conn_def mkTcpConnection_def)

section \<open>Properties\<close>

text \<open>C1: the byte stream is intact.  Through any sequence of sends, kernel writes of any length,
  reads, shutdowns and the closing of the connection, the bytes the kernel has taken followed by the
  bytes in the output buffer are exactly the bytes handed to the connection, in order, none lost,
  repeated or reordered; what is on the wire is never taken back; and the channel asks for
  \<^verbatim>\<open>EPOLLOUT\<close> exactly while there is something to write and the connection is not closed.  (The peer
  does not reset the connection: after \<^verbatim>\<open>EPIPE\<close> or \<^verbatim>\<open>ECONNRESET\<close> the code drops the data.)\<close>

theorem stream_integrity:
  assumes "conn_wf (conns net c)" and "healthy (conns net c)"
  shows "let k' = conns (fold (conn_step c) es net) c in wire k' @ content (outputBuffer k') =
      wire (conns net c) @ content (outputBuffer (conns net c)) @ offered_run c es net
    \<and> prefix (wire (conns net c)) (wire k')
    \<and> (isWriting (cn_channel k') \<longleftrightarrow> cn_state k' \<noteq> kDisconnected \<and> content (outputBuffer k') \<noteq> [])"
proof -
  have g: "conn_good c net" using assms by (simp add: conn_good_def)
  show ?thesis
    using conn_good_run [OF g, of es] tcp.good_run [OF g, of es]
    by (simp add: Let_def stream_def conn_good_def conn_wf_def)
qed

theorem stream_integrity_witness:
  "let k' = conns (fold (conn_step 0) [EvSend ''hello'', EvWritable, EvSend ''!'', EvShutdown]
      (demo_net (demo_conn [] [WriteOk 2, WriteOk 1, WriteErr EAGAIN]) ())) 0
   in wire k' @ content (outputBuffer k') =
      offered_run 0 [EvSend ''hello'', EvWritable, EvSend ''!'', EvShutdown]
        (demo_net (demo_conn [] [WriteOk 2, WriteOk 1, WriteErr EAGAIN]) ())"
proof -
  let ?net = "demo_net (demo_conn [] [WriteOk 2, WriteOk 1, WriteErr EAGAIN]) ()"
  have w: "conn_wf (conns ?net 0)" by (simp add: demo_conn_wf)
  have h: "healthy (conns ?net 0)" by (simp add: healthy_def EAGAIN_def EPIPE_def ECONNRESET_def)
  show ?thesis
    using stream_integrity [OF w h, of "[EvSend ''hello'', EvWritable, EvSend ''!'', EvShutdown]"]
    by (simp add: Let_def del: fold_simps offered_run.simps)
qed

text \<open>A connection that is not already down closes its sending side (\<^verbatim>\<open>shutdown(SHUT_WR)\<close>) only at a
  moment when its output buffer is empty, in any run.\<close>

theorem half_close_only_drained:
  assumes "conn_wf (conns net c)" and "healthy (conns net c)"
  shows "let n1 = fold (conn_step c) es net in halfClosed (conns (conn_step c e n1) c) \<and> \<not> halfClosed (conns n1 c) \<and>
      cn_state (conns n1 c) \<noteq> kDisconnected \<longrightarrow>
    content (outputBuffer (conns (conn_step c e n1) c)) = []"
proof -
  have "conn_good c (fold (conn_step c) es net)"
    using assms by (intro tcp.good_run) (simp add: conn_good_def)
  then show ?thesis
    using conn_step_good [of c "fold (conn_step c) es net" e] by (simp add: closes_drained_def Let_def)
qed

theorem half_close_only_drained_witness:
  "halfClosed (conns (conn_step 0 EvShutdown (demo_net (demo_conn [] []) ())) 0) \<and>
   content (outputBuffer (conns (conn_step 0 EvShutdown (demo_net (demo_conn [] []) ())) 0)) = []"
proof -
  let ?net = "demo_net (demo_conn [] []) ()"
  have w: "conn_wf (conns ?net 0)" and h: "healthy (conns ?net 0)"
    by (simp_all add: demo_conn_wf healthy_def)
  have nw: "\<not> isWriting (cn_channel (demo_conn [] []))"
    using conn_wfD(3) [OF demo_conn_wf, of "[]" "[]"] by simp
  have c: "halfClosed (conns (conn_step 0 EvShutdown ?net) 0)"
    using nw by (simp add: shutdown_def shutdownInLoop_def Let_def)
  show ?thesis using half_close_only_drained [OF w h, of "[]" EvShutdown] c by simp
qed



end
