(* ===== verification/Server.thy ===== *)
theory Server
  imports Connection
begin

text \<open>
  \<^verbatim>\<open>mymuduo/TcpServer\<close>, \<^verbatim>\<open>Acceptor\<close>, and the body of \<^verbatim>\<open>EventLoop::loop\<close>: one round of a loop polls,
  lets each active channel handle its events and calls the pending functors.  The server is the
  application state of the network model; the application behind it (\<^verbatim>\<open>ChatServer\<close>, \<^verbatim>\<open>TestServer\<close>) is
  its field \<open>app\<close> and its callbacks.  The addresses of new connection objects and of their
  channels, and the answers of their sockets, come from the field \<open>allocs\<close>.
\<close>

section \<open>State\<close>

record 'a tcp_server =
  srv_loop :: lid
  ipPort :: string
  srv_name :: string
  pool :: thread_pool
  srv_started :: int
  nextConnId :: int
  connections :: "string \<Rightarrow> cid option"
  listenning :: bool
  acceptPtr :: cptr
  acceptChannel :: channel
  hasNewConnectionCallback :: bool
  srvWriteComplete :: bool              \<comment> \<open>whether \<^verbatim>\<open>writeCompleteCallback_\<close> is set\<close>
  listenOk :: bool                      \<comment> \<open>whether the system call \<^verbatim>\<open>listen\<close> succeeds\<close>
  allocs :: "nat \<Rightarrow> cid \<times> cptr \<times> write_result list"
  nAllocs :: nat
  closedFds :: "int list"
  app :: 'a

type_synonym 'a snet = "'a tcp_server net"

definition upd_usr :: "('u \<Rightarrow> 'u) \<Rightarrow> 'u net \<Rightarrow> 'u net" where
  "upd_usr f net = net\<lparr>usr := f (usr net)\<rparr>"

definition mkTcpServer ::
  "lid \<Rightarrow> string \<Rightarrow> string \<Rightarrow> cptr \<Rightarrow> int \<Rightarrow> (nat \<Rightarrow> cid \<times> cptr \<times> write_result list) \<Rightarrow> 'a \<Rightarrow> 'a tcp_server" where
  "mkTcpServer loop addr nameArg aptr afd al a =
     \<lparr>srv_loop = loop, ipPort = addr, srv_name = nameArg, pool = mkThreadPool loop nameArg,
      srv_started = 0, nextConnId = 1, connections = Map.empty, listenning = False, acceptPtr = aptr,
      acceptChannel = setReadCallback (mkChannel afd), hasNewConnectionCallback = True,
      srvWriteComplete = False, listenOk = True,
      allocs = al, nAllocs = 0, closedFds = [], app = a\<rparr>"

section \<open>Connections\<close>

text \<open>\<^verbatim>\<open>snprintf\<close> into 64 bytes keeps at most 63 characters.\<close>

definition connName :: "'a tcp_server \<Rightarrow> string" where
  "connName s = srv_name s @ take 63 (''-'' @ ipPort s @ ''#'' @ int_str (nextConnId s))"

definition newConnection :: "'a tcp_server callbacks \<Rightarrow> int \<Rightarrow> 'a snet \<Rightarrow> 'a snet result" where
  "newConnection cb sockfd net =
     (let s = usr net;
          (ioLoop, pool') = getNextLoop (pool s);
          name = connName s;
          (c, p, ks) = allocs s (nAllocs s);
          s = s\<lparr>pool := pool', nextConnId := nextConnId s + 1, nAllocs := nAllocs s + 1,
                connections := (connections s)(name \<mapsto> c)\<rparr>;
          net = upd_conn c (\<lambda>_. setWriteCompleteCallback (srvWriteComplete s) (mkTcpConnection ioLoop name sockfd p ks)) (net\<lparr>usr := s\<rparr>)
      in runInLoop ioLoop (FConnectEstablished c) (connectEstablished cb c) net)"

definition removeConnectionInLoop :: "cid \<Rightarrow> 'a snet \<Rightarrow> 'a snet" where
  "removeConnectionInLoop c net =
     (let net = upd_usr (\<lambda>s. s\<lparr>connections := (connections s)(cn_name (conns net c) := None)\<rparr>) net
      in queue_in (cn_loop (conns net c)) (FConnectDestroyed c) net)"

definition removeConnection :: "cid \<Rightarrow> 'a snet \<Rightarrow> 'a snet result" where
  "removeConnection c net =
     runInLoop (srv_loop (usr net)) (FRemoveConnectionInLoop c) (\<lambda>net. Inr (removeConnectionInLoop c net)) net"

text \<open>The callbacks of a connection of this server: the application's, and \<^verbatim>\<open>removeConnection\<close> as the
  close callback.\<close>

definition with_server :: "'a tcp_server callbacks \<Rightarrow> 'a tcp_server callbacks" where
  "with_server cb = cb\<lparr>closeCb := removeConnection\<rparr>"

section \<open>The acceptor\<close>

definition on_accept_channel ::
  "(cptr \<Rightarrow> epoll \<times> channel \<Rightarrow> epoll \<times> channel) \<Rightarrow> 'a snet \<Rightarrow> 'a snet" where
  "on_accept_channel oper net =
     (let s = usr net;
          r = oper (acceptPtr s) (poller (evloops net (srv_loop s)), acceptChannel s)
      in upd_loop (srv_loop s) (\<lambda>l. l\<lparr>poller := fst r\<rparr>)
           (upd_usr (\<lambda>s. s\<lparr>acceptChannel := snd r\<rparr>) net))"

definition acceptor_listen :: "'a snet \<Rightarrow> 'a snet result" where
  "acceptor_listen net =
     (let net = upd_usr (\<lambda>s. s\<lparr>listenning := True\<rparr>) net
      in if \<not> listenOk (usr net) then Inl Fatal else Inr (on_accept_channel enableReading net))"

text \<open>\<open>connfd\<close> is what \<^verbatim>\<open>accept4\<close> returns.\<close>

definition acceptor_handleRead :: "'a tcp_server callbacks \<Rightarrow> int \<Rightarrow> 'a snet \<Rightarrow> 'a snet result" where
  "acceptor_handleRead cb connfd net =
     (if connfd \<ge> 0 then
        (if hasNewConnectionCallback (usr net) then newConnection cb connfd net
         else Inr (upd_usr (\<lambda>s. s\<lparr>closedFds := closedFds s @ [connfd]\<rparr>) net))
      else Inr net)"

definition server_start :: "(nat \<Rightarrow> lid) \<Rightarrow> 'a snet \<Rightarrow> 'a snet result" where
  "server_start startLoop net =
     (let s = usr net;
          first = (srv_started s = 0);
          net = net\<lparr>usr := s\<lparr>srv_started := srv_started s + 1\<rparr>\<rparr>
      in if first then
           (let net = upd_usr (\<lambda>s. s\<lparr>pool := snd (pool_start False startLoop (pool s))\<rparr>) net
            in runInLoop (srv_loop s) FListen acceptor_listen net)
         else Inr net)"

text \<open>The acceptor's constructor: \<open>sockfd\<close> is what \<^verbatim>\<open>socket\<close> returns, \<open>bindOk\<close> whether \<^verbatim>\<open>bind\<close> succeeds.  Its
  destructor takes the channel out of the poller.\<close>

definition open_acceptor :: "int \<Rightarrow> bool \<Rightarrow> channel result" where
  "open_acceptor sockfd bindOk =
     (if sockfd < 0 then Inl Fatal
      else if \<not> bindOk then Inl Fatal
      else Inr (setReadCallback (mkChannel sockfd)))"

definition close_acceptor :: "'a snet \<Rightarrow> 'a snet" where
  "close_acceptor net = on_accept_channel removeChannel (on_accept_channel disableAll net)"

text \<open>The loop of \<^verbatim>\<open>~TcpServer\<close> over the connections, in the order \<open>cs\<close> of the hash table.\<close>

fun destroy_connections :: "'a tcp_server callbacks \<Rightarrow> cid list \<Rightarrow> 'a snet \<Rightarrow> 'a snet result" where
  "destroy_connections cb [] net = Inr net"
| "destroy_connections cb (c # cs) net =
     rbind (runInLoop (cn_loop (conns net c)) (FConnectDestroyed c) (connectDestroyed cb c) net)
       (destroy_connections cb cs)"

section \<open>Functors\<close>

text \<open>\<open>sendInLoop\<close> from a functor reads the characters at the bound address now.\<close>

fun run_functor :: "'a tcp_server callbacks \<Rightarrow> loop_functor \<Rightarrow> 'a snet \<Rightarrow> 'a snet result" where
  "run_functor cb (FSendInLoop c s) net = Inr (sendInLoop c (map (stale net s) [0..<length s]) net)"
| "run_functor cb (FShutdownInLoop c) net = Inr (shutdownInLoop c net)"
| "run_functor cb (FConnectEstablished c) net = connectEstablished cb c net"
| "run_functor cb (FConnectDestroyed c) net = connectDestroyed cb c net"
| "run_functor cb (FRemoveConnectionInLoop c) net = Inr (removeConnectionInLoop c net)"
| "run_functor cb FListen net = acceptor_listen net"
| "run_functor cb (FWriteComplete c) net = writeCompleteCallback cb c net"
| "run_functor cb (FHighWaterMark c n) net = highWaterMarkCallback cb c n net"

fun run_functors :: "'a tcp_server callbacks \<Rightarrow> loop_functor list \<Rightarrow> 'a snet \<Rightarrow> 'a snet result" where
  "run_functors cb [] net = Inr net"
| "run_functors cb (f # fs) net = rbind (run_functor cb f net) (run_functors cb fs)"

definition doPendingFunctors :: "'a tcp_server callbacks \<Rightarrow> lid \<Rightarrow> 'a snet \<Rightarrow> 'a snet result" where
  "doPendingFunctors cb l net =
     (let (functors, lp) = take_functors (evloops net l);
          net = upd_loop l (\<lambda>_. lp) net
      in rbind (run_functors cb functors net) (\<lambda>net. Inr (upd_loop l end_functors net)))"

section \<open>One round of the loop\<close>

text \<open>An active channel, with what the kernel answers to the handler's system call.\<close>

datatype activity =
    ActWakeup                      \<comment> \<open>the loop's own event descriptor\<close>
  | ActTimer                       \<comment> \<open>the timer queue's descriptor\<close>
  | ActAccept int                  \<comment> \<open>the listening socket: \<^verbatim>\<open>accept4\<close>'s result\<close>
  | ActConn cid u32 read_result    \<comment> \<open>a connection's socket: events, and \<^verbatim>\<open>readv\<close>'s result\<close>

definition timer_event :: "('a snet \<Rightarrow> 'a snet result) \<Rightarrow> lid \<Rightarrow> 'a snet \<Rightarrow> 'a snet result" where
  "timer_event onTimer l net =
     (let tq = timerQueue (evloops net l);
          tq' = handleRead tq;
          net = upd_loop l (\<lambda>lp. lp\<lparr>timerQueue := tq'\<rparr>) net
      in fold (\<lambda>_ r. rbind r onTimer) (drop (length (fired tq)) (fired tq')) (Inr net))"

definition conn_activity ::
  "'a tcp_server callbacks \<Rightarrow> cid \<Rightarrow> u32 \<Rightarrow> int \<Rightarrow> read_result \<Rightarrow> 'a snet \<Rightarrow> 'a snet result" where
  "conn_activity cb c revt t r net =
     (let net = upd_conn c (\<lambda>k. k\<lparr>cn_channel := set_revents revt (cn_channel k)\<rparr>) net
      in on_events cb c t r (handleEvent True (cn_channel (conns net c))) net)"

fun dispatch ::
  "'a tcp_server callbacks \<Rightarrow> ('a snet \<Rightarrow> 'a snet result) \<Rightarrow> lid \<Rightarrow> int \<Rightarrow> activity \<Rightarrow> 'a snet \<Rightarrow> 'a snet result" where
  "dispatch cb onTimer l t ActWakeup net = Inr (upd_loop l handleRead_wakeup net)"
| "dispatch cb onTimer l t ActTimer net = timer_event onTimer l net"
| "dispatch cb onTimer l t (ActAccept connfd) net = acceptor_handleRead cb connfd net"
| "dispatch cb onTimer l t (ActConn c revt r) net = conn_activity cb c revt t r net"

fun dispatch_all ::
  "'a tcp_server callbacks \<Rightarrow> ('a snet \<Rightarrow> 'a snet result) \<Rightarrow> lid \<Rightarrow> int \<Rightarrow> activity list \<Rightarrow> 'a snet \<Rightarrow> 'a snet result" where
  "dispatch_all cb onTimer l t [] net = Inr net"
| "dispatch_all cb onTimer l t (a # as) net =
     rbind (dispatch cb onTimer l t a net) (dispatch_all cb onTimer l t as)"

text \<open>The body of \<^verbatim>\<open>while(!quit_)\<close> in \<^verbatim>\<open>EventLoop::loop\<close>, run by the loop's thread at time \<open>t\<close>.\<close>

definition loop_round ::
  "'a tcp_server callbacks \<Rightarrow> ('a snet \<Rightarrow> 'a snet result) \<Rightarrow> lid \<Rightarrow> int \<Rightarrow> activity list \<Rightarrow> 'a snet \<Rightarrow> 'a snet result" where
  "loop_round cb onTimer l t active net =
     (let net = net\<lparr>curThread := threadId (evloops net l)\<rparr>;
          net = upd_loop l (\<lambda>lp. lp\<lparr>pollReturnTime := t\<rparr>) net
      in rbind (dispatch_all cb onTimer l t active net) (doPendingFunctors cb l))"

section \<open>Names of connections\<close>

lemma int_str_pos: "0 \<le> k \<Longrightarrow> int_str k = nat_str (nat k)"
  by (simp add: int_str_def)

text \<open>The name of the \<open>k\<close>-th connection, when the buffer of \<^verbatim>\<open>snprintf\<close> is large enough for it.\<close>

definition kth_name :: "string \<Rightarrow> string \<Rightarrow> int \<Rightarrow> string" where
  "kth_name nm addr k = nm @ ''-'' @ addr @ ''#'' @ int_str k"

lemma kth_name_inj: "1 \<le> i \<Longrightarrow> 1 \<le> j \<Longrightarrow> kth_name nm addr i = kth_name nm addr j \<Longrightarrow> i = j"
  using nat_str_inj [of "nat i" "nat j"] by (simp add: kth_name_def int_str_pos)

text \<open>An IPv4 address with its port has at most 21 characters, and the counter is an \<^verbatim>\<open>int\<close>.\<close>

definition short_names :: "'a tcp_server \<Rightarrow> bool" where
  "short_names s \<longleftrightarrow> length (ipPort s) \<le> 21 \<and> nextConnId s < 2 ^ 31"

lemma connName_eq:
  assumes "short_names s" and "1 \<le> nextConnId s"
  shows "connName s = kth_name (srv_name s) (ipPort s) (nextConnId s)"
proof -
  have "nat (nextConnId s) < 10 ^ Suc 9" using assms by (simp add: short_names_def nat_less_iff)
  then have "length (int_str (nextConnId s)) \<le> 10"
    using nat_str_length [of "nat (nextConnId s)" 9] assms by (simp add: int_str_pos)
  then show ?thesis using assms by (auto simp: connName_def kth_name_def short_names_def)
qed

definition srv_inv :: "'a tcp_server \<Rightarrow> bool" where
  "srv_inv s \<longleftrightarrow> 1 \<le> nextConnId s \<and>
     (\<forall>n c. connections s n = Some c \<longrightarrow>
        (\<exists>k. 1 \<le> k \<and> k < nextConnId s \<and> n = kth_name (srv_name s) (ipPort s) k))"

lemma srv_inv_fresh: "srv_inv s \<Longrightarrow> short_names s \<Longrightarrow> connections s (connName s) = None"
proof (rule ccontr)
  assume i: "srv_inv s" and sh: "short_names s" and "connections s (connName s) \<noteq> None"
  then obtain k where "1 \<le> k" "k < nextConnId s" "connName s = kth_name (srv_name s) (ipPort s) k"
    by (fastforce simp: srv_inv_def)
  then show False
    using i sh connName_eq [of s] kth_name_inj [of k "nextConnId s" "srv_name s" "ipPort s"]
    by (simp add: srv_inv_def)
qed

text \<open>The fields that name the connections; the application does not touch them.\<close>

definition srv_part :: "'a tcp_server \<Rightarrow> string \<times> string \<times> int \<times> (string \<Rightarrow> cid option)" where
  "srv_part s = (srv_name s, ipPort s, nextConnId s, connections s)"

definition keeps_server :: "'a tcp_server callbacks \<Rightarrow> bool" where
  "keeps_server cb \<longleftrightarrow> (\<forall>c net net'. connectionCallback cb c net = Inr net' \<longrightarrow>
     srv_part (usr net') = srv_part (usr net))"

inductive srv_reach :: "'a tcp_server callbacks \<Rightarrow> 'a snet \<Rightarrow> 'a snet \<Rightarrow> bool" for cb s0 where
  srv_init: "srv_reach cb s0 s0"
| srv_accept: "srv_reach cb s0 s \<Longrightarrow> short_names (usr s) \<Longrightarrow> acceptor_handleRead cb connfd s = Inr t \<Longrightarrow>
    srv_reach cb s0 t"
| srv_remove: "srv_reach cb s0 s \<Longrightarrow> srv_reach cb s0 (removeConnectionInLoop c s)"
| srv_other: "srv_reach cb s0 s \<Longrightarrow> srv_part (usr t) = srv_part (usr s) \<Longrightarrow> srv_reach cb s0 t"

lemma srv_inv_part: "srv_part s = srv_part t \<Longrightarrow> srv_inv s \<longleftrightarrow> srv_inv t"
  by (simp add: srv_inv_def srv_part_def)

lemma usr_upd_usr [simp]: "usr (upd_usr f net) = f (usr net)" "conns (upd_usr f net) = conns net"
  "evloops (upd_usr f net) = evloops net" "curThread (upd_usr f net) = curThread net"
  "stale (upd_usr f net) = stale net"
  by (simp_all add: upd_usr_def)

lemma connectEstablished_part:
  "keeps_server cb \<Longrightarrow> connectEstablished cb c net = Inr net' \<Longrightarrow> srv_part (usr net') = srv_part (usr net)"
  by (auto simp: connectEstablished_def Let_def keeps_server_def)

lemma newConnection_part:
  assumes "keeps_server cb" and "newConnection cb sockfd net = Inr net'"
  shows "srv_part (usr net') = (srv_name (usr net), ipPort (usr net), nextConnId (usr net) + 1,
     (connections (usr net))(connName (usr net) \<mapsto> fst (allocs (usr net) (nAllocs (usr net)))))"
  using assms(2) connectEstablished_part [OF assms(1)]
  by (auto simp: newConnection_def Let_def case_prod_unfold runInLoop_def srv_part_def split: if_splits)

lemma newConnection_inv:
  assumes "keeps_server cb" and "short_names (usr net)" and "srv_inv (usr net)"
    and "newConnection cb sockfd net = Inr net'"
  shows "srv_inv (usr net')"
proof -
  have n: "connName (usr net) = kth_name (srv_name (usr net)) (ipPort (usr net)) (nextConnId (usr net))"
    using assms by (intro connName_eq) (auto simp: srv_inv_def)
  have p: "srv_name (usr net') = srv_name (usr net)" "ipPort (usr net') = ipPort (usr net)"
    "nextConnId (usr net') = nextConnId (usr net) + 1"
    "connections (usr net') = (connections (usr net))(connName (usr net) \<mapsto> fst (allocs (usr net) (nAllocs (usr net))))"
    using newConnection_part [OF assms(1,4)] by (simp_all add: srv_part_def)
  have ge: "1 \<le> nextConnId (usr net)" using assms(3) by (simp add: srv_inv_def)
  show ?thesis unfolding srv_inv_def
  proof (intro conjI allI impI)
    fix m c assume "connections (usr net') m = Some c"
    then consider "m = connName (usr net)" | "connections (usr net) m = Some c"
      by (auto simp: p split: if_splits)
    then show "\<exists>k\<ge>1. k < nextConnId (usr net') \<and> m = kth_name (srv_name (usr net')) (ipPort (usr net')) k"
    proof cases
      case 1
      then show ?thesis using ge by (intro exI [of _ "nextConnId (usr net)"]) (simp add: p n)
    next
      case 2
      then obtain k where "1 \<le> k" "k < nextConnId (usr net)" "m = kth_name (srv_name (usr net)) (ipPort (usr net)) k"
        using assms(3) by (auto simp: srv_inv_def)
      then show ?thesis by (intro exI [of _ k]) (simp add: p)
    qed
  qed (use ge p in simp)
qed

lemma removeConnectionInLoop_inv: "srv_inv (usr net) \<Longrightarrow> srv_inv (usr (removeConnectionInLoop c net))"
  by (simp add: removeConnectionInLoop_def Let_def srv_inv_def)

lemma srv_reach_inv: "srv_reach cb s0 s \<Longrightarrow> keeps_server cb \<Longrightarrow> srv_inv (usr s0) \<Longrightarrow> srv_inv (usr s)"
proof (induction rule: srv_reach.induct)
  case (srv_accept s connfd t)
  then show ?case
    using newConnection_inv [of cb s connfd t] srv_inv_part [of "usr t" "usr s"]
    by (auto simp: acceptor_handleRead_def srv_inv_def split: if_splits)
next
  case (srv_other s t)
  then show ?case using srv_inv_part [of "usr t" "usr s"] by simp
qed (simp_all add: removeConnectionInLoop_inv)

lemma srv_reach_address:
  "srv_reach cb s0 s \<Longrightarrow> keeps_server cb \<Longrightarrow>
     ipPort (usr s) = ipPort (usr s0) \<and> srv_name (usr s) = srv_name (usr s0)"
proof (induction rule: srv_reach.induct)
  case (srv_accept s connfd t)
  then show ?case
    using newConnection_part [of cb connfd s t]
    by (auto simp: acceptor_handleRead_def srv_part_def split: if_splits)
qed (auto simp: srv_part_def removeConnectionInLoop_def Let_def)

section \<open>Closing\<close>

text \<open>A connection callback that keeps to the application's own state (\<^verbatim>\<open>ChatServer::onConnection\<close>
  does, for a connection that is down).\<close>

definition app_only :: "'a tcp_server callbacks \<Rightarrow> cid \<Rightarrow> bool" where
  "app_only cb c \<longleftrightarrow> (\<forall>net. cn_state (conns net c) = kDisconnected \<longrightarrow>
     (\<exists>net'. connectionCallback cb c net = Inr net' \<and> conns net' = conns net \<and>
        evloops net' = evloops net \<and> curThread net' = curThread net \<and>
        srv_loop (usr net') = srv_loop (usr net) \<and> srv_part (usr net') = srv_part (usr net)))"

lemma pending_queue_in:
  "pendingFunctors (evloops (queue_in l f net) l) = pendingFunctors (evloops net l) @ [f]"
  by (simp add: queue_in_def upd_loop_def queueInLoop_def Let_def)

lemma pending_on_channel [simp]:
  "pendingFunctors (evloops (on_channel oper c net) l) = pendingFunctors (evloops net l)"
  by (simp add: on_channel_def upd_loop_def upd_conn_def Let_def)

lemma evloops_setState [simp]: "evloops (setState c s net) = evloops net"
  by (simp add: setState_def upd_conn_def)

text \<open>What \<^verbatim>\<open>handleClose\<close> leaves behind, in either thread arrangement.\<close>

lemma handleClose_removes:
  assumes "app_only cb c"
  obtains net1 where
    "handleClose (with_server cb) c net = removeConnection c net1"
    "cn_state (conns net1 c) = kDisconnected" "cn_name (conns net1 c) = cn_name (conns net c)"
    "cn_loop (conns net1 c) = cn_loop (conns net c)" "srv_loop (usr net1) = srv_loop (usr net)"
    "inLoopThread l net1 = inLoopThread l net"
    "pendingFunctors (evloops net1 l') = pendingFunctors (evloops net l')"
    "srv_part (usr net1) = srv_part (usr net)"
proof -
  let ?n = "on_channel disableAll c (setState c kDisconnected net)"
  have "cn_state (conns ?n c) = kDisconnected" by simp
  then obtain net1 where n1: "connectionCallback cb c ?n = Inr net1" "conns net1 = conns ?n"
    "evloops net1 = evloops ?n" "curThread net1 = curThread ?n"
    "srv_loop (usr net1) = srv_loop (usr ?n)" "srv_part (usr net1) = srv_part (usr ?n)"
    using assms unfolding app_only_def by blast
  then have "handleClose (with_server cb) c net = removeConnection c net1"
    by (simp add: handleClose_def with_server_def rbind_def)
  then show ?thesis
    using n1 by (intro that [of net1]) (simp_all add: inLoopThread_def isInLoopThread_def)
qed

lemma removeConnectionInLoop_effect:
  "connections (usr (removeConnectionInLoop c net)) (cn_name (conns net c)) = None"
  "pendingFunctors (evloops (removeConnectionInLoop c net) (cn_loop (conns net c))) =
     pendingFunctors (evloops net (cn_loop (conns net c))) @ [FConnectDestroyed c]"
  "conns (removeConnectionInLoop c net) = conns net"
  by (simp_all add: removeConnectionInLoop_def Let_def pending_queue_in)

lemma connectDestroyed_down:
  assumes "cn_state (conns net c) \<noteq> kConnected"
  obtains net' where "connectDestroyed cb c net = Inr net'" "index (cn_channel (conns net' c)) = kNew"
    "channels (poller (evloops net' (cn_loop (conns net c)))) (fd (cn_channel (conns net c))) = None"
proof -
  let ?n = "on_channel removeChannel c net"
  have "connectDestroyed cb c net = Inr ?n" using assms by (simp add: connectDestroyed_def rbind_def)
  moreover have "index (cn_channel (conns ?n c)) = kNew"
    by (simp add: removeChannel_def Let_def)
  moreover have "channels (poller (evloops ?n (cn_loop (conns net c)))) (fd (cn_channel (conns net c))) = None"
    by (simp add: on_channel_def removeChannel_def upd_loop_def upd_conn_def update_def Let_def)
  ultimately show ?thesis by (rule that)
qed

section \<open>Destroying the server\<close>

text \<open>What the destructor owes a connection: destroyed, or its destruction is queued in its loop.\<close>

definition disposed :: "cid \<Rightarrow> 'a snet \<Rightarrow> bool" where
  "disposed c net \<longleftrightarrow>
     cn_state (conns net c) \<noteq> kConnected \<and>
       channels (poller (evloops net (cn_loop (conns net c)))) (fd (cn_channel (conns net c))) = None \<or>
     FConnectDestroyed c \<in> set (pendingFunctors (evloops net (cn_loop (conns net c))))"

lemma pending_queue_in_mono:
  "set (pendingFunctors (evloops net l)) \<subseteq> set (pendingFunctors (evloops (queue_in m f net) l))"
  by (auto simp: queue_in_def upd_loop_def queueInLoop_def wakeup_def Let_def)

lemma channels_removeChannel:
  "channels (poller (evloops (on_channel removeChannel c net) l)) f =
     (if l = cn_loop (conns net c) \<and> f = fd (cn_channel (conns net c)) then None
      else channels (poller (evloops net l)) f)"
  by (simp add: on_channel_def removeChannel_def upd_loop_def upd_conn_def Let_def)

lemma channels_disableAll:
  "l \<noteq> cn_loop (conns net c) \<or> f \<noteq> fd (cn_channel (conns net c)) \<Longrightarrow>
     channels (poller (evloops (on_channel disableAll c net) l)) f = channels (poller (evloops net l)) f"
  by (auto simp: on_channel_def disableAll_def updateChannel_def upd_loop_def upd_conn_def Let_def)

lemma fd_ops [simp]:
  "fd (snd (disableAll p s)) = fd (snd s)" "fd (snd (removeChannel p s)) = fd (snd s)"
  by (cases s; simp add: disableAll_def removeChannel_def Let_def)+

lemma connectDestroyed_local:
  assumes "app_only cb c"
  obtains net' where "connectDestroyed cb c net = Inr net'" "cn_state (conns net' c) \<noteq> kConnected"
    "\<And>d. d \<noteq> c \<Longrightarrow> conns net' d = conns net d" "cn_loop (conns net' c) = cn_loop (conns net c)"
    "fd (cn_channel (conns net' c)) = fd (cn_channel (conns net c))"
    "\<And>l. pendingFunctors (evloops net' l) = pendingFunctors (evloops net l)"
    "\<And>l f. channels (poller (evloops net' l)) f =
       (if l = cn_loop (conns net c) \<and> f = fd (cn_channel (conns net c)) then None else channels (poller (evloops net l)) f)"
    "\<And>l. inLoopThread l net' = inLoopThread l net"
proof (cases "cn_state (conns net c) = kConnected")
  case True
  let ?m = "on_channel disableAll c (setState c kDisconnected net)"
  have "cn_state (conns ?m c) = kDisconnected" by simp
  then obtain n1 where n1: "connectionCallback cb c ?m = Inr n1" "conns n1 = conns ?m" "evloops n1 = evloops ?m"
    "curThread n1 = curThread ?m"
    using assms unfolding app_only_def by blast
  have "connectDestroyed cb c net = Inr (on_channel removeChannel c n1)"
    using True n1(1) by (simp add: connectDestroyed_def)
  then show ?thesis
  proof (rule that)
    show "channels (poller (evloops (on_channel removeChannel c n1) l)) f =
       (if l = cn_loop (conns net c) \<and> f = fd (cn_channel (conns net c)) then None
        else channels (poller (evloops net l)) f)" for l f
      using channels_disableAll [of l "setState c kDisconnected net" c f] n1(2,3)
      by (auto simp: channels_removeChannel)
    show "inLoopThread l (on_channel removeChannel c n1) = inLoopThread l net" for l
      using n1 by (simp add: inLoopThread_def isInLoopThread_def)
  qed (use n1 in simp_all)
next
  case False
  then have "connectDestroyed cb c net = Inr (on_channel removeChannel c net)" by (simp add: connectDestroyed_def)
  then show ?thesis by (rule that) (use False in \<open>simp_all add: channels_removeChannel\<close>)
qed

lemma destroy_one:
  assumes "app_only cb c"
  obtains net' where
    "runInLoop (cn_loop (conns net c)) (FConnectDestroyed c) (connectDestroyed cb c) net = Inr net'"
    "disposed c net'" "\<And>d. disposed d net \<Longrightarrow> disposed d net'"
proof (cases "inLoopThread (cn_loop (conns net c)) net")
  case True
  obtain net' where n: "connectDestroyed cb c net = Inr net'" "cn_state (conns net' c) \<noteq> kConnected"
    "\<And>d. d \<noteq> c \<Longrightarrow> conns net' d = conns net d" "cn_loop (conns net' c) = cn_loop (conns net c)"
    "fd (cn_channel (conns net' c)) = fd (cn_channel (conns net c))"
    "\<And>l. pendingFunctors (evloops net' l) = pendingFunctors (evloops net l)"
    "\<And>l f. channels (poller (evloops net' l)) f =
       (if l = cn_loop (conns net c) \<and> f = fd (cn_channel (conns net c)) then None else channels (poller (evloops net l)) f)"
    "\<And>l. inLoopThread l net' = inLoopThread l net"
    by (rule connectDestroyed_local [OF assms, where net = net]) (rule that; assumption)
  have c: "disposed c net'" using n by (simp add: disposed_def)
  moreover have "disposed d net'" if "disposed d net" "d \<noteq> c" for d
    using that n(3) [of d] n(6,7) by (auto simp: disposed_def)
  ultimately show ?thesis using True n(1) by (intro that [of net']) (auto simp: runInLoop_def)
next
  case False
  let ?n = "queue_in (cn_loop (conns net c)) (FConnectDestroyed c) net"
  have ch: "poller (evloops ?n l) = poller (evloops net l)" for l
    by (simp add: queue_in_def upd_loop_def queueInLoop_def wakeup_def Let_def)
  have "disposed c ?n" by (simp add: disposed_def pending_queue_in)
  moreover have "disposed d ?n" if "disposed d net" for d
    using that pending_queue_in_mono [of net "cn_loop (conns net d)" "cn_loop (conns net c)" "FConnectDestroyed c"]
    by (auto simp: disposed_def ch)
  ultimately show ?thesis using False by (intro that [of ?n]) (simp_all add: runInLoop_def)
qed

lemma destroy_all:
  assumes "\<And>c. app_only cb c"
  shows "\<exists>net'. destroy_connections cb cs net = Inr net' \<and> (\<forall>c \<in> set cs. disposed c net') \<and>
    (\<forall>c. disposed c net \<longrightarrow> disposed c net')"
proof (induction cs arbitrary: net)
  case (Cons c cs)
  obtain n1 where n1: "runInLoop (cn_loop (conns net c)) (FConnectDestroyed c) (connectDestroyed cb c) net = Inr n1"
    "disposed c n1" "\<And>d. disposed d net \<Longrightarrow> disposed d n1"
    by (rule destroy_one [OF assms, where net = net and c = c]) (rule that; assumption)
  then show ?case using Cons.IH [of n1] by auto
qed simp

section \<open>The application behind the server\<close>

text \<open>
  What the server relies on in an application: its connection callback leaves the server's own fields
  alone, and for a connection that is down it does nothing to the network.  What the server promises
  in return is proved here once for all applications.
\<close>

locale server_app =
  fixes cb :: "'a tcp_server callbacks"
  assumes keeps: "keeps_server cb"
    and down_quiet: "app_only cb c"
begin

lemma fresh_name:
  assumes "srv_reach cb net s" and "srv_inv (usr net)" and "length (ipPort (usr net)) \<le> 21"
    and "nextConnId (usr s) < 2 ^ 31"
  shows "connections (usr s) (connName (usr s)) = None"
proof -
  have "short_names (usr s)"
    using srv_reach_address [OF assms(1) keeps] assms(3,4) by (simp add: short_names_def)
  then show ?thesis using srv_inv_fresh srv_reach_inv [OF assms(1) keeps assms(2)] by blast
qed

lemma names_numbered:
  assumes "srv_reach cb net s" and "srv_inv (usr net)" and "connections (usr s) n = Some c"
  shows "\<exists>k. 1 \<le> k \<and> k < nextConnId (usr s) \<and> n = kth_name (srv_name (usr s)) (ipPort (usr s)) k"
  using srv_reach_inv [OF assms(1) keeps assms(2)] assms(3) by (simp add: srv_inv_def)

lemma disposes: "\<exists>net'. destroy_connections cb cs net = Inr net' \<and> (\<forall>c \<in> set cs. disposed c net')"
  using destroy_all [OF down_quiet, of cs net] by blast

end

section \<open>A concrete server\<close>

definition demo_server :: "'a \<Rightarrow> 'a tcp_server" where
  "demo_server = mkTcpServer 0 ''0.0.0.0:9190'' ''srv'' 1 4 (\<lambda>i. (i, i + 10, []))"

definition quiet_callbacks :: "'u callbacks" where
  "quiet_callbacks = \<lparr>connectionCallback = (\<lambda>c. Inr), messageCallback = (\<lambda>c t. Inr), closeCb = (\<lambda>c. Inr),
     writeCompleteCallback = (\<lambda>c. Inr), highWaterMarkCallback = (\<lambda>c n. Inr)\<rparr>"

lemma inLoopThread_usr [simp]: "inLoopThread l (net\<lparr>usr := u\<rparr>) = inLoopThread l net"
  "inLoopThread l (upd_usr f net) = inLoopThread l net"
  by (simp_all add: inLoopThread_def upd_usr_def)

section \<open>Properties\<close>

text \<open>Connections never share a name, so a new connection never displaces another from
  \<^verbatim>\<open>connections_\<close>: in every state the server reaches by accepting, removing and whatever else leaves
  its own fields alone, the name the next connection will get is not in the map, and every name in the
  map carries a serial number below the counter.\<close>

theorem connection_names_unique:
  assumes "srv_reach cb net s" and "keeps_server cb" and "usr net = mkTcpServer l addr nm p afd al a"
    and "short_names (usr s)"
  shows "connections (usr s) (connName (usr s)) = None \<and>
    (\<forall>n c. connections (usr s) n = Some c \<longrightarrow>
      (\<exists>k. 1 \<le> k \<and> k < nextConnId (usr s) \<and> n = kth_name (srv_name (usr s)) (ipPort (usr s)) k))"
proof -
  have "srv_inv (usr net)" by (simp add: assms(3) mkTcpServer_def srv_inv_def)
  then have "srv_inv (usr s)" using srv_reach_inv [OF assms(1,2)] by simp
  then show ?thesis using srv_inv_fresh [OF _ assms(4)] by (simp add: srv_inv_def)
qed

theorem connection_names_unique_witness:
  "let s = projr (acceptor_handleRead quiet_callbacks 7 (demo_net (demo_conn [] []) (demo_server ())))
   in connections (usr s) (kth_name ''srv'' ''0.0.0.0:9190'' 1) = Some 0 \<and>
      connections (usr s) (connName (usr s)) = None"
proof -
  let ?net = "demo_net (demo_conn [] []) (demo_server ())"
  let ?s = "projr (acceptor_handleRead quiet_callbacks 7 ?net)"
  have u: "usr ?net = mkTcpServer 0 ''0.0.0.0:9190'' ''srv'' 1 4 (\<lambda>i. (i, i + 10, [])) ()"
    by (simp add: demo_server_def)
  have k: "keeps_server quiet_callbacks" by (simp add: keeps_server_def quiet_callbacks_def)
  have ok: "acceptor_handleRead quiet_callbacks 7 ?net = Inr ?s"
    by (simp add: acceptor_handleRead_def demo_server_def mkTcpServer_def newConnection_def getNextLoop_def
        mkThreadPool_def runInLoop_def connectEstablished_def quiet_callbacks_def Let_def)
  have sh: "short_names (usr ?net)" by (simp add: demo_server_def mkTcpServer_def short_names_def)
  have i: "srv_inv (usr ?net)" by (simp add: demo_server_def mkTcpServer_def srv_inv_def)
  have r: "srv_reach quiet_callbacks ?net ?s" by (rule srv_accept [OF srv_init sh ok])
  have nc: "newConnection quiet_callbacks 7 ?net = Inr ?s"
    using ok by (simp add: acceptor_handleRead_def demo_server_def mkTcpServer_def)
  have p: "srv_part (usr ?s) = (''srv'', ''0.0.0.0:9190'', 2, [kth_name ''srv'' ''0.0.0.0:9190'' 1 \<mapsto> 0])"
    using newConnection_part [OF k nc] connName_eq [OF sh] by (simp add: demo_server_def mkTcpServer_def)
  have sh': "short_names (usr ?s)" using p by (simp add: short_names_def srv_part_def)
  show ?thesis
    using connection_names_unique [OF r k u sh'] p by (simp add: srv_part_def Let_def)
qed

text \<open>Closing a connection unregisters it, whichever threads own the connection and the server.
  \<^verbatim>\<open>handleClose\<close> leaves the connection disconnected and hands its removal to the server's loop (at once,
  or as a queued functor); the removal erases its name and queues \<^verbatim>\<open>connectDestroyed\<close> in the
  connection's loop; that takes its descriptor out of the poller.\<close>

theorem close_unregisters:
  assumes "app_only cb c"
  shows "\<exists>n1 n2 n3. handleClose (with_server cb) c net = Inr n1 \<and>
     (if inLoopThread (srv_loop (usr net)) net then n2 = n1
      else pendingFunctors (evloops n1 (srv_loop (usr net))) =
             pendingFunctors (evloops net (srv_loop (usr net))) @ [FRemoveConnectionInLoop c] \<and>
           run_functor (with_server cb) (FRemoveConnectionInLoop c) n1 = Inr n2) \<and>
     cn_state (conns n2 c) = kDisconnected \<and> connections (usr n2) (cn_name (conns net c)) = None \<and>
     FConnectDestroyed c \<in> set (pendingFunctors (evloops n2 (cn_loop (conns net c)))) \<and>
     run_functor (with_server cb) (FConnectDestroyed c) n2 = Inr n3 \<and>
     index (cn_channel (conns n3 c)) = kNew \<and>
     channels (poller (evloops n3 (cn_loop (conns net c)))) (fd (cn_channel (conns n2 c))) = None"
proof -
  let ?L = "srv_loop (usr net)"
  obtain net1 where n: "handleClose (with_server cb) c net = removeConnection c net1"
    and st: "cn_state (conns net1 c) = kDisconnected" and nm: "cn_name (conns net1 c) = cn_name (conns net c)"
    and lp: "cn_loop (conns net1 c) = cn_loop (conns net c)" and sl: "srv_loop (usr net1) = ?L"
    and th: "inLoopThread ?L net1 = inLoopThread ?L net"
    and pd: "pendingFunctors (evloops net1 ?L) = pendingFunctors (evloops net ?L)"
    by (rule handleClose_removes [OF assms, of net ?L ?L]) blast
  show ?thesis
  proof (cases "inLoopThread ?L net")
    case True
    let ?n2 = "removeConnectionInLoop c net1"
    have "handleClose (with_server cb) c net = Inr ?n2"
      using True by (simp add: n removeConnection_def runInLoop_def sl th)
    moreover obtain n3 where "connectDestroyed (with_server cb) c ?n2 = Inr n3"
      "index (cn_channel (conns n3 c)) = kNew"
      "channels (poller (evloops n3 (cn_loop (conns ?n2 c)))) (fd (cn_channel (conns ?n2 c))) = None"
      using connectDestroyed_down [of ?n2 c "with_server cb"] st
      by (metis StateE.distinct(3) removeConnectionInLoop_effect(3))
    ultimately show ?thesis
      using True removeConnectionInLoop_effect [of c net1] st nm lp
      by (intro exI [of _ ?n2] exI [of _ n3]) simp
  next
    case False
    let ?n1 = "queue_in ?L (FRemoveConnectionInLoop c) net1"
    let ?n2 = "removeConnectionInLoop c ?n1"
    have "handleClose (with_server cb) c net = Inr ?n1"
      using False by (simp add: n removeConnection_def runInLoop_def sl th)
    moreover have "pendingFunctors (evloops ?n1 ?L) = pendingFunctors (evloops net ?L) @ [FRemoveConnectionInLoop c]"
      by (simp add: pending_queue_in pd)
    moreover obtain n3 where "connectDestroyed (with_server cb) c ?n2 = Inr n3"
      "index (cn_channel (conns n3 c)) = kNew"
      "channels (poller (evloops n3 (cn_loop (conns ?n2 c)))) (fd (cn_channel (conns ?n2 c))) = None"
      using connectDestroyed_down [of ?n2 c "with_server cb"] st
      by (metis StateE.distinct(3) removeConnectionInLoop_effect(3) conns_frame(2))
    ultimately show ?thesis
      using False removeConnectionInLoop_effect [of c ?n1] st nm lp
      by (intro exI [of _ ?n1] exI [of _ ?n2] exI [of _ n3]) simp
  qed
qed

theorem close_unregisters_witness:
  "\<exists>n1. handleClose (with_server quiet_callbacks) 0 (demo_net (demo_conn [] []) (demo_server ())) = Inr n1"
proof -
  have "app_only (quiet_callbacks :: unit tcp_server callbacks) 0" by (simp add: app_only_def quiet_callbacks_def)
  from close_unregisters [OF this, of "demo_net (demo_conn [] []) (demo_server ())"] show ?thesis by blast
qed

text \<open>C31: a \<^verbatim>\<open>send\<close> from a thread other than the connection's does not send the message.  It queues
  the address of the caller's characters, and when the functor runs, the connection transmits what is
  at that address then: of a string that no longer exists, anything.\<close>

theorem foreign_send_reads_freed_memory:
  assumes "connected c net" and "\<not> inLoopThread (cn_loop (conns net c)) net"
    and "conn_wf (conns net c)" and "healthy (conns net c)"
  shows "let n1 = send c msg net in
    pendingFunctors (evloops n1 (cn_loop (conns net c))) =
      pendingFunctors (evloops net (cn_loop (conns net c))) @ [FSendInLoop c msg] \<and>
    (\<exists>n2. run_functor cb (FSendInLoop c msg) n1 = Inr n2 \<and>
      stream (conns n2 c) = stream (conns net c) @ map (stale net msg) [0..<length msg])"
proof -
  let ?n1 = "queue_in (cn_loop (conns net c)) (FSendInLoop c msg) net"
  have s: "send c msg net = ?n1" using assms by (simp add: send_def connected_def)
  have "stream (conns (sendInLoop c (map (stale net msg) [0..<length msg]) ?n1) c) =
      stream (conns net c) @ map (stale net msg) [0..<length msg]"
    using sendInLoop_conn [of ?n1 c "map (stale net msg) [0..<length msg]"] assms
    by (simp add: connected_def)
  then show ?thesis by (simp add: s Let_def pending_queue_in)
qed

theorem foreign_send_reads_freed_memory_witness:
  "let n1 = send 0 ''ok'' ((demo_net (demo_conn [] []) (demo_server ()))\<lparr>curThread := 2\<rparr>) in
    (\<exists>n2. run_functor quiet_callbacks (FSendInLoop 0 ''ok'') n1 = Inr n2 \<and>
      stream (conns n2 0) = [CHR 0x00, CHR 0x00])"
proof -
  let ?net = "(demo_net (demo_conn [] []) (demo_server ()))\<lparr>curThread := 2\<rparr>"
  have c: "connected 0 ?net" and w: "conn_wf (conns ?net 0)" and h: "healthy (conns ?net 0)"
    by (simp_all add: connected_def demo_conn_wf healthy_def)
  have t: "\<not> inLoopThread (cn_loop (conns ?net 0)) ?net"
    by (simp add: inLoopThread_def isInLoopThread_def demo_net_def demo_loop_def mkEventLoop_def
        Let_def case_prod_unfold)
  have "stale ?net = (\<lambda>s i. CHR 0x00)" by (simp add: demo_net_def)
  then show ?thesis
    using foreign_send_reads_freed_memory [OF c t w h, of "''ok''" quiet_callbacks]
    by (simp add: Let_def stream_def upt_rec)
qed

end
