(* ===== verification/Addresses.thy ===== *)
theory Addresses
  imports Prelude
begin

text \<open>
  \<^verbatim>\<open>mymuduo/InetAddress\<close>: an IPv4 socket address.  \<^verbatim>\<open>sin_port\<close> and \<^verbatim>\<open>s_addr\<close> are kept in network byte
  order, as the kernel wants them, on a little-endian machine.  \<^verbatim>\<open>inet_addr\<close>, which reads a dotted
  address, is an argument.
\<close>

section \<open>State and operations\<close>

type_synonym u16 = "16 word"

record inet_address =
  sin_family :: nat
  sin_port :: u16
  s_addr :: "32 word"

definition AF_INET :: nat where "AF_INET = 2"

definition htons :: "u16 \<Rightarrow> u16" where
  "htons p = (push_bit 8 p) OR (drop_bit 8 p)"

definition ntohs :: "u16 \<Rightarrow> u16" where
  "ntohs p = (push_bit 8 p) OR (drop_bit 8 p)"

definition mkInetAddress :: "(string \<Rightarrow> 32 word) \<Rightarrow> u16 \<Rightarrow> string \<Rightarrow> inet_address" where
  "mkInetAddress inet_addr port ip =
     \<lparr>sin_family = AF_INET, sin_port = htons port, s_addr = inet_addr (c_str ip)\<rparr>"

text \<open>The \<open>i\<close>-th byte of the address in memory, and what \<^verbatim>\<open>inet_ntop\<close> prints.\<close>

definition octet :: "32 word \<Rightarrow> nat \<Rightarrow> nat" where
  "octet a i = unat (drop_bit (8 * i) a AND 0xFF)"

definition inet_ntop :: "32 word \<Rightarrow> string" where
  "inet_ntop a = nat_str (octet a 0) @ ''.'' @ nat_str (octet a 1) @ ''.'' @ nat_str (octet a 2) @ ''.'' @
     nat_str (octet a 3)"

definition toIp :: "inet_address \<Rightarrow> string" where
  "toIp x = inet_ntop (s_addr x)"

definition toPort :: "inet_address \<Rightarrow> u16" where
  "toPort x = ntohs (sin_port x)"

text \<open>\<^verbatim>\<open>snprintf\<close> may write 16 bytes behind the address, the terminating zero included.\<close>

definition toIpPort :: "inet_address \<Rightarrow> string" where
  "toIpPort x =
     (let buf = inet_ntop (s_addr x); port = ntohs (sin_port x)
      in buf @ take 15 ('':'' @ nat_str (unat port)))"

definition setSockAddr :: "inet_address \<Rightarrow> inet_address \<Rightarrow> inet_address" where
  "setSockAddr addr x = addr"

section \<open>Text and bytes\<close>

lemma octet_less: "octet a i < 256"
proof -
  have "drop_bit (8 * i) a AND 0xFF = take_bit 8 (drop_bit (8 * i) a)"
    by (simp add: take_bit_eq_mask mask_eq_exp_minus_1)
  then have "octet a i = take_bit 8 (unat (drop_bit (8 * i) a))"
    by (simp only: octet_def unsigned_take_bit_eq)
  then show ?thesis by (simp add: take_bit_eq_mod)
qed

lemma octet_string: "length (nat_str (octet a i)) \<le> 3"
  using nat_str_length [of "octet a i" 2] octet_less [of a i] by simp

lemma port_string: "length (nat_str (unat (p :: u16))) \<le> 5"
proof -
  have "unat p < 2 ^ LENGTH(16)" by (rule unsigned_less)
  then show ?thesis using nat_str_length [of "unat p" 4] by simp
qed

lemma inet_ntop_length: "length (inet_ntop a) \<le> 15"
  using octet_string [of a 0] octet_string [of a 1] octet_string [of a 2] octet_string [of a 3]
  by (simp add: inet_ntop_def)

lemma ntohs_htons: "ntohs (htons p) = p"
  by (rule bit_word_eqI)
    (auto simp: ntohs_def htons_def bit_or_iff bit_push_bit_iff bit_drop_bit_eq bit_imp_le_length)

lemma digits_nat_str: "c \<in> set (nat_str n) \<Longrightarrow> \<exists>d<10. c = digit d"
proof (induction n rule: nat_str.induct)
  case (1 n)
  show ?case
  proof (cases "n < 10")
    case True
    then show ?thesis using "1.prems" by (auto simp: nat_str.simps [of n])
  next
    case False
    have "n mod 10 < 10" by simp
    then have "\<exists>d<10. digit (n mod 10) = digit d" by blast
    then show ?thesis using "1.prems" "1.IH" False by (auto simp: nat_str.simps [of n])
  qed
qed

lemma separators: "CHR ''.'' \<notin> set (nat_str n)" "CHR '':'' \<notin> set (nat_str n)"
proof -
  have "digit d \<noteq> CHR ''.''" "digit d \<noteq> CHR '':''" if "d < 10" for d
    using that by (auto simp: digit_def char_of_eq_iff take_bit_eq_mod)
  then show "CHR ''.'' \<notin> set (nat_str n)" "CHR '':'' \<notin> set (nat_str n)"
    using digits_nat_str by metis+
qed

lemma split_at_sep:
  assumes "x \<notin> set xs" and "x \<notin> set ys" and "xs @ x # r = ys @ x # s"
  shows "xs = ys \<and> r = s"
  using assms by (induction xs arbitrary: ys) (auto simp: append_eq_Cons_conv Cons_eq_append_conv)

lemma octets_determine:
  assumes "octet a 0 = octet b 0" "octet a 1 = octet b 1" "octet a 2 = octet b 2" "octet a 3 = octet b 3"
  shows "a = b"
proof (rule bit_word_eqI)
  fix n
  assume n: "n < LENGTH(32)"
  have o: "bit w n \<longleftrightarrow> bit (drop_bit (8 * (n div 8)) w AND 0xFF) (n mod 8)" for w :: "32 word"
  proof -
    have "drop_bit (8 * (n div 8)) w AND 0xFF = take_bit 8 (drop_bit (8 * (n div 8)) w)"
      by (simp add: take_bit_eq_mask mask_eq_exp_minus_1)
    then show ?thesis by (simp add: bit_take_bit_iff bit_drop_bit_eq)
  qed
  have "n div 8 \<in> {0, 1, 2, 3}" using n by auto
  then have "octet a (n div 8) = octet b (n div 8)" using assms by auto
  then have "drop_bit (8 * (n div 8)) a AND 0xFF = drop_bit (8 * (n div 8)) b AND 0xFF"
    by (simp add: octet_def word_unat_eq_iff)
  then show "bit a n \<longleftrightarrow> bit b n" using o [of a] o [of b] by simp
qed

lemma toIpPort_eq: "toIpPort x = toIp x @ '':'' @ nat_str (unat (toPort x))"
  using port_string [of "ntohs (sin_port x)"] by (simp add: toIpPort_def toIp_def toPort_def Let_def)

lemma toIpPort_length: "length (toIpPort x) \<le> 21"
  using inet_ntop_length [of "s_addr x"] port_string [of "toPort x"] by (simp add: toIpPort_eq toIp_def)

section \<open>Properties\<close>

text \<open>The text of an address.  It is the dotted address, a colon and the port in decimal, never cut off
  by the buffers it is written to (at most 21 characters); the port is the one the address was made
  with, and two addresses have the same text only if they have the same IP address and port.\<close>

theorem address_text:
  "toIpPort x = toIp x @ '':'' @ nat_str (unat (toPort x)) \<and> length (toIpPort x) \<le> 21 \<and>
   toPort (mkInetAddress ia p ip) = p \<and>
   (toIpPort x = toIpPort y \<longleftrightarrow> s_addr x = s_addr y \<and> toPort x = toPort y)"
proof -
  have "s_addr x = s_addr y \<and> toPort x = toPort y" if "toIpPort x = toIpPort y"
  proof -
    have t: "inet_ntop (s_addr x) @ CHR '':'' # nat_str (unat (toPort x)) =
        inet_ntop (s_addr y) @ CHR '':'' # nat_str (unat (toPort y))" using that by (simp add: toIpPort_eq toIp_def)
    have c: "CHR '':'' \<notin> set (inet_ntop a)" for a by (simp add: inet_ntop_def separators)
    from split_at_sep [OF c c t] have ip: "inet_ntop (s_addr x) = inet_ntop (s_addr y)"
      and po: "toPort x = toPort y"
      by (auto dest: nat_str_inj simp: word_unat_eq_iff)
    have "nat_str (octet (s_addr x) i) = nat_str (octet (s_addr y) i)" if "i \<in> {0, 1, 2, 3}" for i
      using ip that unfolding inet_ntop_def by (auto dest!: split_at_sep [OF separators(1) separators(1)])
    then have "octet (s_addr x) i = octet (s_addr y) i" if "i \<in> {0, 1, 2, 3}" for i
      using that nat_str_inj by blast
    then show ?thesis using octets_determine [of "s_addr x" "s_addr y"] po by simp
  qed
  then show ?thesis using toIpPort_eq [of x] toIpPort_eq [of y] toIpPort_length [of x] by (auto simp: toPort_def mkInetAddress_def ntohs_htons toIp_def)
qed

end
