(* ===== verification/Sockets.thy ===== *)
theory Sockets
  imports Server Addresses
begin

text \<open>
  \<^verbatim>\<open>mymuduo/Socket\<close> and the descriptors of the process: the kernel's table maps an open descriptor to
  what it stands for, and a \<^verbatim>\<open>Socket\<close> object owns one descriptor, which its destructor closes.  The
  answers of \<^verbatim>\<open>socket\<close> and \<^verbatim>\<open>accept4\<close> (a descriptor, or negative) are arguments; whether \<^verbatim>\<open>bind\<close> and
  \<^verbatim>\<open>listen\<close> succeed is a function of the socket, as the kernel decides by the options set on it.
  \<open>bad_close\<close> records a \<^verbatim>\<open>close\<close> of a descriptor that is not open: the mark of a double close.
\<close>

section \<open>The kernel's table\<close>

datatype sockopt = SO_REUSEADDR | SO_REUSEPORT | SO_KEEPALIVE | TCP_NODELAY

record sock =
  nonblock :: bool
  cloexec :: bool
  sockopts :: "sockopt \<Rightarrow> int"
  bound_to :: "inet_address option"
  backlog :: "int option"
  wr_shut :: bool

datatype descr = Sock sock | Epollfd | Timerfd | Eventfd

record kernel_fds =
  open_fds :: "int \<Rightarrow> descr option"
  bad_close :: bool

definition new_sock :: sock where
  "new_sock = \<lparr>nonblock = True, cloexec = True, sockopts = (\<lambda>_. 0), bound_to = None, backlog = None, wr_shut = False\<rparr>"

definition sys_open :: "int \<Rightarrow> descr \<Rightarrow> kernel_fds \<Rightarrow> kernel_fds" where
  "sys_open f d k = (if f \<ge> 0 then k\<lparr>open_fds := (open_fds k)(f \<mapsto> d)\<rparr> else k)"

definition sys_close :: "int \<Rightarrow> kernel_fds \<Rightarrow> kernel_fds" where
  "sys_close f k =
     (if open_fds k f = None then k\<lparr>bad_close := True\<rparr> else k\<lparr>open_fds := (open_fds k)(f := None)\<rparr>)"

definition the_sock :: "int \<Rightarrow> kernel_fds \<Rightarrow> sock option" where
  "the_sock f k = (case open_fds k f of Some (Sock s) \<Rightarrow> Some s | _ \<Rightarrow> None)"

text \<open>A system call on a socket; on anything else it fails and changes nothing.\<close>

definition on_sock :: "(sock \<Rightarrow> sock) \<Rightarrow> int \<Rightarrow> kernel_fds \<Rightarrow> kernel_fds" where
  "on_sock g f k = (case the_sock f k of None \<Rightarrow> k | Some s \<Rightarrow> k\<lparr>open_fds := (open_fds k)(f \<mapsto> Sock (g s))\<rparr>)"

definition setsockopt :: "int \<Rightarrow> sockopt \<Rightarrow> int \<Rightarrow> kernel_fds \<Rightarrow> kernel_fds" where
  "setsockopt f opt optval = on_sock (\<lambda>s. s\<lparr>sockopts := (sockopts s)(opt := optval)\<rparr>) f"

section \<open>The class Socket\<close>

record socket =
  sock_fd :: int

definition mkSocket :: "int \<Rightarrow> socket" where
  "mkSocket sockfd = \<lparr>sock_fd = sockfd\<rparr>"

definition destroySocket :: "socket \<Rightarrow> kernel_fds \<Rightarrow> kernel_fds" where
  "destroySocket s k = sys_close (sock_fd s) k"

definition socket_fd :: "socket \<Rightarrow> int" where
  "socket_fd s = sock_fd s"

definition bindAddress :: "(sock \<Rightarrow> inet_address \<Rightarrow> bool) \<Rightarrow> inet_address \<Rightarrow> socket \<Rightarrow> kernel_fds \<Rightarrow> kernel_fds result" where
  "bindAddress may_bind localaddr s k =
     (case the_sock (sock_fd s) k of
        None \<Rightarrow> Inl Fatal
      | Some x \<Rightarrow>
          if may_bind x localaddr then Inr (on_sock (\<lambda>x. x\<lparr>bound_to := Some localaddr\<rparr>) (sock_fd s) k) else Inl Fatal)"

definition socket_listen :: "(sock \<Rightarrow> bool) \<Rightarrow> socket \<Rightarrow> kernel_fds \<Rightarrow> kernel_fds result" where
  "socket_listen may_listen s k =
     (case the_sock (sock_fd s) k of
        None \<Rightarrow> Inl Fatal
      | Some x \<Rightarrow> if may_listen x then Inr (on_sock (\<lambda>x. x\<lparr>backlog := Some 1024\<rparr>) (sock_fd s) k) else Inl Fatal)"

text \<open>\<open>connfd\<close> and \<open>addr\<close> are the answer of \<^verbatim>\<open>accept4\<close>, which is asked for a non-blocking descriptor closed
  on \<^verbatim>\<open>exec\<close>; \<open>peerAddr\<close> is the caller's variable.\<close>

definition socket_accept :: "int \<Rightarrow> inet_address \<Rightarrow> inet_address \<Rightarrow> kernel_fds \<Rightarrow> int \<times> inet_address \<times> kernel_fds" where
  "socket_accept connfd addr peerAddr k =
     (let k = sys_open connfd (Sock new_sock) k
      in (connfd, if connfd \<ge> 0 then setSockAddr addr peerAddr else peerAddr, k))"

definition socket_shutdownWrite :: "socket \<Rightarrow> kernel_fds \<Rightarrow> kernel_fds" where
  "socket_shutdownWrite s = on_sock (\<lambda>x. x\<lparr>wr_shut := True\<rparr>) (sock_fd s)"

definition setTcpNoDelay :: "bool \<Rightarrow> socket \<Rightarrow> kernel_fds \<Rightarrow> kernel_fds" where
  "setTcpNoDelay on s = (let optval = if on then 1 else 0 in setsockopt (sock_fd s) TCP_NODELAY optval)"

definition setReuseAddr :: "bool \<Rightarrow> socket \<Rightarrow> kernel_fds \<Rightarrow> kernel_fds" where
  "setReuseAddr on s = (let optval = if on then 1 else 0 in setsockopt (sock_fd s) SO_REUSEADDR optval)"

definition setReusePort :: "bool \<Rightarrow> socket \<Rightarrow> kernel_fds \<Rightarrow> kernel_fds" where
  "setReusePort on s = (let optval = if on then 1 else 0 in setsockopt (sock_fd s) SO_REUSEPORT optval)"

definition setKeepAlive :: "bool \<Rightarrow> socket \<Rightarrow> kernel_fds \<Rightarrow> kernel_fds" where
  "setKeepAlive on s = (let optval = if on then 1 else 0 in setsockopt (sock_fd s) SO_KEEPALIVE optval)"

section \<open>The listening socket\<close>

datatype Option = kNoReusePort | kReusePort

definition createNonBlocking :: "int \<Rightarrow> kernel_fds \<Rightarrow> (int \<times> kernel_fds) result" where
  "createNonBlocking sockfd k =
     (let k = sys_open sockfd (Sock new_sock) k in if sockfd < 0 then Inl Fatal else Inr (sockfd, k))"

text \<open>\<^verbatim>\<open>Acceptor::Acceptor\<close> with its system calls, and what becomes of its channel.\<close>

definition mkAcceptor ::
  "(sock \<Rightarrow> inet_address \<Rightarrow> bool) \<Rightarrow> int \<Rightarrow> inet_address \<Rightarrow> bool \<Rightarrow> kernel_fds \<Rightarrow> (socket \<times> channel \<times> kernel_fds) result" where
  "mkAcceptor may_bind sockfd listenAddr reuseport k =
     rbind (createNonBlocking sockfd k) (\<lambda>(f, k).
       let acceptSocket = mkSocket f;
           acceptChannel = mkChannel (socket_fd acceptSocket);
           k = setReuseAddr True acceptSocket k;
           k = setReusePort reuseport acceptSocket k
       in rbind (bindAddress may_bind listenAddr acceptSocket k) (\<lambda>k.
            Inr (acceptSocket, setReadCallback acceptChannel, k)))"

text \<open>The acceptor that \<^verbatim>\<open>TcpServer::TcpServer\<close> makes.\<close>

definition server_acceptor ::
  "(sock \<Rightarrow> inet_address \<Rightarrow> bool) \<Rightarrow> int \<Rightarrow> inet_address \<Rightarrow> Option \<Rightarrow> kernel_fds \<Rightarrow> (socket \<times> channel \<times> kernel_fds) result" where
  "server_acceptor may_bind sockfd listenAddr opt k = mkAcceptor may_bind sockfd listenAddr (opt = kReusePort) k"

section \<open>The descriptors of the server\<close>

text \<open>The acceptor and the \<^verbatim>\<open>Socket\<close> objects of the connection objects that exist.\<close>

record fd_server =
  kern :: kernel_fds
  acceptSock :: socket
  hasNewConnCb :: bool
  conn_socks :: "cid \<Rightarrow> socket option"

text \<open>\<^verbatim>\<open>TcpConnection::TcpConnection\<close>: the new object \<open>c\<close> owns the descriptor from now on.\<close>

definition own_socket :: "cid \<Rightarrow> int \<Rightarrow> fd_server \<Rightarrow> fd_server" where
  "own_socket c sockfd st =
     (let s = mkSocket sockfd
      in st\<lparr>conn_socks := (conn_socks st)(c \<mapsto> s), kern := setKeepAlive True s (kern st)\<rparr>)"

text \<open>\<^verbatim>\<open>~TcpConnection\<close>: its \<^verbatim>\<open>unique_ptr\<close> destroys the socket.\<close>

definition disown_socket :: "cid \<Rightarrow> fd_server \<Rightarrow> fd_server" where
  "disown_socket c st =
     (case conn_socks st c of
        None \<Rightarrow> st
      | Some s \<Rightarrow> st\<lparr>conn_socks := (conn_socks st)(c := None), kern := destroySocket s (kern st)\<rparr>)"

definition accept_fd :: "int \<Rightarrow> inet_address \<Rightarrow> cid \<Rightarrow> fd_server \<Rightarrow> fd_server" where
  "accept_fd ans addr c st =
     (let (connfd, peerAddr, k) = socket_accept ans addr \<lparr>sin_family = 0, sin_port = 0, s_addr = 0\<rparr> (kern st);
          st = st\<lparr>kern := k\<rparr>
      in if connfd \<ge> 0 then
           (if hasNewConnCb st then own_socket c connfd st
            else st\<lparr>kern := sys_close connfd (kern st)\<rparr>)
         else st)"

datatype fd_event =
    FdAccept int inet_address cid      \<comment> \<open>\<^verbatim>\<open>Acceptor::handleRead\<close>, the object made for the connection\<close>
  | FdShutdown cid
  | FdDestroy cid                      \<comment> \<open>the last shared pointer to the connection goes\<close>

text \<open>\<^verbatim>\<open>accept4\<close> returns an unused descriptor, and the allocator an unused address.\<close>

fun fd_legit :: "fd_event \<Rightarrow> fd_server \<Rightarrow> bool" where
  "fd_legit (FdAccept ans addr c) st \<longleftrightarrow> open_fds (kern st) ans = None \<and> conn_socks st c = None"
| "fd_legit _ st \<longleftrightarrow> True"

fun fd_do :: "fd_event \<Rightarrow> fd_server \<Rightarrow> fd_server" where
  "fd_do (FdAccept ans addr c) st = accept_fd ans addr c st"
| "fd_do (FdShutdown c) st =
     (case conn_socks st c of None \<Rightarrow> st | Some s \<Rightarrow> st\<lparr>kern := socket_shutdownWrite s (kern st)\<rparr>)"
| "fd_do (FdDestroy c) st = disown_socket c st"

definition fd_step :: "fd_event \<Rightarrow> fd_server \<Rightarrow> fd_server" where
  "fd_step e st = (if fd_legit e st then fd_do e st else st)"

section \<open>The table after each call\<close>

lemma the_sock_open [simp]: "the_sock f k = Some s \<longleftrightarrow> open_fds k f = Some (Sock s)"
  by (auto simp: the_sock_def split: option.splits descr.splits)

lemma on_sock_dom [simp]: "open_fds (on_sock g f k) h = None \<longleftrightarrow> open_fds k h = None"
  by (auto simp: on_sock_def split: option.splits)

lemma on_sock_bad [simp]: "bad_close (on_sock g f k) = bad_close k"
  by (simp add: on_sock_def split: option.split)

lemma on_sock_other: "h \<noteq> f \<Longrightarrow> open_fds (on_sock g f k) h = open_fds k h"
  by (simp add: on_sock_def split: option.split)

lemma on_sock_at: "open_fds k f = Some (Sock s) \<Longrightarrow> open_fds (on_sock g f k) f = Some (Sock (g s))"
  by (auto simp: on_sock_def split: option.split) (metis option.distinct(1) the_sock_open)

lemma setters_on_sock:
  "setReuseAddr on s = on_sock (\<lambda>x. x\<lparr>sockopts := (sockopts x)(SO_REUSEADDR := of_bool on)\<rparr>) (sock_fd s)"
  "setReusePort on s = on_sock (\<lambda>x. x\<lparr>sockopts := (sockopts x)(SO_REUSEPORT := of_bool on)\<rparr>) (sock_fd s)"
  "setKeepAlive on s = on_sock (\<lambda>x. x\<lparr>sockopts := (sockopts x)(SO_KEEPALIVE := of_bool on)\<rparr>) (sock_fd s)"
  "setTcpNoDelay on s = on_sock (\<lambda>x. x\<lparr>sockopts := (sockopts x)(TCP_NODELAY := of_bool on)\<rparr>) (sock_fd s)"
  by (simp_all add: setReuseAddr_def setReusePort_def setKeepAlive_def setTcpNoDelay_def setsockopt_def Let_def)


lemma the_sock_None: "the_sock f k = None \<longleftrightarrow> (\<forall>s. open_fds k f \<noteq> Some (Sock s))"
  using the_sock_open [of f k] by (metis not_None_eq)

section \<open>Every descriptor has one owner\<close>

text \<open>\<open>base\<close> are the descriptors the process had before the acceptor.  Each socket of a connection is open, with
  the flags and the keep-alive option the library sets, and nothing else is open.\<close>

definition fds_owned :: "(int \<Rightarrow> descr option) \<Rightarrow> fd_server \<Rightarrow> bool" where
  "fds_owned base st \<longleftrightarrow> \<not> bad_close (kern st) \<and>
     base (sock_fd (acceptSock st)) = None \<and>
     (\<exists>x. open_fds (kern st) (sock_fd (acceptSock st)) = Some (Sock x)) \<and>
     (\<forall>c s. conn_socks st c = Some s \<longrightarrow> base (sock_fd s) = None \<and> sock_fd s \<noteq> sock_fd (acceptSock st) \<and>
        (\<exists>x. open_fds (kern st) (sock_fd s) = Some (Sock x) \<and> nonblock x \<and> cloexec x \<and> sockopts x SO_KEEPALIVE = 1)) \<and>
     (\<forall>c d s. conn_socks st c = Some s \<longrightarrow> conn_socks st d = Some s \<longrightarrow> c = d) \<and>
     (\<forall>f. f \<noteq> sock_fd (acceptSock st) \<longrightarrow> (\<forall>c s. conn_socks st c = Some s \<longrightarrow> f \<noteq> sock_fd s) \<longrightarrow>
        open_fds (kern st) f = base f)"

lemma socket_eqI: "sock_fd s = sock_fd t \<Longrightarrow> s = (t :: socket)"
  by (cases s; cases t) simp

lemma fds_ownedD:
  assumes "fds_owned base st"
  shows "\<not> bad_close (kern st)" and "base (sock_fd (acceptSock st)) = None"
    and "\<exists>x. open_fds (kern st) (sock_fd (acceptSock st)) = Some (Sock x)"
    and "conn_socks st c = Some s \<Longrightarrow> base (sock_fd s) = None \<and> sock_fd s \<noteq> sock_fd (acceptSock st) \<and>
        (\<exists>x. open_fds (kern st) (sock_fd s) = Some (Sock x) \<and> nonblock x \<and> cloexec x \<and> sockopts x SO_KEEPALIVE = 1)"
    and "conn_socks st c = Some s \<Longrightarrow> conn_socks st d = Some s \<Longrightarrow> c = d"
    and "f \<noteq> sock_fd (acceptSock st) \<Longrightarrow> (\<And>c s. conn_socks st c = Some s \<Longrightarrow> f \<noteq> sock_fd s) \<Longrightarrow>
        open_fds (kern st) f = base f"
  using assms unfolding fds_owned_def by blast+

lemma fds_owned_accept:
  assumes "fds_owned base st" and "open_fds (kern st) ans = None" and "conn_socks st c = None"
  shows "fds_owned base (accept_fd ans addr c st)"
proof -
  note D = fds_ownedD [OF assms(1)]
  consider "ans < 0" | "ans \<ge> 0" "hasNewConnCb st" | "ans \<ge> 0" "\<not> hasNewConnCb st" by linarith
  then show ?thesis
  proof cases
    case 1
    then show ?thesis using assms(1) by (simp add: accept_fd_def socket_accept_def sys_open_def)
  next
    case 3
    have "(open_fds (kern st))(ans := None) = open_fds (kern st)" using assms(2) by auto
    then show ?thesis using 3 assms(1) by (simp add: accept_fd_def socket_accept_def sys_open_def sys_close_def)
  next
    case 2
    let ?st = "accept_fd ans addr c st"
    let ?x = "new_sock\<lparr>sockopts := (\<lambda>_. 0)(SO_KEEPALIVE := 1)\<rparr>"
    have k: "kern ?st = (kern st)\<lparr>open_fds := (open_fds (kern st))(ans \<mapsto> Sock ?x)\<rparr>"
      "conn_socks ?st = (conn_socks st)(c \<mapsto> mkSocket ans)" "acceptSock ?st = acceptSock st"
      using 2 by (simp_all add: accept_fd_def socket_accept_def sys_open_def own_socket_def Let_def mkSocket_def
          setters_on_sock on_sock_def the_sock_def new_sock_def)
    have acc: "ans \<noteq> sock_fd (acceptSock st)" using D(3) assms(2) by auto
    have oth: "ans \<noteq> sock_fd s" if "conn_socks st d = Some s" for d s using D(4) [OF that] assms(2) by auto
    have b: "base ans = None" using D(6) [of ans] acc oth assms(2) by simp
    have x: "nonblock ?x" "cloexec ?x" "sockopts ?x SO_KEEPALIVE = 1" by (simp_all add: new_sock_def)
    show ?thesis
      unfolding fds_owned_def k
    proof (intro conjI allI impI)
      fix d s assume ds: "((conn_socks st)(c \<mapsto> mkSocket ans)) d = Some s"
      have "base (sock_fd s) = None \<and> sock_fd s \<noteq> sock_fd (acceptSock st) \<and>
          (\<exists>x. ((open_fds (kern st))(ans \<mapsto> Sock ?x)) (sock_fd s) = Some (Sock x) \<and>
            nonblock x \<and> cloexec x \<and> sockopts x SO_KEEPALIVE = 1)"
      proof (cases "d = c")
        case True
        then have "sock_fd s = ans" using ds by (auto simp: mkSocket_def)
        then show ?thesis using b acc x by simp
      next
        case False
        then have "conn_socks st d = Some s" using ds by simp
        from D(4) [OF this] oth [OF this] show ?thesis by simp
      qed
      then show "base (sock_fd s) = None" "sock_fd s \<noteq> sock_fd (acceptSock st)"
        "\<exists>x. open_fds ((kern st)\<lparr>open_fds := (open_fds (kern st))(ans \<mapsto> Sock ?x)\<rparr>) (sock_fd s) = Some (Sock x) \<and>
          nonblock x \<and> cloexec x \<and> sockopts x SO_KEEPALIVE = 1"
        by simp_all
    next
      fix d e s
      assume "((conn_socks st)(c \<mapsto> mkSocket ans)) d = Some s" "((conn_socks st)(c \<mapsto> mkSocket ans)) e = Some s"
      then show "d = e"
        using D(5) [of d s e] oth [of d s] oth [of e s] by (auto simp: mkSocket_def split: if_splits)
    next
      fix f assume f: "f \<noteq> sock_fd (acceptSock st)" "\<forall>d s. ((conn_socks st)(c \<mapsto> mkSocket ans)) d = Some s \<longrightarrow> f \<noteq> sock_fd s"
      have "f \<noteq> ans" using f(2) [rule_format, of c "mkSocket ans"] by (simp add: mkSocket_def)
      moreover have "f \<noteq> sock_fd s" if "conn_socks st d = Some s" for d s
        using f(2) [rule_format, of d s] that assms(3) by (cases "d = c") auto
      ultimately show "open_fds ((kern st)\<lparr>open_fds := (open_fds (kern st))(ans \<mapsto> Sock ?x)\<rparr>) f = base f"
        using D(6) [OF f(1)] by simp
    qed (use D(1-3) acc in simp_all)
  qed
qed

lemma fds_owned_disown:
  assumes "fds_owned base st"
  shows "fds_owned base (disown_socket c st)"
proof (cases "conn_socks st c")
  case None
  then show ?thesis using assms by (simp add: disown_socket_def)
next
  case (Some s)
  note D = fds_ownedD [OF assms]
  let ?st = "disown_socket c st"
  have k: "kern ?st = (kern st)\<lparr>open_fds := (open_fds (kern st))(sock_fd s := None)\<rparr>"
    "conn_socks ?st = (conn_socks st)(c := None)" "acceptSock ?st = acceptSock st"
    using Some D(4) [OF Some] by (auto simp: disown_socket_def destroySocket_def sys_close_def)
  have oth: "sock_fd t \<noteq> sock_fd s" if "conn_socks st d = Some t" "d \<noteq> c" for d t
    using socket_eqI D(5) Some that by metis
  show ?thesis
    unfolding fds_owned_def k
  proof (intro conjI allI impI)
    fix d t assume "((conn_socks st)(c := None)) d = Some t"
    then have d: "conn_socks st d = Some t" "d \<noteq> c" by (auto split: if_splits)
    from D(4) [OF d(1)] oth [OF d]
    show "base (sock_fd t) = None" "sock_fd t \<noteq> sock_fd (acceptSock st)"
      "\<exists>x. open_fds ((kern st)\<lparr>open_fds := (open_fds (kern st))(sock_fd s := None)\<rparr>) (sock_fd t) = Some (Sock x) \<and>
        nonblock x \<and> cloexec x \<and> sockopts x SO_KEEPALIVE = 1" by auto
  next
    fix d e t
    assume "((conn_socks st)(c := None)) d = Some t" "((conn_socks st)(c := None)) e = Some t"
    then show "d = e" using D(5) by (auto split: if_splits)
  next
    fix f assume f: "f \<noteq> sock_fd (acceptSock st)" "\<forall>d t. ((conn_socks st)(c := None)) d = Some t \<longrightarrow> f \<noteq> sock_fd t"
    show "open_fds ((kern st)\<lparr>open_fds := (open_fds (kern st))(sock_fd s := None)\<rparr>) f = base f"
    proof (cases "f = sock_fd s")
      case False
      have "f \<noteq> sock_fd t" if "conn_socks st d = Some t" for d t
        using f(2) [rule_format, of d t] that False Some by (cases "d = c") auto
      then show ?thesis using D(6) [OF f(1)] False by simp
    qed (use D(4) [OF Some] in simp)
  qed (use D(1-3) D(4) [OF Some] in auto)
qed

lemma fds_owned_sock:
  assumes "fds_owned base st" and "conn_socks st c = Some s"
    and "\<And>x. nonblock (g x) = nonblock x \<and> cloexec (g x) = cloexec x \<and> sockopts (g x) = sockopts x"
  shows "fds_owned base (st\<lparr>kern := on_sock g (sock_fd s) (kern st)\<rparr>)"
proof -
  note D = fds_ownedD [OF assms(1)]
  let ?k = "on_sock g (sock_fd s) (kern st)"
  have sock: "\<exists>y. open_fds ?k f = Some (Sock y) \<and> nonblock y = nonblock x \<and> cloexec y = cloexec x \<and> sockopts y = sockopts x"
    if "open_fds (kern st) f = Some (Sock x)" for f x
    using that on_sock_other [of f "sock_fd s" g "kern st"] on_sock_at [of "kern st" f x g] assms(3) [of x]
    by (cases "f = sock_fd s") auto
  have oth: "open_fds ?k f = base f"
    if "f \<noteq> sock_fd (acceptSock st)" "\<And>c s. conn_socks st c = Some s \<Longrightarrow> f \<noteq> sock_fd s" for f
    using D(6) [OF that] that(2) [OF assms(2)] on_sock_other by simp
  have acc: "\<exists>x. open_fds ?k (sock_fd (acceptSock st)) = Some (Sock x)" using D(3) sock by blast
  have con: "\<exists>x. open_fds ?k (sock_fd t) = Some (Sock x) \<and> nonblock x \<and> cloexec x \<and> sockopts x SO_KEEPALIVE = 1"
    if "conn_socks st d = Some t" for d t
    using D(4) [OF that] sock by metis
  show ?thesis
    unfolding fds_owned_def using D(1,2) acc con D(4,5) oth by simp
qed

interpretation fdm: event_machine fd_step "fds_owned base" for base
proof
  fix st e assume st: "fds_owned base st"
  show "fds_owned base (fd_step e st)"
  proof (cases e)
    case (FdShutdown c)
    then show ?thesis
      using st fds_owned_sock [OF st] by (auto simp: fd_step_def socket_shutdownWrite_def split: option.split)
  qed (use st fds_owned_accept fds_owned_disown in \<open>auto simp: fd_step_def\<close>)
qed

section \<open>The descriptors of a loop\<close>

text \<open>The constructor of \<^verbatim>\<open>EventLoop\<close> makes three descriptors: the poller's, the timer queue's and its own.  The
  destructor closes its own, then the members are destroyed in reverse order of their declaration.\<close>

definition createEpollfd :: "int \<Rightarrow> kernel_fds \<Rightarrow> (int \<times> kernel_fds) result" where
  "createEpollfd f k = (let k = sys_open f Epollfd k in if f < 0 then Inl Fatal else Inr (f, k))"

definition createTimerfd :: "int \<Rightarrow> kernel_fds \<Rightarrow> (int \<times> kernel_fds) result" where
  "createTimerfd f k = (let k = sys_open f Timerfd k in if f < 0 then Inl Fatal else Inr (f, k))"

definition createEventfd :: "int \<Rightarrow> kernel_fds \<Rightarrow> (int \<times> kernel_fds) result" where
  "createEventfd f k = (let k = sys_open f Eventfd k in if f < 0 then Inl Fatal else Inr (f, k))"

record loop_fds =
  epollfd :: int
  timerfd :: int
  wakeupFd :: int

definition open_loop_fds :: "int \<Rightarrow> int \<Rightarrow> int \<Rightarrow> kernel_fds \<Rightarrow> (loop_fds \<times> kernel_fds) result" where
  "open_loop_fds ep tm ev k =
     rbind (createEpollfd ep k) (\<lambda>(ep, k).
     rbind (createTimerfd tm k) (\<lambda>(tm, k).
     rbind (createEventfd ev k) (\<lambda>(ev, k). Inr (\<lparr>epollfd = ep, timerfd = tm, wakeupFd = ev\<rparr>, k))))"

definition destroy_poller_fd :: "loop_fds \<Rightarrow> kernel_fds \<Rightarrow> kernel_fds" where
  "destroy_poller_fd l k = sys_close (epollfd l) k"

definition destroy_timer_fd :: "loop_fds \<Rightarrow> kernel_fds \<Rightarrow> kernel_fds" where
  "destroy_timer_fd l k = sys_close (timerfd l) k"

definition close_loop_fds :: "loop_fds \<Rightarrow> kernel_fds \<Rightarrow> kernel_fds" where
  "close_loop_fds l k = destroy_poller_fd l (destroy_timer_fd l (sys_close (wakeupFd l) k))"

lemma loop_fds_returned:
  assumes "distinct [ep, tm, ev]" and "\<forall>f \<in> {ep, tm, ev}. 0 \<le> f \<and> open_fds k f = None"
  shows "\<exists>l k'. open_loop_fds ep tm ev k = Inr (l, k') \<and>
    open_fds k' = (open_fds k)(ep \<mapsto> Epollfd, tm \<mapsto> Timerfd, ev \<mapsto> Eventfd) \<and> close_loop_fds l k' = k"
proof -
  let ?l = "\<lparr>epollfd = ep, timerfd = tm, wakeupFd = ev\<rparr>"
  let ?k = "k\<lparr>open_fds := (open_fds k)(ep \<mapsto> Epollfd, tm \<mapsto> Timerfd, ev \<mapsto> Eventfd)\<rparr>"
  have "open_loop_fds ep tm ev k = Inr (?l, ?k)"
    using assms by (simp add: open_loop_fds_def createEpollfd_def createTimerfd_def createEventfd_def sys_open_def Let_def)
  moreover have "close_loop_fds ?l ?k = ?k\<lparr>open_fds := (open_fds ?k)(ev := None, tm := None, ep := None)\<rparr>"
    using assms(1) by (simp add: close_loop_fds_def destroy_poller_fd_def destroy_timer_fd_def sys_close_def)
  moreover have "(open_fds ?k)(ev := None, tm := None, ep := None) = open_fds k" using assms(2) by auto
  ultimately show ?thesis by simp
qed

section \<open>Properties\<close>

text \<open>The socket as it is when \<^verbatim>\<open>bind\<close> is called.\<close>

abbreviation configured :: "bool \<Rightarrow> sock" where
  "configured reuseport \<equiv> new_sock\<lparr>sockopts := (\<lambda>_. 0)(SO_REUSEADDR := 1, SO_REUSEPORT := of_bool reuseport)\<rparr>"

lemma mkAcceptor_eq:
  "mkAcceptor may_bind sockfd addr reuseport k =
     (if 0 \<le> sockfd \<and> may_bind (configured reuseport) addr then
        Inr (mkSocket sockfd, setReadCallback (mkChannel sockfd), k\<lparr>open_fds := (open_fds k)(sockfd \<mapsto>
          Sock ((configured reuseport)\<lparr>bound_to := Some addr\<rparr>))\<rparr>)
      else Inl Fatal)"
  by (auto simp: mkAcceptor_def createNonBlocking_def sys_open_def socket_fd_def mkSocket_def setters_on_sock
      bindAddress_def on_sock_def the_sock_def new_sock_def Let_def)

text \<open>C30: The listening socket is set up in the right order.  When \<^verbatim>\<open>socket\<close> succeeds and the kernel lets a
  socket with \<^verbatim>\<open>SO_REUSEADDR\<close> bind the address (as it does when only old connections of an earlier run
  linger on it), the acceptor is made: its socket is non-blocking, closed on \<^verbatim>\<open>exec\<close>, bound to the address,
  and shares its port exactly if that was asked for.  In every case the constructor ends as the
  acceptor of the network model does on the same answers.\<close>

theorem acceptor_ready:
  assumes "0 \<le> sockfd" and "\<And>s. sockopts s SO_REUSEADDR = 1 \<Longrightarrow> may_bind s addr"
  shows "(\<exists>a ch k' x. server_acceptor may_bind sockfd addr opt k = Inr (a, ch, k') \<and> socket_fd a = sockfd \<and>
      open_fds k' = (open_fds k)(sockfd \<mapsto> Sock x) \<and> bad_close k' = bad_close k \<and> nonblock x \<and> cloexec x \<and>
      bound_to x = Some addr \<and> sockopts x SO_REUSEPORT = of_bool (opt = kReusePort)) \<and>
    (\<forall>mb f. rbind (server_acceptor mb f addr opt k) (\<lambda>(a, ch, k'). Inr ch) = open_acceptor f (mb (configured (opt = kReusePort)) addr))"
  using assms(1) assms(2) [of "configured (opt = kReusePort)"]
  by (auto simp: server_acceptor_def mkAcceptor_eq open_acceptor_def mkSocket_def socket_fd_def new_sock_def)

theorem acceptor_ready_witness:
  "let k = \<lparr>open_fds = Map.empty, bad_close = False\<rparr>;
       addr = \<lparr>sin_family = AF_INET, sin_port = htons 9190, s_addr = 0\<rparr>
   in \<exists>a ch k'. server_acceptor (\<lambda>s addr. sockopts s SO_REUSEADDR = 1) 6 addr kNoReusePort k = Inr (a, ch, k') \<and> socket_fd a = 6"
proof -
  have "(0::int) \<le> 6" by simp
  from acceptor_ready [OF this, of "\<lambda>s addr. sockopts s SO_REUSEADDR = 1" "\<lparr>sin_family = AF_INET, sin_port = htons 9190, s_addr = 0\<rparr>"
      kNoReusePort "\<lparr>open_fds = Map.empty, bad_close = False\<rparr>"]
  show ?thesis by (auto simp: Let_def)
qed

text \<open>C29: Descriptors are neither leaked nor closed twice.  From the construction of the acceptor, through any
  sequence of accepted connections (successful or not, with or without a callback), half-closes and
  destructions of connection objects, every \<^verbatim>\<open>close\<close> hits an open descriptor; whatever is open beyond what
  was open before belongs to the acceptor or to exactly one connection object, which keeps it open,
  non-blocking and with keep-alive set; and when all connections are gone the destructor of the acceptor
  leaves the table as it was.\<close>

theorem descriptors_balanced:
  fixes es :: "fd_event list" and cb :: bool
  assumes "mkAcceptor may_bind sockfd addr reuseport k = Inr (a, ch, k1)"
    and "open_fds k sockfd = None" and "\<not> bad_close k"
  defines "st \<equiv> fold fd_step es \<lparr>kern = k1, acceptSock = a, hasNewConnCb = cb, conn_socks = Map.empty\<rparr>"
  shows "\<not> bad_close (kern st) \<and>
    (\<forall>f. open_fds (kern st) f \<noteq> open_fds k f \<longrightarrow> f = sockfd \<or> (\<exists>!c. conn_socks st c = Some (mkSocket f))) \<and>
    (\<forall>c s. conn_socks st c = Some s \<longrightarrow>
       (\<exists>x. open_fds (kern st) (socket_fd s) = Some (Sock x) \<and> nonblock x \<and> cloexec x \<and> sockopts x SO_KEEPALIVE = 1)) \<and>
    (conn_socks st = Map.empty \<longrightarrow> destroySocket a (kern st) = k)"
proof -
  let ?s0 = "\<lparr>kern = k1, acceptSock = a, hasNewConnCb = cb, conn_socks = Map.empty\<rparr>"
  have a: "0 \<le> sockfd" "a = mkSocket sockfd"
    "k1 = k\<lparr>open_fds := (open_fds k)(sockfd \<mapsto> Sock ((configured reuseport)\<lparr>bound_to := Some addr\<rparr>))\<rparr>"
    using assms(1) by (auto simp: mkAcceptor_eq split: if_splits)
  have "fds_owned (open_fds k) ?s0"
    using assms(2,3) a by (simp add: fds_owned_def mkSocket_def)
  then have o: "fds_owned (open_fds k) st" unfolding st_def by (rule fdm.good_run)
  note D = fds_ownedD [OF o]
  have "acceptSock (fd_step e s) = acceptSock s" for e s
    by (cases e) (auto simp: fd_step_def accept_fd_def own_socket_def disown_socket_def Let_def
        split: option.split prod.split)
  then have "acceptSock (fold fd_step es s) = acceptSock s" for s by (induction es arbitrary: s) simp_all
  then have acc: "acceptSock st = mkSocket sockfd" by (simp add: st_def a(2))
  have own: "\<exists>!c. conn_socks st c = Some (mkSocket f)" if ne: "open_fds (kern st) f \<noteq> open_fds k f" and "f \<noteq> sockfd" for f
  proof -
    obtain c s where c: "conn_socks st c = Some s" "f = sock_fd s"
      using D(6) [of f] ne \<open>f \<noteq> sockfd\<close> acc by (auto simp: mkSocket_def)
    then have "conn_socks st c = Some (mkSocket f)" by (simp add: mkSocket_def)
    then show ?thesis using D(5) by blast
  qed
  have "destroySocket a (kern st) = k" if none: "conn_socks st = Map.empty"
  proof (rule kernel_fds.equality)
    obtain x where x: "open_fds (kern st) sockfd = Some (Sock x)" using D(3) acc by (auto simp: mkSocket_def)
    have "open_fds (kern st) f = open_fds k f" if "f \<noteq> sockfd" for f
      using D(6) [of f] that none acc by (simp add: mkSocket_def)
    then show "open_fds (destroySocket a (kern st)) = open_fds k"
      using x assms(2) a(2) by (auto simp: destroySocket_def sys_close_def mkSocket_def)
    show "bad_close (destroySocket a (kern st)) = bad_close k"
      using x a(2) D(1) assms(3) by (simp add: destroySocket_def sys_close_def mkSocket_def)
  qed simp
  then show ?thesis using own D(1,4) unfolding socket_fd_def by blast
qed

theorem descriptors_balanced_witness:
  "let k = \<lparr>open_fds = Map.empty, bad_close = False\<rparr>; addr = \<lparr>sin_family = AF_INET, sin_port = 0, s_addr = 0\<rparr>;
       k1 = k\<lparr>open_fds := [6 \<mapsto> Sock ((configured False)\<lparr>bound_to := Some addr\<rparr>)]\<rparr>;
       st = fold fd_step [FdAccept 7 addr 0, FdAccept 8 addr 1, FdShutdown 0, FdDestroy 0]
         \<lparr>kern = k1, acceptSock = mkSocket 6, hasNewConnCb = True, conn_socks = Map.empty\<rparr>
   in \<not> bad_close (kern st) \<and>
      (\<forall>f. open_fds (kern st) f \<noteq> None \<longrightarrow> f = 6 \<or> (\<exists>!c. conn_socks st c = Some (mkSocket f)))"
proof -
  let ?k = "\<lparr>open_fds = Map.empty, bad_close = False\<rparr>" and ?addr = "\<lparr>sin_family = AF_INET, sin_port = 0, s_addr = 0\<rparr>"
  have m: "mkAcceptor (\<lambda>_ _. True) 6 ?addr False ?k = Inr (mkSocket 6, setReadCallback (mkChannel 6),
      ?k\<lparr>open_fds := [6 \<mapsto> Sock ((configured False)\<lparr>bound_to := Some ?addr\<rparr>)]\<rparr>)"
    by (simp add: mkAcceptor_eq)
  from descriptors_balanced [OF m, of "[FdAccept 7 ?addr 0, FdAccept 8 ?addr 1, FdShutdown 0, FdDestroy 0]" True]
  show ?thesis by (simp add: Let_def)
qed

end
