(* ===== verification/Lifetimes.thy ===== *)
theory Lifetimes
  imports Server
begin

text \<open>
  How long a \<^verbatim>\<open>TcpConnection\<close> lives.  The object is owned by shared pointers: the one in the server's
  \<^verbatim>\<open>connections_\<close> and those bound into functors (\<^verbatim>\<open>connectEstablished\<close>, \<^verbatim>\<open>connectDestroyed\<close>,
  \<^verbatim>\<open>removeConnectionInLoop\<close> and the two optional callbacks).  \<^verbatim>\<open>send\<close> and \<^verbatim>\<open>shutdown\<close> from another thread
  bind the plain pointer \<^verbatim>\<open>this\<close>, which keeps nothing alive.  The theory runs all loops of the server
  interleaved, one functor or one handler at a time, and shows that no such functor is ever called
  on an object that is gone.
\<close>

section \<open>Pointers in functors\<close>

text \<open>The connection whose plain \<^verbatim>\<open>this\<close> a functor binds, and the one it owns through a shared pointer.\<close>

fun raw_of :: "loop_functor \<Rightarrow> cid option" where
  "raw_of (FSendInLoop c s) = Some c"
| "raw_of (FShutdownInLoop c) = Some c"
| "raw_of _ = None"

fun owner_of :: "loop_functor \<Rightarrow> cid option" where
  "owner_of (FConnectEstablished c) = Some c"
| "owner_of (FConnectDestroyed c) = Some c"
| "owner_of (FRemoveConnectionInLoop c) = Some c"
| "owner_of (FWriteComplete c) = Some c"
| "owner_of (FHighWaterMark c n) = Some c"
| "owner_of _ = None"

abbreviation pend :: "'u net \<Rightarrow> lid \<Rightarrow> loop_functor list" where
  "pend net l \<equiv> pendingFunctors (evloops net l)"

text \<open>A connection is held while \<^verbatim>\<open>connections_\<close> or a functor that has not been called yet owns it.\<close>

definition held :: "cid \<Rightarrow> (lid \<Rightarrow> loop_functor list) \<Rightarrow> 'a snet \<Rightarrow> bool" where
  "held c Q net \<longleftrightarrow> (\<exists>n. connections (usr net) n = Some c) \<or> (\<exists>l. \<exists>f \<in> set (Q l). owner_of f = Some c)"

section \<open>What an application may do\<close>

text \<open>The functors a callback may add: plain pointers only to connections that are connected.\<close>

fun may_queue :: "'u net \<Rightarrow> lid \<Rightarrow> loop_functor \<Rightarrow> bool" where
  "may_queue net l (FSendInLoop c s) \<longleftrightarrow> cn_loop (conns net c) = l \<and> cn_state (conns net c) = kConnected"
| "may_queue net l (FShutdownInLoop c) \<longleftrightarrow> cn_loop (conns net c) = l \<and> cn_state (conns net c) = kConnected"
| "may_queue net l (FWriteComplete c) \<longleftrightarrow> True"
| "may_queue net l (FHighWaterMark c n) \<longleftrightarrow> True"
| "may_queue net l _ \<longleftrightarrow> False"

definition same_life :: "conn \<Rightarrow> conn \<Rightarrow> bool" where
  "same_life k k' \<longleftrightarrow> cn_name k' = cn_name k \<and> cn_loop k' = cn_loop k \<and>
     (cn_state k' = cn_state k \<or> cn_state k = kConnected \<and> cn_state k' = kDisconnecting)"

definition behaves :: "'a snet \<Rightarrow> 'a snet \<Rightarrow> bool" where
  "behaves a b \<longleftrightarrow> (\<forall>c. same_life (conns a c) (conns b c)) \<and> srv_part (usr b) = srv_part (usr a) \<and>
     srv_loop (usr b) = srv_loop (usr a) \<and>
     (\<forall>l. \<exists>fs. pend b l = pend a l @ fs \<and> (\<forall>f \<in> set fs. may_queue a l f))"

lemma same_life_trans: "same_life a b \<Longrightarrow> same_life b c \<Longrightarrow> same_life a c"
  by (auto simp: same_life_def)

lemma may_queue_back: "\<forall>c. same_life (conns a c) (conns b c) \<Longrightarrow> may_queue b l f \<Longrightarrow> may_queue a l f"
  by (cases f) (auto simp: same_life_def dest!: spec)

lemma behaves_refl [simp]: "behaves net net"
  by (simp add: behaves_def same_life_def)

lemma behaves_trans [trans]:
  assumes "behaves a b" and "behaves b c"
  shows "behaves a c"
proof -
  have s: "\<forall>d. same_life (conns a d) (conns b d)" using assms(1) by (simp add: behaves_def)
  have "\<exists>fs. pend c l = pend a l @ fs \<and> (\<forall>f \<in> set fs. may_queue a l f)" for l
  proof -
    obtain fs gs where "pend b l = pend a l @ fs" "\<forall>f \<in> set fs. may_queue a l f"
      "pend c l = pend b l @ gs" "\<forall>f \<in> set gs. may_queue b l f"
      using assms unfolding behaves_def by metis
    then show ?thesis using may_queue_back [OF s, of l] by (intro exI [of _ "fs @ gs"]) auto
  qed
  then show ?thesis using assms same_life_trans unfolding behaves_def by metis
qed

lemma pend_queue_in [simp]:
  "pend (queue_in l f net) m = (if m = l then pend net l @ [f] else pend net m)"
  by (auto simp: queue_in_def upd_loop_def queueInLoop_def wakeup_def Let_def)

lemma pend_frame [simp]:
  "pend (upd_conn c g net) l = pend net l" "pend (setState c s net) l = pend net l"
  "pend (shutdownWrite c net) l = pend net l" "pend (upd_usr h net) l = pend net l"
  "pend (on_channel oper c net) l = pend net l"
  by (simp_all add: upd_conn_def setState_def shutdownWrite_def upd_usr_def on_channel_def upd_loop_def Let_def)

lemma pend_upd_loop:
  "(\<And>lp. pendingFunctors (g lp) = pendingFunctors lp) \<Longrightarrow> pend (upd_loop l g net) m = pend net m"
  by (simp add: upd_loop_def)

text \<open>The building blocks of the operations.\<close>

lemma behaves_queue: "behaves a net \<Longrightarrow> may_queue a l f \<Longrightarrow> behaves a (queue_in l f net)"
proof -
  assume b: "behaves a net" and f: "may_queue a l f"
  have "\<exists>fs. pend (queue_in l f net) m = pend a m @ fs \<and> (\<forall>g \<in> set fs. may_queue a m g)" for m
  proof -
    obtain fs where "pend net m = pend a m @ fs" "\<forall>g \<in> set fs. may_queue a m g"
      using b unfolding behaves_def by metis
    then show ?thesis using f by (intro exI [of _ "fs @ (if m = l then [f] else [])"]) auto
  qed
  then show ?thesis using b by (simp add: behaves_def)
qed

lemma behaves_upd_conn:
  assumes "behaves a net" and "same_life (conns a c) (g (conns net c))"
  shows "behaves a (upd_conn c g net)"
  using assms by (simp add: behaves_def)

lemma behaves_outgoing:
  assumes "behaves a net" and "\<And>k. cn_name (g k) = cn_name k \<and> cn_loop (g k) = cn_loop k \<and> cn_state (g k) = cn_state k"
  shows "behaves a (upd_conn c g net)"
proof (rule behaves_upd_conn [OF assms(1)])
  have "same_life (conns a c) (conns net c)" using assms(1) by (simp add: behaves_def)
  then show "same_life (conns a c) (g (conns net c))" using assms(2) [of "conns net c"] by (simp add: same_life_def)
qed

lemma behaves_on_channel: "behaves a net \<Longrightarrow> behaves a (on_channel oper c net)"
  by (auto simp: behaves_def same_life_def)

lemma behaves_shutdownWrite: "behaves a net \<Longrightarrow> behaves a (shutdownWrite c net)"
  unfolding shutdownWrite_def by (rule behaves_outgoing) simp_all

lemma behaves_shutdownInLoop: "behaves a net \<Longrightarrow> behaves a (shutdownInLoop c net)"
  by (simp add: shutdownInLoop_def behaves_shutdownWrite)

lemma behaves_usr:
  "behaves a net \<Longrightarrow> srv_part (f (usr net)) = srv_part (usr net) \<Longrightarrow> srv_loop (f (usr net)) = srv_loop (usr net) \<Longrightarrow>
     behaves a (upd_usr f net)"
  by (simp add: behaves_def)

lemma behaves_loop:
  "behaves a net \<Longrightarrow> (\<And>lp. pendingFunctors (g lp) = pendingFunctors lp) \<Longrightarrow> behaves a (upd_loop l g net)"
  by (simp add: behaves_def pend_upd_loop)

lemma behaves_thread: "behaves a net \<Longrightarrow> behaves a (net\<lparr>curThread := t\<rparr>)"
  by (simp add: behaves_def)

section \<open>The operations of a connection behave\<close>

lemma behaves_sock_write: "behaves a net \<Longrightarrow> behaves a (snd (sock_write c data net))"
  by (auto simp: sock_write_def Let_def intro!: behaves_outgoing)

lemma behaves_direct_write: "behaves a net \<Longrightarrow> behaves a (snd (direct_write c data net))"
proof -
  assume b: "behaves a net"
  obtain r n where sw: "sock_write c data net = (r, n)" by fastforce
  then have "behaves a n" using behaves_sock_write [OF b, of c data] by simp
  then show ?thesis using b
    by (auto simp: direct_write_def sw Let_def behaves_queue split: write_result.split)
qed

lemma behaves_buffer_rest: "behaves a net \<Longrightarrow> behaves a (buffer_rest c rest net)"
  by (auto simp: buffer_rest_def Let_def intro!: behaves_on_channel behaves_outgoing behaves_queue)

lemma behaves_sendInLoop: "behaves a net \<Longrightarrow> behaves a (sendInLoop c data net)"
  using behaves_direct_write [of a net c data]
  by (auto simp: sendInLoop_def case_prod_unfold behaves_buffer_rest)

lemma behaves_send: "behaves a net \<Longrightarrow> behaves a (send c data net)"
proof -
  assume b: "behaves a net"
  have "behaves net (send c data net)"
    by (auto simp: send_def Let_def intro: behaves_sendInLoop behaves_queue)
  with b show ?thesis by (rule behaves_trans)
qed

lemma behaves_shutdown: "behaves a net \<Longrightarrow> behaves a (shutdown c net)"
proof -
  assume b: "behaves a net"
  have "behaves net (setState c kDisconnecting net)" if "cn_state (conns net c) = kConnected"
    unfolding setState_def using that by (intro behaves_upd_conn) (simp_all add: same_life_def)
  then have "behaves net (shutdown c net)"
    by (auto simp: shutdown_def Let_def intro!: behaves_shutdownInLoop behaves_queue)
  with b show ?thesis by (rule behaves_trans)
qed

lemma behaves_handleWrite: "behaves a net \<Longrightarrow> behaves a (handleWrite c net)"
proof -
  assume b: "behaves a net"
  obtain r n where sw: "sock_write c (content (outputBuffer (conns net c))) net = (r, n)" by fastforce
  then have n: "behaves a n" using behaves_sock_write [OF b, of c "content (outputBuffer (conns net c))"] by simp
  show ?thesis
    unfolding handleWrite_def Let_def sw using b n
    by (auto split: write_result.split intro!: behaves_shutdownInLoop behaves_queue behaves_on_channel behaves_outgoing)
qed

lemmas behaves_ops = behaves_send behaves_shutdown behaves_sendInLoop behaves_shutdownInLoop behaves_handleWrite
  behaves_outgoing behaves_on_channel

section \<open>The invariant\<close>

text \<open>No plain pointer to \<open>c\<close> is queued behind \<^verbatim>\<open>connectDestroyed\<close> of \<open>c\<close>.\<close>

fun raw_first :: "cid \<Rightarrow> loop_functor list \<Rightarrow> bool" where
  "raw_first c [] = True"
| "raw_first c (f # fs) = ((f = FConnectDestroyed c \<longrightarrow> (\<forall>g \<in> set fs. raw_of g \<noteq> Some c)) \<and> raw_first c fs)"

lemma raw_first_append [simp]:
  "raw_first c (xs @ ys) \<longleftrightarrow> raw_first c xs \<and> raw_first c ys \<and>
     (FConnectDestroyed c \<in> set xs \<longrightarrow> (\<forall>g \<in> set ys. raw_of g \<noteq> Some c))"
  by (induction xs) auto

lemma raw_first_quiet: "FConnectDestroyed c \<notin> set fs \<Longrightarrow> raw_first c fs"
  by (induction fs) auto

text \<open>What is true of every connection, by the state it is in and the functors that wait.\<close>

definition life_ok :: "cid \<Rightarrow> (lid \<Rightarrow> loop_functor list) \<Rightarrow> 'a snet \<Rightarrow> bool" where
  "life_ok c Q net \<longleftrightarrow> (let k = conns net c; s = usr net in
     (\<forall>l f. f \<in> set (Q l) \<longrightarrow> raw_of f = Some c \<longrightarrow> l = cn_loop k \<and> cn_state k \<noteq> kConnecting \<and>
        (connections s (cn_name k) = Some c \<or> FConnectDestroyed c \<in> set (Q l))) \<and>
     (\<forall>l. FRemoveConnectionInLoop c \<in> set (Q l) \<longrightarrow>
        l = srv_loop s \<and> cn_state k = kDisconnected \<and> connections s (cn_name k) = Some c) \<and>
     (\<forall>l. FConnectDestroyed c \<in> set (Q l) \<longrightarrow>
        l = cn_loop k \<and> cn_state k = kDisconnected \<and> (\<forall>n. connections s n \<noteq> Some c)) \<and>
     (\<forall>l. FConnectEstablished c \<in> set (Q l) \<longrightarrow>
        l = cn_loop k \<and> cn_state k = kConnecting \<and> connections s (cn_name k) = Some c) \<and>
     (\<forall>n. connections s n = Some c \<longrightarrow> n = cn_name k) \<and>
     (cn_state k = kConnected \<or> cn_state k = kDisconnecting \<longrightarrow> connections s (cn_name k) = Some c) \<and>
     (\<forall>l. count_list (Q l) (FRemoveConnectionInLoop c) \<le> 1 \<and> count_list (Q l) (FConnectDestroyed c) \<le> 1 \<and>
        count_list (Q l) (FConnectEstablished c) \<le> 1) \<and>
     (\<forall>l. raw_first c (Q l)))"

definition life_inv :: "(lid \<Rightarrow> loop_functor list) \<Rightarrow> 'a snet \<Rightarrow> bool" where
  "life_inv Q net \<longleftrightarrow> srv_inv (usr net) \<and> (\<forall>c. life_ok c Q net)"

lemma life_okD:
  assumes "life_ok c Q net"
  shows "f \<in> set (Q l) \<Longrightarrow> raw_of f = Some c \<Longrightarrow> l = cn_loop (conns net c) \<and> cn_state (conns net c) \<noteq> kConnecting \<and>
      (connections (usr net) (cn_name (conns net c)) = Some c \<or> FConnectDestroyed c \<in> set (Q l))"
    and "FRemoveConnectionInLoop c \<in> set (Q l) \<Longrightarrow> l = srv_loop (usr net) \<and> cn_state (conns net c) = kDisconnected \<and>
      connections (usr net) (cn_name (conns net c)) = Some c"
    and "FConnectDestroyed c \<in> set (Q l) \<Longrightarrow> l = cn_loop (conns net c) \<and> cn_state (conns net c) = kDisconnected \<and>
      connections (usr net) n \<noteq> Some c"
    and "FConnectEstablished c \<in> set (Q l) \<Longrightarrow> l = cn_loop (conns net c) \<and> cn_state (conns net c) = kConnecting \<and>
      connections (usr net) (cn_name (conns net c)) = Some c"
    and "connections (usr net) n = Some c \<Longrightarrow> n = cn_name (conns net c)"
    and "cn_state (conns net c) = kConnected \<or> cn_state (conns net c) = kDisconnecting \<Longrightarrow>
      connections (usr net) (cn_name (conns net c)) = Some c"
    and "count_list (Q l) (FRemoveConnectionInLoop c) \<le> 1" and "count_list (Q l) (FConnectDestroyed c) \<le> 1"
    and "count_list (Q l) (FConnectEstablished c) \<le> 1" and "raw_first c (Q l)"
  using assms unfolding life_ok_def Let_def by metis+

lemma life_okI:
  assumes "\<And>l f. f \<in> set (Q l) \<Longrightarrow> raw_of f = Some c \<Longrightarrow> l = cn_loop (conns net c) \<and> cn_state (conns net c) \<noteq> kConnecting \<and>
      (connections (usr net) (cn_name (conns net c)) = Some c \<or> FConnectDestroyed c \<in> set (Q l))"
    and "\<And>l. FRemoveConnectionInLoop c \<in> set (Q l) \<Longrightarrow> l = srv_loop (usr net) \<and> cn_state (conns net c) = kDisconnected \<and>
      connections (usr net) (cn_name (conns net c)) = Some c"
    and "\<And>l n. FConnectDestroyed c \<in> set (Q l) \<Longrightarrow> l = cn_loop (conns net c) \<and> cn_state (conns net c) = kDisconnected \<and>
      connections (usr net) n \<noteq> Some c"
    and "\<And>l. FConnectEstablished c \<in> set (Q l) \<Longrightarrow> l = cn_loop (conns net c) \<and> cn_state (conns net c) = kConnecting \<and>
      connections (usr net) (cn_name (conns net c)) = Some c"
    and "\<And>n. connections (usr net) n = Some c \<Longrightarrow> n = cn_name (conns net c)"
    and "cn_state (conns net c) = kConnected \<or> cn_state (conns net c) = kDisconnecting \<Longrightarrow>
      connections (usr net) (cn_name (conns net c)) = Some c"
    and "\<And>l. count_list (Q l) (FRemoveConnectionInLoop c) \<le> 1" and "\<And>l. count_list (Q l) (FConnectDestroyed c) \<le> 1"
    and "\<And>l. count_list (Q l) (FConnectEstablished c) \<le> 1" and "\<And>l. raw_first c (Q l)"
  shows "life_ok c Q net"
  unfolding life_ok_def Let_def using assms by blast

text \<open>Taking the first functor out of a queue.\<close>

lemma life_ok_pop:
  assumes "life_ok c Q net" and "Q l = f # fs"
  shows "life_ok c (Q(l := fs)) net"
proof -
  note D = life_okD [OF assms(1)]
  have sub: "g \<in> set ((Q(l := fs)) m) \<Longrightarrow> g \<in> set (Q m)" for g m using assms(2) by (simp split: if_splits)
  have raw: "FConnectDestroyed c \<in> set ((Q(l := fs)) m)"
    if "g \<in> set ((Q(l := fs)) m)" "raw_of g = Some c" "FConnectDestroyed c \<in> set (Q m)" for g m
    using that assms(2) D(10) [of l] by (auto split: if_splits)
  have cnt: "count_list ((Q(l := fs)) m) g \<le> count_list (Q m) g" for g m using assms(2) by simp
  show ?thesis
    unfolding life_ok_def Let_def
  proof (intro conjI allI impI)
    fix m g assume "g \<in> set ((Q(l := fs)) m)" "raw_of g = Some c"
    then show "connections (usr net) (cn_name (conns net c)) = Some c \<or> FConnectDestroyed c \<in> set ((Q(l := fs)) m)"
      using D(1) [OF sub] raw by blast
  next
    show "raw_first c ((Q(l := fs)) m)" for m using D(10) [of m] assms(2) by auto
  qed (use D sub in blast | use D(7-9) cnt le_trans in blast)+
qed

lemma life_pop: "life_inv Q net \<Longrightarrow> Q l = f # fs \<Longrightarrow> life_inv (Q(l := fs)) net"
  by (simp add: life_inv_def life_ok_pop)

text \<open>A functor that is there once is gone when it is taken out.\<close>

lemma once_gone:
  assumes "Q l = g # fs" and "count_list (Q l) g \<le> 1" and "\<And>m. g \<in> set (Q m) \<Longrightarrow> m = L"
  shows "g \<notin> set ((Q(l := fs)) m)"
proof -
  have "g \<notin> set fs" using assms(1,2) by (simp add: count_list_0_iff)
  moreover have "l = L" using assms(1) assms(3) [of l] by simp
  ultimately show ?thesis using assms(3) [of m] by auto
qed

lemma once_popped:
  assumes "life_inv Q net"
  shows "Q l = FRemoveConnectionInLoop c # fs \<Longrightarrow> FRemoveConnectionInLoop c \<notin> set ((Q(l := fs)) m)"
    and "Q l = FConnectEstablished c # fs \<Longrightarrow> FConnectEstablished c \<notin> set ((Q(l := fs)) m)"
    and "Q l = FConnectDestroyed c # fs \<Longrightarrow> FConnectDestroyed c \<notin> set ((Q(l := fs)) m)"
proof -
  have k: "life_ok c Q net" using assms by (simp add: life_inv_def)
  note D = life_okD [OF k]
  show "Q l = FRemoveConnectionInLoop c # fs \<Longrightarrow> FRemoveConnectionInLoop c \<notin> set ((Q(l := fs)) m)"
    using D(2,7) by (intro once_gone) blast+
  show "Q l = FConnectEstablished c # fs \<Longrightarrow> FConnectEstablished c \<notin> set ((Q(l := fs)) m)"
    using D(4,9) by (intro once_gone) blast+
  show "Q l = FConnectDestroyed c # fs \<Longrightarrow> FConnectDestroyed c \<notin> set ((Q(l := fs)) m)"
    using D(3,8) by (intro once_gone) blast+
qed

text \<open>Whatever behaves keeps the invariant.  \<open>R\<close> are the functors the loops have taken and not called.\<close>

abbreviation queues :: "(lid \<Rightarrow> loop_functor list) \<Rightarrow> 'u net \<Rightarrow> lid \<Rightarrow> loop_functor list" where
  "queues R net \<equiv> \<lambda>l. R l @ pend net l"

lemma life_ok_behaves:
  assumes "life_ok c (queues R a) a" and "behaves a b"
  shows "life_ok c (queues R b) b"
proof -
  note D = life_okD [OF assms(1)]
  obtain G where G: "\<And>l. pend b l = pend a l @ G l" "\<And>l f. f \<in> set (G l) \<Longrightarrow> may_queue a l f"
    using assms(2) unfolding behaves_def by metis
  have Q: "queues R b l = queues R a l @ G l" for l using G(1) by simp
  have S: "srv_loop (usr b) = srv_loop (usr a)" "connections (usr b) = connections (usr a)"
    using assms(2) by (auto simp: behaves_def srv_part_def)
  have L: "same_life (conns a c) (conns b c)" using assms(2) by (simp add: behaves_def)
  have new: "FRemoveConnectionInLoop d \<notin> set (G l)" "FConnectDestroyed d \<notin> set (G l)" "FConnectEstablished d \<notin> set (G l)"
    for d l using G(2) [of _ l] by fastforce+
  have raw: "l = cn_loop (conns a c) \<and> cn_state (conns a c) = kConnected" if "f \<in> set (G l)" "raw_of f = Some c" for f l
    using G(2) [OF that(1)] that(2) by (cases f) auto
  have conn: "cn_state (conns a c) = kConnected \<Longrightarrow> connections (usr a) (cn_name (conns a c)) = Some c"
    "cn_state (conns a c) = kConnected \<Longrightarrow> FConnectDestroyed c \<notin> set (queues R a l)" for l
    using D(3,6) by auto
  show ?thesis
    unfolding life_ok_def Let_def
  proof (intro conjI allI impI)
    fix l f assume f: "f \<in> set (queues R b l)" "raw_of f = Some c"
    consider "f \<in> set (queues R a l)" | "f \<in> set (G l)" using f(1) Q by auto
    then have "l = cn_loop (conns a c) \<and> cn_state (conns a c) \<noteq> kConnecting \<and>
        (connections (usr a) (cn_name (conns a c)) = Some c \<or> FConnectDestroyed c \<in> set (queues R a l))"
      by cases (use D(1) f(2) raw conn(1) in auto)
    then show "l = cn_loop (conns b c)" "cn_state (conns b c) \<noteq> kConnecting"
      "connections (usr b) (cn_name (conns b c)) = Some c \<or> FConnectDestroyed c \<in> set (queues R b l)"
      using L S Q [of l] by (auto simp: same_life_def)
  next
    fix l
    have "\<forall>g \<in> set (G l). raw_of g \<noteq> Some c" if "FConnectDestroyed c \<in> set (queues R a l)"
      using that raw [of _ l] conn(2) [of l] by blast
    moreover have "raw_first c (G l)" using new(2) by (rule raw_first_quiet)
    ultimately show "raw_first c (queues R b l)" using D(10) [of l] unfolding Q by auto
    show "count_list (queues R b l) (FRemoveConnectionInLoop c) \<le> 1" "count_list (queues R b l) (FConnectDestroyed c) \<le> 1"
      "count_list (queues R b l) (FConnectEstablished c) \<le> 1"
      using D(7-9) [of l] new unfolding Q by (simp_all add: count_list_0_iff)
  next
    fix l assume "FRemoveConnectionInLoop c \<in> set (queues R b l)"
    then show "l = srv_loop (usr b)" "cn_state (conns b c) = kDisconnected" "connections (usr b) (cn_name (conns b c)) = Some c"
      using D(2) [of l] new(1) [of c l] L S unfolding Q by (auto simp: same_life_def)
  next
    fix l assume "FConnectDestroyed c \<in> set (queues R b l)"
    then show "l = cn_loop (conns b c)" "cn_state (conns b c) = kDisconnected" "connections (usr b) n \<noteq> Some c" for n
      using D(3) [of l] new(2) [of c l] L S unfolding Q by (auto simp: same_life_def)
  next
    fix l assume "FConnectEstablished c \<in> set (queues R b l)"
    then show "l = cn_loop (conns b c)" "cn_state (conns b c) = kConnecting" "connections (usr b) (cn_name (conns b c)) = Some c"
      using D(4) [of l] new(3) [of c l] L S unfolding Q by (auto simp: same_life_def)
  next
    show "connections (usr b) n = Some c \<Longrightarrow> n = cn_name (conns b c)" for n
      using D(5) [of n] L S by (simp add: same_life_def)
    show "cn_state (conns b c) = kConnected \<or> cn_state (conns b c) = kDisconnecting \<Longrightarrow>
        connections (usr b) (cn_name (conns b c)) = Some c"
      using D(6) L S by (auto simp: same_life_def)
  qed
qed

lemma life_behaves: "life_inv (queues R a) a \<Longrightarrow> behaves a b \<Longrightarrow> life_inv (queues R b) b"
  using srv_inv_part [of "usr b" "usr a"] life_ok_behaves [of _ R a b] by (simp add: life_inv_def behaves_def)

section \<open>Birth and death of a connection\<close>

lemma life_ok_cong:
  "conns net' c = conns net c \<Longrightarrow> connections (usr net') = connections (usr net) \<Longrightarrow>
     srv_loop (usr net') = srv_loop (usr net) \<Longrightarrow> life_ok c Q net' = life_ok c Q net"
  by (simp add: life_ok_def Let_def)

text \<open>Between \<^verbatim>\<open>setState(kDisconnected)\<close> and \<^verbatim>\<open>removeConnectionInLoop\<close>.\<close>

definition closing :: "cid \<Rightarrow> (lid \<Rightarrow> loop_functor list) \<Rightarrow> 'a snet \<Rightarrow> bool" where
  "closing c Q net \<longleftrightarrow> cn_state (conns net c) = kDisconnected \<and> connections (usr net) (cn_name (conns net c)) = Some c \<and>
     (\<forall>l. FRemoveConnectionInLoop c \<notin> set (Q l) \<and> FConnectDestroyed c \<notin> set (Q l))"

lemma closing_behaves: "closing c (queues R a) a \<Longrightarrow> behaves a b \<Longrightarrow> closing c (queues R b) b"
proof -
  assume c: "closing c (queues R a) a" and b: "behaves a b"
  obtain G where G: "\<And>l. pend b l = pend a l @ G l" "\<And>l f. f \<in> set (G l) \<Longrightarrow> may_queue a l f"
    using b unfolding behaves_def by metis
  have "FRemoveConnectionInLoop c \<notin> set (G l)" "FConnectDestroyed c \<notin> set (G l)" for l
    using G(2) [of _ l] by fastforce+
  moreover have "same_life (conns a c) (conns b c)" "connections (usr b) = connections (usr a)"
    using b by (auto simp: behaves_def srv_part_def)
  ultimately show ?thesis using c G(1) by (auto simp: closing_def same_life_def)
qed

lemma life_close:
  assumes "\<forall>d. life_ok d Q net" and "cn_state (conns net c) = kConnected \<or> cn_state (conns net c) = kDisconnecting"
  shows "\<forall>d. life_ok d Q (setState c kDisconnected net)" and "closing c Q (setState c kDisconnected net)"
proof -
  let ?n = "setState c kDisconnected net"
  have k: "life_ok c Q net" using assms(1) by blast
  note D = life_okD [OF k]
  have m: "connections (usr net) (cn_name (conns net c)) = Some c" using D(6) assms(2) by simp
  have no: "FRemoveConnectionInLoop c \<notin> set (Q l)" "FConnectDestroyed c \<notin> set (Q l)" "FConnectEstablished c \<notin> set (Q l)" for l
    using D(2,3,4) [of l] assms(2) by auto
  show "closing c Q ?n" using m no by (simp add: closing_def)
  have "life_ok c Q ?n"
  proof (rule life_okI)
    fix l f assume "f \<in> set (Q l)" "raw_of f = Some c"
    from D(1) [OF this] show "l = cn_loop (conns ?n c) \<and> cn_state (conns ?n c) \<noteq> kConnecting \<and>
        (connections (usr ?n) (cn_name (conns ?n c)) = Some c \<or> FConnectDestroyed c \<in> set (Q l))"
      using m by simp
  next
    show "connections (usr ?n) n = Some c \<Longrightarrow> n = cn_name (conns ?n c)" for n using D(5) [of n] by simp
  qed (use no m D(7-10) in simp_all)
  moreover have "life_ok d Q ?n" if "d \<noteq> c" for d
    using assms(1) that life_ok_cong [of ?n d net Q] by simp
  ultimately show "\<forall>d. life_ok d Q ?n" by metis
qed

text \<open>Functors that do not concern a connection.\<close>

fun concerns :: "cid \<Rightarrow> loop_functor \<Rightarrow> bool" where
  "concerns c (FWriteComplete d) = False"
| "concerns c (FHighWaterMark d n) = False"
| "concerns c f = (raw_of f = Some c \<or> owner_of f = Some c)"

lemma concerns_simps [simp]:
  "concerns c (FRemoveConnectionInLoop c)" "concerns c (FConnectDestroyed c)" "concerns c (FConnectEstablished c)"
  "raw_of f = Some c \<Longrightarrow> concerns c f"
  by (simp_all, cases f, simp_all)

lemma life_ok_append:
  assumes "life_ok c Q net" and "\<And>l f. f \<in> set (E l) \<Longrightarrow> \<not> concerns c f"
  shows "life_ok c (\<lambda>l. Q l @ E l) net"
proof -
  note D = life_okD [OF assms(1)]
  have in_Q: "f \<in> set (Q l)" if "concerns c f" "f \<in> set (Q l @ E l)" for f l
    using that assms(2) by auto
  have raw: "\<forall>g \<in> set (E l). raw_of g \<noteq> Some c" for l using assms(2) concerns_simps(4) by blast
  have cnt: "count_list (Q l @ E l) g = count_list (Q l) g" if "concerns c g" for g l
  proof -
    have "g \<notin> set (E l)" using assms(2) that by blast
    then show ?thesis by (simp add: count_list_0_iff)
  qed
  have "FConnectDestroyed c \<notin> set (E l)" for l using assms(2) concerns_simps(2) by blast
  then have E: "raw_first c (E l)" for l by (rule raw_first_quiet)
  show ?thesis
    unfolding life_ok_def Let_def
  proof (intro conjI allI impI)
    fix l f assume f: "f \<in> set (Q l @ E l)" "raw_of f = Some c"
    from D(1) [OF in_Q [OF _ f(1)] f(2)] f(2)
    show "l = cn_loop (conns net c)" "cn_state (conns net c) \<noteq> kConnecting"
      "connections (usr net) (cn_name (conns net c)) = Some c \<or> FConnectDestroyed c \<in> set (Q l @ E l)"
      by auto
  next
    show "raw_first c (Q l @ E l)" for l using D(10) [of l] E [of l] raw [of l] by simp
  next
    fix l
    show "count_list (Q l @ E l) (FRemoveConnectionInLoop c) \<le> 1" unfolding cnt [OF concerns_simps(1)] by (rule D(7))
    show "count_list (Q l @ E l) (FConnectDestroyed c) \<le> 1" unfolding cnt [OF concerns_simps(2)] by (rule D(8))
    show "count_list (Q l @ E l) (FConnectEstablished c) \<le> 1" unfolding cnt [OF concerns_simps(3)] by (rule D(9))
  qed (use D(2-6) in_Q concerns_simps(1-3) in blast)+
qed

lemma queues_queue_in:
  "queues R (queue_in l f net) = (\<lambda>m. queues R net m @ (if m = l then [f] else []))"
  by auto

lemma life_queue_remove:
  assumes "\<forall>d. life_ok d (queues R net) net" and "closing c (queues R net) net"
  defines "net' \<equiv> queue_in (srv_loop (usr net)) (FRemoveConnectionInLoop c) net"
  shows "life_ok d (queues R net') net'"
proof -
  define Q where "Q = queues R net"
  let ?E = "\<lambda>l. if l = srv_loop (usr net) then [FRemoveConnectionInLoop c] else []"
  have k: "life_ok e Q net" for e using assms(1) by (simp add: Q_def)
  note D = life_okD [OF k]
  have C: "cn_state (conns net c) = kDisconnected" "connections (usr net) (cn_name (conns net c)) = Some c"
    "FRemoveConnectionInLoop c \<notin> set (Q l)" "FConnectDestroyed c \<notin> set (Q l)" for l
    using assms(2) by (auto simp: closing_def Q_def)
  have est: "FConnectEstablished c \<notin> set (Q l)" for l using D(4) [of c l] C(1) by auto
  have "life_ok d (\<lambda>l. Q l @ ?E l) net"
  proof (cases "d = c")
    case True
    have raw: "\<forall>f \<in> set (?E l). raw_of f \<noteq> Some c" for l by simp
    show ?thesis
      unfolding True
    proof (rule life_okI)
      fix l f assume "f \<in> set (Q l @ ?E l)" "raw_of f = Some c"
      then have "f \<in> set (Q l)" using raw by auto
      from D(1) [OF this \<open>raw_of f = Some c\<close>]
      show "l = cn_loop (conns net c) \<and> cn_state (conns net c) \<noteq> kConnecting \<and>
          (connections (usr net) (cn_name (conns net c)) = Some c \<or> FConnectDestroyed c \<in> set (Q l @ ?E l))"
        using C(2) by simp
    next
      show "raw_first c (Q l @ ?E l)" for l using D(10) [of c l] C(4) by simp
      show "connections (usr net) n = Some c \<Longrightarrow> n = cn_name (conns net c)" for n by (rule D(5))
    qed (use C est in \<open>simp_all add: count_notin split: if_splits\<close>)
  next
    case False
    then show ?thesis using k by (intro life_ok_append) (auto split: if_splits)
  qed
  moreover have "queues R net' = (\<lambda>l. Q l @ ?E l)" unfolding net'_def Q_def by (rule queues_queue_in)
  ultimately show ?thesis using life_ok_cong [of net' d net] by (simp add: net'_def)
qed

lemma life_remove:
  assumes "\<forall>d. life_ok d (queues R net) net" and "closing c (queues R net) net"
  defines "net' \<equiv> removeConnectionInLoop c net"
  shows "life_ok d (queues R net') net'"
proof -
  define Q where "Q = queues R net"
  let ?k = "conns net c"
  let ?E = "\<lambda>l. if l = cn_loop ?k then [FConnectDestroyed c] else []"
  define net1 where "net1 = upd_usr (\<lambda>s. s\<lparr>connections := (connections s)(cn_name ?k := None)\<rparr>) net"
  have k: "life_ok e Q net" for e using assms(1) by (simp add: Q_def)
  note D = life_okD [OF k]
  have C: "cn_state ?k = kDisconnected" "connections (usr net) (cn_name ?k) = Some c"
    "FRemoveConnectionInLoop c \<notin> set (Q l)" "FConnectDestroyed c \<notin> set (Q l)" for l
    using assms(2) by (auto simp: closing_def Q_def)
  have n: "conns net1 = conns net" "srv_loop (usr net1) = srv_loop (usr net)"
    "connections (usr net1) = (connections (usr net))(cn_name ?k := None)"
    by (simp_all add: net1_def)
  have gone: "connections (usr net1) m \<noteq> Some c" for m using D(5) [where c = c and n = m] n(3) by auto
  have est: "FConnectEstablished c \<notin> set (Q l)" for l using D(4) [of c l] C(1) by auto
  have other: "life_ok e Q net1" if "e \<noteq> c" for e
  proof -
    have keep: "connections (usr net1) (cn_name (conns net e)) = Some e"
      if "connections (usr net) (cn_name (conns net e)) = Some e" using that \<open>e \<noteq> c\<close> C(2) n(3) by auto
    have old: "connections (usr net1) m = Some e \<Longrightarrow> connections (usr net) m = Some e" for m
      using n(3) by (simp split: if_splits)
    show ?thesis
    proof (rule life_okI)
      fix l f assume "f \<in> set (Q l)" "raw_of f = Some e"
      from D(1) [OF this] show "l = cn_loop (conns net1 e) \<and> cn_state (conns net1 e) \<noteq> kConnecting \<and>
          (connections (usr net1) (cn_name (conns net1 e)) = Some e \<or> FConnectDestroyed e \<in> set (Q l))"
        using keep n(1) by auto
    next
      show "connections (usr net1) m = Some e \<Longrightarrow> m = cn_name (conns net1 e)" for m
        using D(5) old n(1) by simp
    next
      fix l m assume "FConnectDestroyed e \<in> set (Q l)"
      from D(3) [OF this] show "l = cn_loop (conns net1 e) \<and> cn_state (conns net1 e) = kDisconnected \<and>
          connections (usr net1) m \<noteq> Some e" using old n(1) by auto
    next
      show "count_list (Q l) (FRemoveConnectionInLoop e) \<le> 1" "count_list (Q l) (FConnectDestroyed e) \<le> 1"
        "count_list (Q l) (FConnectEstablished e) \<le> 1" "raw_first e (Q l)" for l by (rule D)+
    qed (use D(2,4,6) keep in \<open>simp_all add: n(1,2)\<close>)
  qed
  have "life_ok d (\<lambda>l. Q l @ ?E l) net1"
  proof (cases "d = c")
    case True
    have raw: "\<forall>f \<in> set (?E l). raw_of f \<noteq> Some c" for l by simp
    show ?thesis
      unfolding True
    proof (rule life_okI)
      fix l f assume "f \<in> set (Q l @ ?E l)" "raw_of f = Some c"
      then have "f \<in> set (Q l)" using raw by auto
      from D(1) [OF this \<open>raw_of f = Some c\<close>]
      show "l = cn_loop (conns net1 c) \<and> cn_state (conns net1 c) \<noteq> kConnecting \<and>
          (connections (usr net1) (cn_name (conns net1 c)) = Some c \<or> FConnectDestroyed c \<in> set (Q l @ ?E l))"
        by (simp add: n(1))
    next
      show "raw_first c (Q l @ ?E l)" for l using D(10) [of c l] C(4) by simp
    qed (use C est gone n(1) in \<open>simp_all add: count_notin split: if_splits\<close>)
  next
    case False
    then show ?thesis using other by (intro life_ok_append) (auto split: if_splits)
  qed
  moreover have e: "net' = queue_in (cn_loop ?k) (FConnectDestroyed c) net1"
    by (simp add: net'_def net1_def removeConnectionInLoop_def Let_def)
  have "queues R net' = (\<lambda>l. Q l @ ?E l)" unfolding e Q_def queues_queue_in by (simp add: net1_def)
  ultimately show ?thesis using life_ok_cong [of net' d net1] e by simp
qed

text \<open>A new connection at an address nobody holds, under a name nobody has.\<close>

lemma life_new:
  assumes "\<forall>d. life_ok d Q net" and "\<not> held c Q net" and "connections (usr net) nm = None"
    and n: "conns net' = (conns net)(c := k)" "connections (usr net') = (connections (usr net))(nm \<mapsto> c)"
      "srv_loop (usr net') = srv_loop (usr net)" "cn_name k = nm" "cn_state k = kConnecting"
  shows "life_ok d Q net'" and "f \<in> set (Q l) \<Longrightarrow> \<not> concerns c f"
proof -
  have k: "life_ok e Q net" for e using assms(1) by blast
  note D = life_okD [OF k]
  have free: "connections (usr net) m \<noteq> Some c" "g \<in> set (Q l) \<Longrightarrow> owner_of g \<noteq> Some c" for m l g
    using assms(2) by (auto simp: held_def)
  have no: "FRemoveConnectionInLoop c \<notin> set (Q l)" "FConnectDestroyed c \<notin> set (Q l)" "FConnectEstablished c \<notin> set (Q l)" for l
    using free(2) by fastforce+
  have raw: "raw_of g \<noteq> Some c" if "g \<in> set (Q l)" for g l
    using D(1) [OF that] free(1) no(2) by blast
  show "f \<in> set (Q l) \<Longrightarrow> \<not> concerns c f" using raw free(2) by (cases f) fastforce+
  show "life_ok d Q net'"
  proof (cases "d = c")
    case True
    show ?thesis
      unfolding True
    proof (rule life_okI)
      show "raw_first c (Q l)" for l using no(2) by (rule raw_first_quiet)
      show "connections (usr net') m = Some c \<Longrightarrow> m = cn_name (conns net' c)" for m
        using free(1) n by (simp split: if_splits)
    qed (use raw no n in \<open>simp_all add: count_notin\<close>)
  next
    case False
    have old: "connections (usr net') m = Some d \<longleftrightarrow> connections (usr net) m = Some d" for m
      using assms(3) n(2) False by auto
    have e: "conns net' d = conns net d" using n(1) False by simp
    show ?thesis using k [of d] unfolding life_ok_def Let_def e n(3) old .
  qed
qed

lemma life_queue_establish:
  assumes "\<forall>d. life_ok d (queues R net) net" and "cn_state (conns net c) = kConnecting"
    and "connections (usr net) (cn_name (conns net c)) = Some c" and "\<And>f l. f \<in> set (queues R net l) \<Longrightarrow> \<not> concerns c f"
  defines "net' \<equiv> queue_in (cn_loop (conns net c)) (FConnectEstablished c) net"
  shows "life_ok d (queues R net') net'"
proof -
  define Q where "Q = queues R net"
  let ?E = "\<lambda>l. if l = cn_loop (conns net c) then [FConnectEstablished c] else []"
  have k: "life_ok e Q net" for e using assms(1) by (simp add: Q_def)
  note D = life_okD [OF k]
  have no: "f \<in> set (Q l) \<Longrightarrow> \<not> concerns c f" for f l using assms(4) by (simp add: Q_def)
  then have none: "FRemoveConnectionInLoop c \<notin> set (Q l)" "FConnectDestroyed c \<notin> set (Q l)"
    "FConnectEstablished c \<notin> set (Q l)" "f \<in> set (Q l) \<Longrightarrow> raw_of f \<noteq> Some c" for l f
    using concerns_simps by blast+
  have "life_ok d (\<lambda>l. Q l @ ?E l) net"
  proof (cases "d = c")
    case True
    have raw: "f \<in> set (Q l @ ?E l) \<Longrightarrow> raw_of f \<noteq> Some c" for f l using none(4) by (auto split: if_splits)
    show ?thesis
      unfolding True
    proof (rule life_okI)
      show "raw_first c (Q l @ ?E l)" for l using none(2) by (intro raw_first_quiet) auto
      show "connections (usr net) m = Some c \<Longrightarrow> m = cn_name (conns net c)" for m by (rule D(5))
    qed (use raw none assms(2,3) in \<open>simp_all add: count_notin split: if_splits\<close>)
  next
    case False
    then show ?thesis using k by (intro life_ok_append) (auto split: if_splits)
  qed
  moreover have "queues R net' = (\<lambda>l. Q l @ ?E l)" unfolding net'_def Q_def by (rule queues_queue_in)
  ultimately show ?thesis using life_ok_cong [of net' d net] by (simp add: net'_def)
qed

lemma life_established:
  assumes "\<forall>d. life_ok d Q net" and "cn_state (conns net c) = kConnecting"
    and "connections (usr net) (cn_name (conns net c)) = Some c" and "\<And>l. FConnectEstablished c \<notin> set (Q l)"
  shows "life_ok d Q (setState c kConnected net)"
proof (cases "d = c")
  case True
  have k: "life_ok c Q net" using assms(1) by blast
  note D = life_okD [OF k]
  have none: "FRemoveConnectionInLoop c \<notin> set (Q l)" "FConnectDestroyed c \<notin> set (Q l)" "f \<in> set (Q l) \<Longrightarrow> raw_of f \<noteq> Some c" for l f
    using D(1,2,3) [where l = l] assms(2) by auto
  show ?thesis
    unfolding True
  proof (rule life_okI)
    show "connections (usr (setState c kConnected net)) m = Some c \<Longrightarrow> m = cn_name (conns (setState c kConnected net) c)" for m
      using D(5) by simp
    show "raw_first c (Q l)" for l by (rule D(10))
  qed (use none assms(3,4) in \<open>simp_all add: count_notin\<close>)
next
  case False
  then show ?thesis using assms(1) life_ok_cong [of "setState c kConnected net" d net Q] by simp
qed

section \<open>All loops, interleaved\<close>

definition on_loop :: "lid \<Rightarrow> 'u net \<Rightarrow> 'u net" where
  "on_loop l net = net\<lparr>curThread := threadId (evloops net l)\<rparr>"

lemma on_loop_sel [simp]:
  "conns (on_loop l net) = conns net" "usr (on_loop l net) = usr net" "evloops (on_loop l net) = evloops net"
  by (simp_all add: on_loop_def)

text \<open>The events of one descriptor, as the kernel reports them: \<^verbatim>\<open>EPOLLHUP\<close> means that both directions are
  shut down, and a socket whose reading side is shut down is readable.\<close>

definition kernel_events :: "u32 \<Rightarrow> bool" where
  "kernel_events revt \<longleftrightarrow> (revt AND EPOLLHUP \<noteq> 0 \<and> revt AND EPOLLIN = 0 \<longrightarrow> revt AND (EPOLLIN OR EPOLLPRI) = 0)"

text \<open>What a loop may find active: the listening socket only in the main loop, with an address from the
  allocator at which no object lives; a connection only in its loop and while its channel is registered.\<close>

fun may_dispatch :: "(lid \<Rightarrow> loop_functor list) \<Rightarrow> lid \<Rightarrow> activity \<Rightarrow> 'a snet \<Rightarrow> bool" where
  "may_dispatch R l ActWakeup net \<longleftrightarrow> True"
| "may_dispatch R l ActTimer net \<longleftrightarrow> True"
| "may_dispatch R l (ActAccept connfd) net \<longleftrightarrow> l = srv_loop (usr net) \<and> short_names (usr net) \<and>
     \<not> held (fst (allocs (usr net) (nAllocs (usr net)))) (queues R net) net"
| "may_dispatch R l (ActConn c revt r) net \<longleftrightarrow> l = cn_loop (conns net c) \<and> kernel_events revt \<and>
     (cn_state (conns net c) = kConnected \<or> cn_state (conns net c) = kDisconnecting)"

type_synonym 'a sched = "(lid \<Rightarrow> loop_functor list) \<times> 'a snet"

inductive life_step ::
  "'a tcp_server callbacks \<Rightarrow> ('a snet \<Rightarrow> 'a snet result) \<Rightarrow> 'a sched \<Rightarrow> 'a sched \<Rightarrow> bool" for cb tm where
  activity: "may_dispatch R l a net \<Longrightarrow> dispatch cb tm l t a (on_loop l net) = Inr net' \<Longrightarrow>
    life_step cb tm (R, net) (R, net')"
| take: "R l = [] \<Longrightarrow> life_step cb tm (R, net)
    (R(l := fst (take_functors (evloops net l))), upd_loop l (\<lambda>lp. snd (take_functors lp)) net)"
| call: "R l = f # fs \<Longrightarrow> run_functor cb f (on_loop l net) = Inr net' \<Longrightarrow> life_step cb tm (R, net) (R(l := fs), net')"
| finish: "R l = [] \<Longrightarrow> life_step cb tm (R, net) (R, upd_loop l end_functors net)"

inductive life_reach ::
  "'a tcp_server callbacks \<Rightarrow> ('a snet \<Rightarrow> 'a snet result) \<Rightarrow> 'a sched \<Rightarrow> 'a sched \<Rightarrow> bool" for cb tm s0 where
  life_init: "life_reach cb tm s0 s0"
| life_next: "life_reach cb tm s0 s \<Longrightarrow> life_step cb tm s t \<Longrightarrow> life_reach cb tm s0 t"

text \<open>The server before its first connection.\<close>

definition life_start :: "'a sched \<Rightarrow> bool" where
  "life_start s \<longleftrightarrow> (case s of (R, net) \<Rightarrow>
     connections (usr net) = Map.empty \<and> 1 \<le> nextConnId (usr net) \<and>
     (\<forall>c. cn_state (conns net c) = kConnecting) \<and> (\<forall>l. set (R l) \<union> set (pend net l) \<subseteq> {FListen}))"

lemma life_start_inv: "life_start (R, net) \<Longrightarrow> life_inv (queues R net) net"
proof -
  assume s: "life_start (R, net)"
  have f: "f = FListen" if "f \<in> set (queues R net l)" for f l using s that by (auto simp: life_start_def)
  have "life_ok c (queues R net) net" for c
  proof (rule life_okI)
    show "raw_first c (queues R net l)" for l using f by (intro raw_first_quiet) blast
    show "count_list (queues R net l) (FRemoveConnectionInLoop c) \<le> 1" "count_list (queues R net l) (FConnectDestroyed c) \<le> 1"
      "count_list (queues R net l) (FConnectEstablished c) \<le> 1" for l
      using f by (subst count_notin; blast | simp)+
  qed (use f s in \<open>fastforce simp: life_start_def\<close>)+
  then show ?thesis using s by (simp add: life_inv_def srv_inv_def life_start_def)
qed

section \<open>Applications that behave\<close>

locale behaved_app =
  fixes cb :: "'a tcp_server callbacks" and tm :: "'a snet \<Rightarrow> 'a snet result"
  assumes on_connection: "connectionCallback cb c net = Inr net' \<Longrightarrow> behaves net net'"
    and on_message: "messageCallback cb c t net = Inr net' \<Longrightarrow> behaves net net'"
    and on_written: "writeCompleteCallback cb c net = Inr net' \<Longrightarrow> behaves net net'"
    and on_high_water: "highWaterMarkCallback cb c n net = Inr net' \<Longrightarrow> behaves net net'"
    and on_timer: "tm net = Inr net' \<Longrightarrow> behaves net net'"
    and on_close: "closeCb cb = removeConnection"
begin

lemma establish:
  assumes "life_inv (queues R net) net" and "cn_state (conns net c) = kConnecting"
    and "connections (usr net) (cn_name (conns net c)) = Some c" and "\<And>l. FConnectEstablished c \<notin> set (queues R net l)"
    and "connectEstablished cb c net = Inr net'"
  shows "life_inv (queues R net') net'"
proof -
  let ?n1 = "setState c kConnected net"
  let ?n2 = "on_channel enableReading c (upd_conn c (\<lambda>k. k\<lparr>cn_channel := tie (cn_channel k)\<rparr>) ?n1)"
  have "life_ok d (queues R net) ?n1" for d
    using assms(1) by (intro life_established [OF _ assms(2-4)]) (simp add: life_inv_def)
  then have i: "life_inv (queues R ?n1) ?n1" using assms(1) by (simp add: life_inv_def)
  have "behaves ?n1 ?n2" by (intro behaves_on_channel behaves_outgoing) simp_all
  moreover have "behaves ?n2 net'" using assms(5) by (intro on_connection) (simp add: connectEstablished_def)
  ultimately show ?thesis using life_behaves [OF i] behaves_trans by blast
qed

lemma close_down:
  assumes "life_inv (queues R net) net" and "cn_state (conns net c) = kConnected \<or> cn_state (conns net c) = kDisconnecting"
    and "handleClose cb c net = Inr net'"
  shows "life_inv (queues R net') net'"
proof -
  let ?n1 = "setState c kDisconnected net"
  obtain n2 where n2: "connectionCallback cb c (on_channel disableAll c ?n1) = Inr n2" "removeConnection c n2 = Inr net'"
    using assms(3) on_close by (auto simp: handleClose_def rbind_Inr)
  have "life_inv (queues R ?n1) ?n1" and "closing c (queues R ?n1) ?n1"
    using life_close [of "queues R net" net c] assms(1,2) by (auto simp: life_inv_def)
  moreover have "behaves ?n1 n2"
    using behaves_on_channel [OF behaves_refl] on_connection [OF n2(1)] behaves_trans by blast
  ultimately have i: "life_inv (queues R n2) n2" and c: "closing c (queues R n2) n2"
    using life_behaves closing_behaves by blast+
  show ?thesis
  proof (cases "inLoopThread (srv_loop (usr n2)) n2")
    case True
    then have "net' = removeConnectionInLoop c n2" using n2(2) by (simp add: removeConnection_def runInLoop_def)
    then show ?thesis
      using life_remove [of R n2 c] i c removeConnectionInLoop_inv [of n2 c] by (simp add: life_inv_def)
  next
    case False
    then have "net' = queue_in (srv_loop (usr n2)) (FRemoveConnectionInLoop c) n2"
      using n2(2) by (simp add: removeConnection_def runInLoop_def)
    then show ?thesis using life_queue_remove [of R n2 c] i c by (simp add: life_inv_def)
  qed
qed

lemma keeps_part: "keeps_server cb"
  using on_connection by (auto simp: keeps_server_def behaves_def)

lemma accept_new:
  assumes "life_inv (queues R net) net" and "short_names (usr net)"
    and "\<not> held (fst (allocs (usr net) (nAllocs (usr net)))) (queues R net) net"
    and "newConnection cb sockfd net = Inr net'"
  shows "life_inv (queues R net') net'"
proof -
  obtain ioLoop pool' where gl: "getNextLoop (pool (usr net)) = (ioLoop, pool')" by fastforce
  obtain c p ks where al: "allocs (usr net) (nAllocs (usr net)) = (c, p, ks)" by (metis prod_cases3)
  let ?nm = "connName (usr net)"
  let ?s = "(usr net)\<lparr>pool := pool', nextConnId := nextConnId (usr net) + 1, nAllocs := nAllocs (usr net) + 1,
      connections := (connections (usr net))(?nm \<mapsto> c)\<rparr>"
  let ?k = "setWriteCompleteCallback (srvWriteComplete (usr net)) (mkTcpConnection ioLoop ?nm sockfd p ks)"
  let ?n1 = "upd_conn c (\<lambda>_. ?k) (net\<lparr>usr := ?s\<rparr>)"
  have run: "runInLoop ioLoop (FConnectEstablished c) (connectEstablished cb c) ?n1 = Inr net'"
    using assms(4) by (simp add: newConnection_def gl al Let_def)
  have k: "cn_name ?k = ?nm" "cn_state ?k = kConnecting" "cn_loop ?k = ioLoop"
    by (simp_all add: setWriteCompleteCallback_def mkTcpConnection_def)
  define n1 where "n1 = ?n1"
  have n1: "cn_name (conns n1 c) = ?nm" "cn_state (conns n1 c) = kConnecting" "cn_loop (conns n1 c) = ioLoop"
    "connections (usr n1) ?nm = Some c"
    using k by (simp_all add: n1_def)
  have none: "connections (usr net) ?nm = None"
    using assms(1,2) by (intro srv_inv_fresh) (simp_all add: life_inv_def)
  have all: "\<forall>d. life_ok d (queues R net) net" using assms(1) by (simp add: life_inv_def)
  have Q: "queues R n1 = queues R net" by (simp add: n1_def fun_eq_iff)
  have "\<not> held c (queues R net) net" using assms(3) al by simp
  note new = life_new [OF all this none, where net' = n1 and k = ?k]
  have ok: "\<forall>d. life_ok d (queues R n1) n1" unfolding Q by (intro allI new(1)) (use k in \<open>simp_all add: n1_def\<close>)
  have free: "\<not> concerns c f" if "f \<in> set (queues R n1 l)" for f l
    by (rule new(2) [of f l]) (use that k in \<open>simp_all add: n1_def\<close>)
  have inv: "srv_inv (usr net')"
    using newConnection_inv [OF keeps_part assms(2) _ assms(4)] assms(1) by (simp add: life_inv_def)
  have m: "connections (usr n1) (cn_name (conns n1 c)) = Some c" using n1 by simp
  show ?thesis
  proof (cases "inLoopThread ioLoop n1")
    case True
    then have e: "connectEstablished cb c n1 = Inr net'" using run by (simp add: runInLoop_def n1_def)
    have "srv_inv (usr n1)"
      using inv connectEstablished_part [OF keeps_part e] srv_inv_part by blast
    with ok have i: "life_inv (queues R n1) n1" by (simp add: life_inv_def)
    have "FConnectEstablished c \<notin> set (queues R n1 l)" for l using free [of "FConnectEstablished c" l] by auto
    from establish [OF i n1(2) m this e] show ?thesis .
  next
    case False
    then have n: "net' = queue_in (cn_loop (conns n1 c)) (FConnectEstablished c) n1"
      using run n1(3) by (simp add: runInLoop_def n1_def)
    have "\<forall>d. life_ok d (queues R net') net'"
      unfolding n by (intro allI life_queue_establish [OF ok n1(2) m]) (rule free)
    with inv show ?thesis by (simp add: life_inv_def)
  qed
qed

text \<open>The handlers a channel calls: the first \<^verbatim>\<open>handleClose\<close> is the last.\<close>

lemma events_step:
  assumes "life_inv (queues R net) net" and "distinct es" and "\<not> (CbClose \<in> set es \<and> CbRead \<in> set es)"
    and "CbClose \<in> set es \<or> CbRead \<in> set es \<Longrightarrow> cn_state (conns net c) = kConnected \<or> cn_state (conns net c) = kDisconnecting"
    and "on_events cb c t r es net = Inr net'"
  shows "life_inv (queues R net') net'"
  using assms
proof (induction es arbitrary: net)
  case (Cons e es)
  obtain n1 where n1: "on_event cb c t r e net = Inr n1" "on_events cb c t r es n1 = Inr net'"
    using Cons.prems(5) by (auto simp: rbind_Inr)
  have quiet: "life_inv (queues R n1) n1 \<and>
      (cn_state (conns n1 c) = cn_state (conns net c) \<or> cn_state (conns net c) = kConnected \<and> cn_state (conns n1 c) = kDisconnecting)"
    if "behaves net n1" using life_behaves [OF Cons.prems(1) that] that by (simp add: behaves_def same_life_def)
  have closed: "life_inv (queues R n1) n1" if "handleClose cb c n = Inr n1" "life_inv (queues R n) n"
    "cn_state (conns n c) = kConnected \<or> cn_state (conns n c) = kDisconnecting" for n
    using close_down that by blast
  have "life_inv (queues R n1) n1 \<and> (CbClose \<in> set es \<or> CbRead \<in> set es \<longrightarrow>
      cn_state (conns n1 c) = kConnected \<or> cn_state (conns n1 c) = kDisconnecting)"
  proof (cases e)
    case CbClose
    then show ?thesis using closed [of net] n1(1) Cons.prems by auto
  next
    case CbError
    then have "n1 = net" using n1(1) by (simp add: handleError_def)
    then show ?thesis using Cons.prems by auto
  next
    case CbWrite
    then have "behaves net n1" using n1(1) behaves_handleWrite [OF behaves_refl] by auto
    then show ?thesis using quiet Cons.prems(4) by auto
  next
    case CbRead
    obtain n b where rd: "readFd r (inputBuffer (conns net c)) = (n, b)" by fastforce
    let ?m = "upd_conn c (\<lambda>k. k\<lparr>inputBuffer := b\<rparr>) net"
    have m: "behaves net ?m" by (intro behaves_outgoing) simp_all
    have i: "life_inv (queues R ?m) ?m" by (rule life_behaves [OF Cons.prems(1) m])
    have st: "cn_state (conns ?m c) = kConnected \<or> cn_state (conns ?m c) = kDisconnecting"
      using Cons.prems(4) CbRead by simp
    consider "n > 0" "messageCallback cb c t ?m = Inr n1" | "n = 0" "handleClose cb c ?m = Inr n1" | "n < 0" "n1 = ?m"
      using n1(1) CbRead rd by (auto simp: handleRead_conn_def handleError_def Let_def split: if_splits)
    then have "life_inv (queues R n1) n1"
    proof cases
      case 1
      from life_behaves [OF i on_message [OF this(2)]] show ?thesis .
    next
      case 2
      from closed [OF this(2) i st] show ?thesis .
    qed (use i in simp)
    then show ?thesis using Cons.prems(2,3) CbRead by simp
  qed
  then show ?case using Cons.IH [OF _ _ _ _ n1(2)] Cons.prems(2,3) by auto
qed simp

lemma destroy_closed:
  assumes "life_inv (queues R net) net" and "cn_state (conns net c) = kDisconnected"
    and "connectDestroyed cb c net = Inr net'"
  shows "life_inv (queues R net') net'"
proof -
  have "net' = on_channel removeChannel c net" using assms(2,3) by (simp add: connectDestroyed_def)
  then show ?thesis using life_behaves [OF assms(1) behaves_on_channel [OF behaves_refl]] by simp
qed

text \<open>Calling the first functor of a batch.\<close>

lemma call_step:
  assumes "life_inv (queues R net) net" and "R l = f # fs" and "run_functor cb f (on_loop l net) = Inr net'"
  shows "life_inv (queues (R(l := fs)) net') net'"
proof -
  let ?R = "R(l := fs)" and ?m = "on_loop l net"
  define Q where "Q = queues R net"
  have ql: "Q l = f # (fs @ pend net l)" using assms(2) by (simp add: Q_def)
  have Q': "queues ?R net = Q(l := fs @ pend net l)" by (auto simp: Q_def)
  have iQ: "life_inv Q net" using assms(1) by (simp add: Q_def)
  have i0: "life_inv (queues ?R net) net" unfolding Q' by (rule life_pop [OF iQ ql])
  have m: "behaves net ?m" unfolding on_loop_def by (rule behaves_thread [OF behaves_refl])
  have i: "life_inv (queues ?R ?m) ?m" by (rule life_behaves [OF i0 m])
  have Qm: "queues ?R ?m = Q(l := fs @ pend net l)" unfolding Q' [symmetric] by (simp add: on_loop_def)
  have same: "conns ?m = conns net" "usr ?m = usr net" by (simp_all add: on_loop_def)
  have k: "life_ok c Q net" for c using iQ by (simp add: life_inv_def)
  note D = life_okD [OF k]
  have here: "g \<in> set (Q l)" if "g = f" for g using that ql by simp
  show ?thesis
  proof (cases f)
    case (FSendInLoop c s)
    then have "behaves ?m net'" using assms(3) behaves_sendInLoop [OF behaves_refl] by auto
    with i show ?thesis by (rule life_behaves)
  next
    case (FShutdownInLoop c)
    then have "behaves ?m net'" using assms(3) behaves_shutdownInLoop [OF behaves_refl] by auto
    with i show ?thesis by (rule life_behaves)
  next
    case (FConnectEstablished c)
    have e: "connectEstablished cb c ?m = Inr net'" using assms(3) FConnectEstablished by simp
    have "FConnectEstablished c \<notin> set (queues ?R ?m n)" for n
      using once_popped(2) [OF iQ, of l c "fs @ pend net l" n] ql FConnectEstablished fun_cong [OF Qm, of n] by simp
    from establish [OF i _ _ this e] show ?thesis using D(4) [OF here [OF FConnectEstablished [symmetric]]] same by simp
  next
    case (FConnectDestroyed c)
    have "connectDestroyed cb c ?m = Inr net'" using assms(3) FConnectDestroyed by simp
    from destroy_closed [OF i _ this] show ?thesis using D(3) [OF here [OF FConnectDestroyed [symmetric]]] same by simp
  next
    case (FRemoveConnectionInLoop c)
    have n: "net' = removeConnectionInLoop c ?m" using assms(3) FRemoveConnectionInLoop by simp
    note r = D(2) [OF here [OF FRemoveConnectionInLoop [symmetric]]]
    have "FRemoveConnectionInLoop c \<notin> set (queues ?R ?m n)" for n
      using once_popped(1) [OF iQ, of l c "fs @ pend net l" n] ql FRemoveConnectionInLoop fun_cong [OF Qm, of n] by simp
    moreover have "FConnectDestroyed c \<notin> set (queues ?R ?m n)" for n
    proof
      assume "FConnectDestroyed c \<in> set (queues ?R ?m n)"
      then have "FConnectDestroyed c \<in> set ((Q(l := fs @ pend net l)) n)" using fun_cong [OF Qm, of n] by (simp only:)
      then have "FConnectDestroyed c \<in> set (Q n)" using ql by (auto split: if_splits)
      from D(3) [OF this, of "cn_name (conns net c)"] show False using r by simp
    qed
    ultimately have "closing c (queues ?R ?m) ?m" using r same by (simp add: closing_def)
    with life_remove [of ?R ?m c] i removeConnectionInLoop_inv [of ?m c] show ?thesis
      unfolding n by (simp add: life_inv_def)
  next
    case FListen
    have "behaves ?m net'"
      using assms(3) FListen
      by (auto simp: acceptor_listen_def on_accept_channel_def Let_def srv_part_def split: if_splits
          intro!: behaves_loop behaves_usr)
    with i show ?thesis by (rule life_behaves)
  next
    case (FWriteComplete c)
    then have "behaves ?m net'" using assms(3) on_written by simp
    with i show ?thesis by (rule life_behaves)
  next
    case (FHighWaterMark c n)
    then have "behaves ?m net'" using assms(3) on_high_water by simp
    with i show ?thesis by (rule life_behaves)
  qed
qed

text \<open>One descriptor's turn.\<close>

lemma timer_behaves:
  assumes "timer_event tm l net = Inr net'"
  shows "behaves net net'"
proof -
  have fold: "behaves a net'" if "behaves a n" "fold (\<lambda>_ r. rbind r tm) xs (Inr n) = Inr net'" for a n and xs :: "'x list"
    using that
  proof (induction xs arbitrary: n)
    case (Cons x xs)
    show ?case
    proof (cases "tm n")
      case (Inl e)
      have "fold (\<lambda>_ r. rbind r tm) ys (Inl e) = Inl e" for ys :: "'x list" by (induction ys) simp_all
      then show ?thesis using Cons.prems(2) Inl by simp
    next
      case (Inr m)
      from behaves_trans [OF Cons.prems(1) on_timer [OF Inr]] Cons.prems(2) Inr
      show ?thesis by (intro Cons.IH [of m]) simp_all
    qed
  qed simp
  have "behaves net (upd_loop l (\<lambda>lp. lp\<lparr>timerQueue := handleRead (timerQueue (evloops net l))\<rparr>) net)"
    by (intro behaves_loop behaves_refl) simp
  then show ?thesis using assms fold unfolding timer_event_def Let_def by blast
qed

lemma handleEvent_distinct: "distinct (handleEvent True ch)"
  by (simp add: handleEvent_def handleEventWithGuard_def)

lemma handleEvent_once:
  "kernel_events (revents ch) \<Longrightarrow> \<not> (CbClose \<in> set (handleEvent True ch) \<and> CbRead \<in> set (handleEvent True ch))"
  by (auto simp: handleEvent_def handleEventWithGuard_def kernel_events_def split: if_splits)

lemma activity_step:
  assumes "life_inv (queues R net) net" and "may_dispatch R l a net" and "dispatch cb tm l t a (on_loop l net) = Inr net'"
  shows "life_inv (queues R net') net'"
proof -
  let ?m = "on_loop l net"
  have m: "behaves net ?m" unfolding on_loop_def by (rule behaves_thread [OF behaves_refl])
  have i: "life_inv (queues R ?m) ?m" by (rule life_behaves [OF assms(1) m])
  have same: "conns ?m = conns net" "usr ?m = usr net" "evloops ?m = evloops net" by (simp_all add: on_loop_def)
  show ?thesis
  proof (cases a)
    case ActWakeup
    then have n: "net' = upd_loop l handleRead_wakeup ?m" using assms(3) by simp
    have "behaves ?m net'" unfolding n by (intro behaves_loop behaves_refl) (simp add: handleRead_wakeup_def)
    with i show ?thesis by (rule life_behaves)
  next
    case ActTimer
    with assms(3) have "behaves ?m net'" by (intro timer_behaves) simp
    with i show ?thesis by (rule life_behaves)
  next
    case (ActAccept connfd)
    have fresh: "short_names (usr ?m)" "\<not> held (fst (allocs (usr ?m) (nAllocs (usr ?m)))) (queues R ?m) ?m"
      using assms(2) ActAccept by (simp_all add: held_def)
    have closed: "behaves ?m (upd_usr (\<lambda>s. s\<lparr>closedFds := closedFds s @ [connfd]\<rparr>) ?m)"
      by (intro behaves_usr behaves_refl) (simp_all add: srv_part_def)
    have "acceptor_handleRead cb connfd ?m = Inr net'" using assms(3) ActAccept by simp
    then have "newConnection cb connfd ?m = Inr net' \<or> behaves ?m net'"
      using closed by (auto simp: acceptor_handleRead_def split: if_splits)
    then show ?thesis using accept_new [OF i fresh] life_behaves [OF i] by blast
  next
    case (ActConn c revt r)
    let ?n = "upd_conn c (\<lambda>k. k\<lparr>cn_channel := set_revents revt (cn_channel k)\<rparr>) ?m"
    let ?es = "handleEvent True (cn_channel (conns ?n c))"
    have "behaves ?m ?n" by (intro behaves_outgoing) simp_all
    from life_behaves [OF i this] have j: "life_inv (queues R ?n) ?n" .
    have "kernel_events (revents (cn_channel (conns ?n c)))" using assms(2) ActConn by (simp add: set_revents_def)
    note once = handleEvent_once [OF this]
    have st: "cn_state (conns ?n c) = kConnected \<or> cn_state (conns ?n c) = kDisconnecting"
      using assms(2) ActConn by (simp add: same)
    have "on_events cb c t r ?es ?n = Inr net'" using assms(3) ActConn by (simp add: conn_activity_def Let_def)
    from events_step [OF j handleEvent_distinct once st this] show ?thesis .
  qed
qed

lemma step_inv:
  assumes "life_step cb tm (R, net) (R', net')" and "life_inv (queues R net) net"
  shows "life_inv (queues R' net') net'"
  using assms(1)
proof cases
  case (activity l a t)
  then show ?thesis using activity_step [OF assms(2)] by blast
next
  case (take l)
  let ?n = "upd_loop l (\<lambda>lp. snd (take_functors lp)) net"
  have "queues R' net' = queues R net"
    using take by (auto simp: take_functors_def upd_loop_def Let_def)
  moreover have "conns net' = conns net" "usr net' = usr net" using take by simp_all
  ultimately show ?thesis using assms(2) life_ok_cong [of net' _ net] by (simp add: life_inv_def)
next
  case (call l f fs)
  then show ?thesis using call_step [OF assms(2)] by simp
next
  case (finish l)
  have "behaves net net'" using finish by (auto intro!: behaves_loop simp: end_functors_def)
  then show ?thesis using life_behaves [OF assms(2)] finish by simp
qed

lemma reach_inv:
  assumes "life_reach cb tm s0 s" and "life_start s0"
  shows "life_inv (queues (fst s) (snd s)) (snd s)"
  using assms
proof (induction rule: life_reach.induct)
  case life_init
  then show ?case using life_start_inv [of "fst s0" "snd s0"] by simp
next
  case (life_next s t)
  then show ?case using step_inv [of "fst s" "snd s" "fst t" "snd t"] by simp
qed

text \<open>What follows for the functor a loop is about to call.\<close>

lemma called_alive:
  assumes "life_reach cb tm s0 (R, net)" and "life_start s0" and "R l = f # fs" and "raw_of f = Some c"
  shows "l = cn_loop (conns net c) \<and> held c (queues (R(l := fs)) net) net"
proof -
  have k: "life_ok c (queues R net) net" using reach_inv [OF assms(1,2)] by (simp add: life_inv_def)
  have "f \<in> set (queues R net l)" using assms(3) by simp
  from life_okD(1) [OF k this assms(4)] have h: "l = cn_loop (conns net c)"
    "connections (usr net) (cn_name (conns net c)) = Some c \<or> FConnectDestroyed c \<in> set (queues R net l)" by auto
  have "f \<noteq> FConnectDestroyed c" using assms(4) by auto
  then have "FConnectDestroyed c \<in> set (queues R net l) \<Longrightarrow> FConnectDestroyed c \<in> set (queues (R(l := fs)) net l)"
    using assms(3) by simp
  then show ?thesis using h unfolding held_def by (metis owner_of.simps(2))
qed

lemma destroyed_last:
  assumes "life_reach cb tm s0 (R, net)" and "life_start s0" and "R l = FConnectDestroyed c # fs"
  shows "cn_state (conns net c) = kDisconnected \<and> (\<forall>n. connections (usr net) n \<noteq> Some c) \<and>
    (\<forall>m f. f \<in> set (queues (R(l := fs)) net m) \<longrightarrow> raw_of f \<noteq> Some c \<and> f \<noteq> FConnectDestroyed c)"
proof -
  define Q where "Q = queues R net"
  have i: "life_inv Q net" using reach_inv [OF assms(1,2)] by (simp add: Q_def)
  then have k: "life_ok c Q net" by (simp add: life_inv_def)
  have ql: "Q l = FConnectDestroyed c # (fs @ pend net l)" using assms(3) by (simp add: Q_def)
  have Q': "queues (R(l := fs)) net m = (Q(l := fs @ pend net l)) m" for m by (simp add: Q_def)
  have d: "FConnectDestroyed c \<in> set (Q l)" using ql by simp
  have k': "life_ok c (Q(l := fs @ pend net l)) net" by (rule life_ok_pop [OF k ql])
  have gone: "FConnectDestroyed c \<notin> set ((Q(l := fs @ pend net l)) m)" for m by (rule once_popped(3) [OF i ql])
  have "raw_of f \<noteq> Some c" if "f \<in> set ((Q(l := fs @ pend net l)) m)" for f m
    using life_okD(1) [OF k' that] life_okD(3) [OF k d] gone by blast
  then show ?thesis using life_okD(3) [OF k d] gone unfolding Q' by blast
qed

end

end
