(* ===== verification/Test_Server.thy ===== *)
theory Test_Server
  imports Lifetimes
begin

text \<open>
  \<^verbatim>\<open>src/TestServer\<close>, the echo server: the smallest application on the library, and the shape of every
  other: a connection callback and a message callback.
\<close>

definition echo_onConnection :: "cid \<Rightarrow> 'a snet \<Rightarrow> 'a snet result" where
  "echo_onConnection c net = Inr (if connected c net then net else shutdown c net)"

definition echo_onMessage :: "cid \<Rightarrow> int \<Rightarrow> 'a snet \<Rightarrow> 'a snet result" where
  "echo_onMessage c time net =
     rbind (retrieveAllAsString (inputBuffer (conns net c))) (\<lambda>(buf, b).
       Inr (send c buf (upd_conn c (\<lambda>k. k\<lparr>inputBuffer := b\<rparr>) net)))"

definition mkTestServer ::
  "lid \<Rightarrow> string \<Rightarrow> string \<Rightarrow> cptr \<Rightarrow> int \<Rightarrow> (nat \<Rightarrow> cid \<times> cptr \<times> write_result list) \<Rightarrow> unit tcp_server" where
  "mkTestServer loop addr nm p afd al =
     (let s = mkTcpServer loop addr nm p afd al () in s\<lparr>pool := setThreadNum 3 (pool s)\<rparr>)"

definition echo_callbacks :: "'a tcp_server callbacks" where
  "echo_callbacks = \<lparr>connectionCallback = echo_onConnection, messageCallback = echo_onMessage,
     closeCb = removeConnection, writeCompleteCallback = (\<lambda>c. Inr), highWaterMarkCallback = (\<lambda>c n. Inr)\<rparr>"

interpretation echo: server_app "echo_callbacks :: 'a tcp_server callbacks"
proof
  have "usr (shutdown c net) = usr net" for c and net :: "'a snet"
    using same_restD(1) [of net "shutdown c net"] by simp
  then show "keeps_server (echo_callbacks :: 'a tcp_server callbacks)"
    by (auto simp: keeps_server_def echo_callbacks_def echo_onConnection_def)
  show "app_only (echo_callbacks :: 'a tcp_server callbacks) c" for c
    by (simp add: app_only_def echo_callbacks_def echo_onConnection_def connected_def shutdown_def)
qed

text \<open>It only sends and shuts down, and has no timer of its own.\<close>

interpretation echo_life: behaved_app "echo_callbacks :: 'a tcp_server callbacks" "Inr"
proof
  fix net net' :: "'a snet" and c t n
  show "connectionCallback echo_callbacks c net = Inr net' \<Longrightarrow> behaves net net'"
    using behaves_shutdown [OF behaves_refl] by (auto simp: echo_callbacks_def echo_onConnection_def)
  show "messageCallback echo_callbacks c t net = Inr net' \<Longrightarrow> behaves net net'"
    by (auto simp: echo_callbacks_def echo_onMessage_def rbind_Inr intro!: behaves_send behaves_outgoing)
qed (simp_all add: echo_callbacks_def)

section \<open>Properties\<close>

text \<open>The echo server answers with what it read: when \<open>data\<close> arrives on a connected connection,
  exactly what was unread before, followed by \<open>data\<close>, is appended to the outgoing stream, and the
  input buffer is empty.\<close>

theorem echo_server_echoes:
  assumes "conn_wf (conns net c)" and "healthy (conns net c)" and "connected c net"
    and "inLoopThread (cn_loop (conns net c)) net" and "data \<noteq> []"
    and "length data \<le> readv_capacity (inputBuffer (conns net c))"
  shows "\<exists>net'. handleRead_conn echo_callbacks c t (ReadOk data) net = Inr net' \<and>
    stream (conns net' c) = stream (conns net c) @ content (inputBuffer (conns net c)) @ data \<and>
    content (inputBuffer (conns net' c)) = [] \<and> conn_wf (conns net' c)"
proof -
  let ?b = "inputBuffer (conns net c)"
  let ?n1 = "upd_conn c (\<lambda>k. k\<lparr>inputBuffer := snd (readFd (ReadOk data) ?b)\<rparr>) net"
  let ?buf = "content ?b @ data"
  let ?n2 = "upd_conn c (\<lambda>k. k\<lparr>inputBuffer := retrieveAll (snd (readFd (ReadOk data) ?b))\<rparr>) ?n1"
  have inv: "buffer_inv ?b" using conn_wfD(1) [OF assms(1)] .
  have "handleRead_conn echo_callbacks c t (ReadOk data) net = Inr (send c ?buf ?n2)"
    using assms(5) readFd_ok [OF inv, of data]
    by (simp add: handleRead_conn_def case_prod_unfold Let_def echo_callbacks_def echo_onMessage_def
        retrieveAllAsString_eq rbind_def)
  moreover have "send c ?buf ?n2 = sendInLoop c ?buf ?n2"
    using assms(3,4) by (simp add: send_def connected_def)
  moreover have "conn_wf (conns ?n2 c)" "healthy (conns ?n2 c)" "cn_state (conns ?n2 c) \<noteq> kDisconnected"
    "stream (conns ?n2 c) = stream (conns net c)"
    using assms(1,2,3) readFd_ok(1) [OF inv, of data]
    by (simp_all add: conn_wf_def healthy_def connected_def stream_def)
  moreover have "inputBuffer (conns (sendInLoop c ?buf ?n2) c) = inputBuffer (conns ?n2 c)"
    using same_restD(4) [of ?n2 "sendInLoop c ?buf ?n2" c] by simp
  ultimately show ?thesis
    using sendInLoop_conn [of ?n2 c ?buf] by simp
qed

theorem echo_server_echoes_witness:
  "\<exists>net'. handleRead_conn echo_callbacks 0 5 (ReadOk ''ping'') (demo_net (demo_conn [] [WriteOk 3]) (demo_server ())) = Inr net' \<and>
    stream (conns net' 0) = ''ping''"
proof -
  let ?net = "demo_net (demo_conn [] [WriteOk 3]) (demo_server ())"
  have w: "conn_wf (conns ?net 0)" and h: "healthy (conns ?net 0)" and c: "connected 0 ?net"
    and l: "inLoopThread (cn_loop (conns ?net 0)) ?net"
    by (simp_all add: demo_conn_wf healthy_def connected_def)
  have i: "inputBuffer (conns ?net 0) = mkBuffer kInitialSize"
    by (simp add: demo_conn_def mkTcpConnection_def)
  have cap: "length ''ping'' \<le> readv_capacity (inputBuffer (conns ?net 0))"
    by (simp add: i readv_capacity_def extrabuf_size_def writableBytes_def mkBuffer_def
        kInitialSize_def kCheapPrepend_def)
  show ?thesis
    using echo_server_echoes [OF w h c l _ cap, of 5] by (auto simp: stream_def demo_conn_def mkTcpConnection_def)
qed

end
