(* ===== verification/Database.thy ===== *)
theory Database
  imports Prelude
begin

text \<open>
  \<^verbatim>\<open>db/DbConnection\<close>, \<^verbatim>\<open>UserDao\<close> and \<^verbatim>\<open>MessageDao\<close>.  The MySQL client library is the parameter \<open>api\<close>, the
  database behind it a state of arbitrary type \<open>'d\<close>, which the two DAOs share.  A row is the list
  of its columns, \<open>None\<close> for SQL's \<^verbatim>\<open>NULL\<close> (a null pointer in \<^verbatim>\<open>MYSQL_ROW\<close>).  Statements are the strings the
  code builds, cut at the first NUL where the code passes a C string.
\<close>

section \<open>The client library\<close>

type_synonym row = "string option list"

record 'd mysql_api =
  mysql_init :: "'d \<Rightarrow> bool"
  mysql_real_connect :: "'d \<Rightarrow> bool"
  mysql_query :: "string \<Rightarrow> 'd \<Rightarrow> (bool \<times> row list option) \<times> 'd"   \<comment> \<open>and \<^verbatim>\<open>mysql_store_result\<close>\<close>
  mysql_real_escape_string :: "string \<Rightarrow> string"

fun atoi_digits :: "int \<Rightarrow> string \<Rightarrow> int" where
  "atoi_digits acc [] = acc"
| "atoi_digits acc (c # cs) =
     (if 48 \<le> (of_char c :: int) \<and> (of_char c :: int) \<le> 57 then atoi_digits (acc * 10 + (of_char c - 48)) cs else acc)"

definition isspace :: "char \<Rightarrow> bool" where
  "isspace c \<longleftrightarrow> c \<in> {CHR '' '', CHR 0x09, CHR 0x0A, CHR 0x0B, CHR 0x0C, CHR 0x0D}"

definition atoi :: "string \<Rightarrow> int" where
  "atoi s =
     (case dropWhile isspace s of
        [] \<Rightarrow> 0
      | c # cs \<Rightarrow> if c = CHR ''-'' then - atoi_digits 0 cs
                  else if c = CHR ''+'' then atoi_digits 0 cs
                  else atoi_digits 0 (c # cs))"

section \<open>The connection\<close>

record db_connection =
  db_connected :: bool

definition mkDbConnection :: "'d mysql_api \<Rightarrow> 'd \<Rightarrow> db_connection" where
  "mkDbConnection api d =
     (if \<not> mysql_init api d then \<lparr>db_connected = False\<rparr>
      else if \<not> mysql_real_connect api d then \<lparr>db_connected = False\<rparr>
      else \<lparr>db_connected = True\<rparr>)"

definition execute :: "'d mysql_api \<Rightarrow> db_connection \<Rightarrow> string \<Rightarrow> 'd \<Rightarrow> bool \<times> 'd" where
  "execute api k sql d =
     (if \<not> db_connected k then (False, d)
      else case mysql_query api (c_str sql) d of ((ok, _), d) \<Rightarrow> (ok, d))"

definition query :: "'d mysql_api \<Rightarrow> db_connection \<Rightarrow> string \<Rightarrow> 'd \<Rightarrow> row list option \<times> 'd" where
  "query api k sql d =
     (if \<not> db_connected k then (None, d)
      else case mysql_query api (c_str sql) d of ((ok, rows), d) \<Rightarrow> (if ok then rows else None, d))"

text \<open>The result is rebuilt from a C string.\<close>

definition escape :: "'d mysql_api \<Rightarrow> string \<Rightarrow> string" where
  "escape api str = c_str (mysql_real_escape_string api str)"

section \<open>Users\<close>

record user =
  user_id :: int
  user_name :: string
  user_password :: string

definition quo :: string where "quo = [CHR 0x27]"

definition insert_user_sql :: "'d mysql_api \<Rightarrow> string \<Rightarrow> string \<Rightarrow> string" where
  "insert_user_sql api username password =
     ''INSERT INTO users (username, password) VALUES ('' @ quo @ escape api username @ quo @
     '', '' @ quo @ escape api password @ quo @ '')''"

definition insertUser :: "'d mysql_api \<Rightarrow> db_connection \<Rightarrow> string \<Rightarrow> string \<Rightarrow> 'd \<Rightarrow> bool \<times> 'd" where
  "insertUser api k username password d =
     (if \<not> db_connected k then (False, d) else execute api k (insert_user_sql api username password) d)"

definition select_user_sql :: "'d mysql_api \<Rightarrow> string \<Rightarrow> string" where
  "select_user_sql api username =
     ''SELECT id, username, password FROM users WHERE username = '' @ quo @ escape api username @ quo"

text \<open>\<^verbatim>\<open>row[i]\<close>; \<^verbatim>\<open>atoi\<close> of a null pointer is undefined, as is a column the row does not have.\<close>

definition col :: "row \<Rightarrow> nat \<Rightarrow> string option result" where
  "col r i = (if i < length r then Inr (r ! i) else Inl OutOfBounds)"

definition col_int :: "row \<Rightarrow> nat \<Rightarrow> int result" where
  "col_int r i = rbind (col r i) (\<lambda>v. case v of None \<Rightarrow> Inl OutOfBounds | Some s \<Rightarrow> Inr (atoi s))"

definition col_str :: "row \<Rightarrow> nat \<Rightarrow> string result" where
  "col_str r i = rbind (col r i) (\<lambda>v. Inr (case v of None \<Rightarrow> [] | Some s \<Rightarrow> s))"

definition getUserByUsername ::
  "'d mysql_api \<Rightarrow> db_connection \<Rightarrow> string \<Rightarrow> 'd \<Rightarrow> (user option \<times> 'd) result" where
  "getUserByUsername api k username d =
     (if \<not> db_connected k then Inr (None, d)
      else case query api k (select_user_sql api username) d of
        (None, d) \<Rightarrow> Inr (None, d)
      | (Some [], d) \<Rightarrow> Inr (None, d)
      | (Some (r # _), d) \<Rightarrow>
          rbind (col_int r 0) (\<lambda>i. rbind (col_str r 1) (\<lambda>n. rbind (col_str r 2) (\<lambda>p.
            Inr (Some \<lparr>user_id = i, user_name = n, user_password = p\<rparr>, d)))))"

definition verifyUser ::
  "'d mysql_api \<Rightarrow> db_connection \<Rightarrow> string \<Rightarrow> string \<Rightarrow> 'd \<Rightarrow> (bool \<times> 'd) result" where
  "verifyUser api k username password d =
     rbind (getUserByUsername api k username d) (\<lambda>(u, d).
       Inr (case u of None \<Rightarrow> False | Some u \<Rightarrow> user_password u = password, d))"

definition userExists :: "'d mysql_api \<Rightarrow> db_connection \<Rightarrow> string \<Rightarrow> 'd \<Rightarrow> (bool \<times> 'd) result" where
  "userExists api k username d =
     rbind (getUserByUsername api k username d) (\<lambda>(u, d). Inr (u \<noteq> None, d))"

definition heartBeat :: "'d mysql_api \<Rightarrow> db_connection \<Rightarrow> 'd \<Rightarrow> bool \<times> 'd" where
  "heartBeat api k d =
     (if \<not> db_connected k then (False, d)
      else case query api k ''SELECT 1'' d of (r, d) \<Rightarrow> (r \<noteq> None, d))"

definition closeDbConnection :: "db_connection \<Rightarrow> db_connection" where
  "closeDbConnection k = (if db_connected k then k\<lparr>db_connected := False\<rparr> else k)"

section \<open>Messages\<close>

record message =
  msg_id :: int
  msg_userId :: int
  msg_username :: string
  msg_content :: string
  msg_timestamp :: string

definition insert_message_sql :: "'d mysql_api \<Rightarrow> int \<Rightarrow> string \<Rightarrow> string" where
  "insert_message_sql api userId content =
     ''INSERT INTO messages (user_id, content) VALUES ('' @ int_str userId @ '', '' @ quo @
     escape api content @ quo @ '')''"

definition saveMessage :: "'d mysql_api \<Rightarrow> db_connection \<Rightarrow> int \<Rightarrow> string \<Rightarrow> 'd \<Rightarrow> bool \<times> 'd" where
  "saveMessage api k userId content d =
     (if \<not> db_connected k then (False, d) else execute api k (insert_message_sql api userId content) d)"

definition recent_sql :: "int \<Rightarrow> string" where
  "recent_sql limit =
     ''SELECT m.id, m.user_id, u.username, m.content, '' @
     ''DATE_FORMAT(m.timestamp, '' @ quo @ ''%Y-%m-%d %H:%i:%s'' @ quo @ '') as formatted_time '' @
     ''FROM messages m JOIN users u ON m.user_id = u.id '' @
     ''ORDER BY m.timestamp DESC LIMIT '' @ int_str limit"

definition row_message :: "row \<Rightarrow> message result" where
  "row_message r =
     rbind (col_int r 0) (\<lambda>i. rbind (col_int r 1) (\<lambda>uid. rbind (col_str r 2) (\<lambda>n.
     rbind (col_str r 3) (\<lambda>c. rbind (col_str r 4) (\<lambda>t.
       Inr \<lparr>msg_id = i, msg_userId = uid, msg_username = n, msg_content = c, msg_timestamp = t\<rparr>)))))"

fun fetch_messages :: "row list \<Rightarrow> message list result" where
  "fetch_messages [] = Inr []"
| "fetch_messages (r # rs) = rbind (row_message r) (\<lambda>m. rbind (fetch_messages rs) (\<lambda>ms. Inr (m # ms)))"

definition getRecentMessages ::
  "'d mysql_api \<Rightarrow> db_connection \<Rightarrow> int \<Rightarrow> 'd \<Rightarrow> (message list \<times> 'd) result" where
  "getRecentMessages api k limit d =
     (if \<not> db_connected k then Inr ([], d)
      else case query api k (recent_sql limit) d of
        (None, d) \<Rightarrow> Inr ([], d)
      | (Some rows, d) \<Rightarrow> rbind (fetch_messages rows) (\<lambda>messages. Inr (rev messages, d)))"

definition message_heartBeat :: "'d mysql_api \<Rightarrow> db_connection \<Rightarrow> 'd \<Rightarrow> bool \<times> 'd" where
  "message_heartBeat api k d =
     (if \<not> db_connected k then (False, d)
      else case query api k ''SELECT 1'' d of (r, d) \<Rightarrow> (r \<noteq> None, d))"

section \<open>SQL string literals\<close>

text \<open>How the server reads a quoted literal, from after its opening quote: the characters up to the
  closing quote, with the escapes of the MySQL manual, and the rest of the statement.\<close>

fun scan_literal :: "string \<Rightarrow> (string \<times> string) option" where
  "scan_literal [] = None"
| "scan_literal (c # cs) =
     (if c = CHR 0x27 then Some ([], cs)
      else if c = CHR 0x5C then
        (case cs of [] \<Rightarrow> None
         | e # cs' \<Rightarrow> map_option (apfst ((#)
             (if e = CHR ''0'' then CHR 0x00 else if e = CHR ''n'' then CHR 0x0A
              else if e = CHR ''r'' then CHR 0x0D else if e = CHR ''Z'' then CHR 0x1A else e)))
             (scan_literal cs'))
      else map_option (apfst ((#) c)) (scan_literal cs))"

text \<open>What the MySQL manual promises of \<^verbatim>\<open>mysql_real_escape_string\<close>: the result, between quotes, is a
  literal that denotes the argument, and it contains no NUL.\<close>

definition escapes :: "'d mysql_api \<Rightarrow> bool" where
  "escapes api \<longleftrightarrow> (\<forall>s rest. CHR 0x00 \<notin> set (mysql_real_escape_string api s) \<and>
     scan_literal (mysql_real_escape_string api s @ quo @ rest) = Some (s, rest))"

lemma c_str_id: "CHR 0x00 \<notin> set s \<Longrightarrow> c_str s = s"
  by (auto simp: c_str_def takeWhile_eq_all_conv)

lemma escape_eq: "escapes api \<Longrightarrow> escape api s = mysql_real_escape_string api s"
  by (simp add: escape_def escapes_def c_str_id)

lemma scan_escape [simp]: "escapes api \<Longrightarrow> scan_literal (escape api s @ quo @ rest) = Some (s, rest)"
  by (simp add: escape_eq escapes_def)

lemma escape_no_nul: "escapes api \<Longrightarrow> CHR 0x00 \<notin> set (escape api s)"
  by (simp add: escape_eq escapes_def)

text \<open>The escaping that the manual describes.\<close>

fun std_escape :: "string \<Rightarrow> string" where
  "std_escape [] = []"
| "std_escape (c # cs) =
     (if c = CHR 0x00 then [CHR 0x5C, CHR ''0''] else if c = CHR 0x0A then [CHR 0x5C, CHR ''n'']
      else if c = CHR 0x0D then [CHR 0x5C, CHR ''r''] else if c = CHR 0x1A then [CHR 0x5C, CHR ''Z'']
      else if c = CHR 0x27 then [CHR 0x5C, CHR 0x27] else if c = CHR 0x22 then [CHR 0x5C, CHR 0x22]
      else if c = CHR 0x5C then [CHR 0x5C, CHR 0x5C] else [c]) @ std_escape cs"

lemma std_escape_scan: "scan_literal (std_escape s @ quo @ rest) = Some (s, rest)"
  by (induction s) (auto simp: quo_def)

lemma std_escape_nul: "CHR 0x00 \<notin> set (std_escape s)"
  by (induction s) auto

section \<open>A table of users behind the statements\<close>

text \<open>\<open>tbl d u\<close> is what the table holds for the user name \<open>u\<close>: the row's id and its password.  The
  server answers the two statements the code sends: a selection yields the row, if any, and changes
  nothing; an insertion of a new name succeeds and adds exactly that row.\<close>

definition users_table :: "'d mysql_api \<Rightarrow> ('d \<Rightarrow> string \<Rightarrow> (string \<times> string) option) \<Rightarrow> bool" where
  "users_table api tbl \<longleftrightarrow>
     (\<forall>d u. mysql_query api (select_user_sql api u) d =
        ((True, Some (case tbl d u of None \<Rightarrow> [] | Some (i, p) \<Rightarrow> [[Some i, Some u, Some p]])), d)) \<and>
     (\<forall>d u p. tbl d u = None \<longrightarrow>
        (\<exists>i rs d'. mysql_query api (insert_user_sql api u p) d = ((True, rs), d') \<and> tbl d' = (tbl d)(u \<mapsto> (i, p))))"

lemma sql_no_nul:
  assumes "escapes api"
  shows "c_str (select_user_sql api u) = select_user_sql api u"
    and "c_str (insert_user_sql api u p) = insert_user_sql api u p"
    and "c_str (insert_message_sql api i m) = insert_message_sql api i m \<longleftrightarrow> CHR 0x00 \<notin> set (int_str i)"
  using escape_no_nul [OF assms]
  by (auto simp: select_user_sql_def insert_user_sql_def insert_message_sql_def quo_def c_str_def
      takeWhile_eq_all_conv)

lemma getUserByUsername_table:
  assumes "escapes api" and "users_table api tbl" and "db_connected k"
  shows "getUserByUsername api k u d =
    Inr (map_option (\<lambda>(i, p). \<lparr>user_id = atoi i, user_name = u, user_password = p\<rparr>) (tbl d u), d)"
  using assms(2,3) sql_no_nul(1) [OF assms(1), of u]
  by (auto simp: getUserByUsername_def query_def users_table_def col_int_def col_str_def col_def
      rbind_def split: option.split)

lemma verifyUser_table:
  assumes "escapes api" and "users_table api tbl" and "db_connected k"
  shows "verifyUser api k u p d = Inr ((\<exists>i. tbl d u = Some (i, p)), d)"
  by (auto simp: verifyUser_def getUserByUsername_table [OF assms] rbind_def split: option.split)

lemma userExists_table:
  assumes "escapes api" and "users_table api tbl" and "db_connected k"
  shows "userExists api k u d = Inr (tbl d u \<noteq> None, d)"
  by (simp add: userExists_def getUserByUsername_table [OF assms] rbind_def)

text \<open>A database that satisfies the assumptions: it reads the statements it is sent.\<close>

definition select_prefix :: string where
  "select_prefix = ''SELECT id, username, password FROM users WHERE username = '' @ quo"

definition insert_prefix :: string where
  "insert_prefix = ''INSERT INTO users (username, password) VALUES ('' @ quo"

type_synonym demo_db = "string \<Rightarrow> (string \<times> string) option"

definition demo_query :: "string \<Rightarrow> demo_db \<Rightarrow> (bool \<times> row list option) \<times> demo_db" where
  "demo_query sql d =
     (if take (length select_prefix) sql = select_prefix then
        (case scan_literal (drop (length select_prefix) sql) of
           Some (u, _) \<Rightarrow> ((True, Some (case d u of None \<Rightarrow> [] | Some (i, p) \<Rightarrow> [[Some i, Some u, Some p]])), d)
         | None \<Rightarrow> ((False, None), d))
      else if take (length insert_prefix) sql = insert_prefix then
        (case scan_literal (drop (length insert_prefix) sql) of
           Some (u, rest) \<Rightarrow> (case scan_literal (drop 3 rest) of
               Some (p, _) \<Rightarrow> ((True, None), d(u \<mapsto> (''1'', p)))
             | None \<Rightarrow> ((False, None), d))
         | None \<Rightarrow> ((False, None), d))
      else ((True, Some []), d))"

definition demo_api :: "demo_db mysql_api" where
  "demo_api = \<lparr>mysql_init = (\<lambda>_. True), mysql_real_connect = (\<lambda>_. True), mysql_query = demo_query,
     mysql_real_escape_string = std_escape\<rparr>"

lemma demo_escapes: "escapes demo_api"
  by (simp add: escapes_def demo_api_def std_escape_scan std_escape_nul)

lemma demo_select: "demo_query (select_user_sql demo_api u) d =
    ((True, Some (case d u of None \<Rightarrow> [] | Some (i, p) \<Rightarrow> [[Some i, Some u, Some p]])), d)"
proof -
  have "select_user_sql demo_api u = select_prefix @ escape demo_api u @ quo @ []"
    by (simp add: select_user_sql_def select_prefix_def)
  moreover have "scan_literal (escape demo_api u @ quo @ []) = Some (u, [])"
    using demo_escapes by (rule scan_escape)
  ultimately show ?thesis by (simp add: demo_query_def)
qed

lemma demo_insert: "demo_query (insert_user_sql demo_api u p) d = ((True, None), d(u \<mapsto> (''1'', p)))"
proof -
  let ?t = "'', '' @ quo @ escape demo_api p @ quo @ '')''"
  have sql: "insert_user_sql demo_api u p = insert_prefix @ escape demo_api u @ quo @ ?t"
    by (simp add: insert_user_sql_def insert_prefix_def)
  have ne: "take (length select_prefix) (insert_prefix @ x) \<noteq> select_prefix" for x
    by (simp add: select_prefix_def insert_prefix_def quo_def)
  have "scan_literal (escape demo_api u @ quo @ ?t) = Some (u, ?t)"
    using demo_escapes by (rule scan_escape)
  moreover have "drop 3 ?t = escape demo_api p @ quo @ '')''" by (simp add: quo_def)
  moreover have "scan_literal (escape demo_api p @ quo @ '')'') = Some (p, '')'')"
    using demo_escapes by (rule scan_escape)
  moreover have "take (length insert_prefix) (insert_prefix @ x) = insert_prefix"
      "drop (length insert_prefix) (insert_prefix @ x) = x" for x by simp_all
  ultimately show ?thesis
    unfolding demo_query_def sql using ne by (simp del: take_append drop_append append_Cons append_assoc)
qed

lemma demo_users_table: "users_table demo_api (\<lambda>d. d)"
  using demo_select demo_insert by (fastforce simp: users_table_def demo_api_def)

lemma fetch_messages_length: "fetch_messages rows = Inr ms \<Longrightarrow> length ms = length rows"
  by (induction rows arbitrary: ms) (auto simp: rbind_def split: sum.splits)

section \<open>Properties\<close>





text \<open>History is oldest first: when the server returns the rows newest first, as the statement's
  \<^verbatim>\<open>ORDER BY ... DESC\<close> asks, the messages come back in the opposite order, one for each row.\<close>

theorem recent_messages_oldest_first:
  assumes "db_connected k" and "mysql_query api (c_str (recent_sql limit)) d = ((True, Some rows), d')"
    and "fetch_messages rows = Inr ms" and "sorted_wrt newer ms"
  shows "\<exists>out. getRecentMessages api k limit d = Inr (out, d') \<and> sorted_wrt (\<lambda>a b. newer b a) out \<and>
    set out = set ms \<and> length out = length rows"
  using assms fetch_messages_length [OF assms(3)]
  by (simp add: getRecentMessages_def query_def rbind_def sorted_wrt_rev)

theorem recent_messages_oldest_first_witness:
  "let api = demo_api\<lparr>mysql_query := (\<lambda>sql d. ((True, Some [[Some ''2'', Some ''1'', Some ''bob'', Some ''b'', Some ''t2''],
       [Some ''1'', Some ''1'', Some ''bob'', None, Some ''t1'']]), d))\<rparr>
   in \<exists>out. getRecentMessages api \<lparr>db_connected = True\<rparr> 50 Map.empty = Inr (out, Map.empty) \<and>
     sorted_wrt (\<lambda>a b. msg_id b > msg_id a) out \<and> length out = 2"
proof -
  let ?rows = "[[Some ''2'', Some ''1'', Some ''bob'', Some ''b'', Some ''t2''],
     [Some ''1'', Some ''1'', Some ''bob'', None, Some ''t1'']]"
  let ?api = "demo_api\<lparr>mysql_query := (\<lambda>sql d. ((True, Some ?rows), d))\<rparr>"
  let ?ms = "[\<lparr>msg_id = 2, msg_userId = 1, msg_username = ''bob'', msg_content = ''b'', msg_timestamp = ''t2''\<rparr>,
     \<lparr>msg_id = 1, msg_userId = 1, msg_username = ''bob'', msg_content = [], msg_timestamp = ''t1''\<rparr>]"
  have k: "db_connected \<lparr>db_connected = True\<rparr>" by simp
  have q: "mysql_query ?api (c_str (recent_sql 50)) Map.empty = ((True, Some ?rows), Map.empty)" by simp
  have f: "fetch_messages ?rows = Inr ?ms"
    by (simp add: row_message_def col_int_def col_str_def col_def rbind_def atoi_def isspace_def of_char_def)
  have s: "sorted_wrt (\<lambda>a b. msg_id a > msg_id b) ?ms" by simp
  obtain out where "getRecentMessages ?api \<lparr>db_connected = True\<rparr> 50 Map.empty = Inr (out, Map.empty)"
    "sorted_wrt (\<lambda>a b. msg_id b > msg_id a) out" "length out = length ?rows"
    using recent_messages_oldest_first [OF k q f s] by blast
  then show ?thesis unfolding Let_def by (intro exI [of _ out] conjI) (assumption, assumption, simp)
qed

text \<open>Without a connection to the database the accounts fail safe: nothing is sent to the server, no
  user exists or verifies, nothing is stored, the history is empty and the heartbeat fails.\<close>

theorem disconnected_fails_safe:
  assumes "\<not> db_connected k"
  shows "insertUser api k u p d = (False, d) \<and> verifyUser api k u p d = Inr (False, d) \<and>
    userExists api k u d = Inr (False, d) \<and> saveMessage api k i m d = (False, d) \<and>
    getRecentMessages api k n d = Inr ([], d) \<and> heartBeat api k d = (False, d)"
  using assms by (simp add: insertUser_def verifyUser_def userExists_def getUserByUsername_def
      saveMessage_def getRecentMessages_def heartBeat_def rbind_def)

theorem disconnected_fails_safe_witness:
  "verifyUser demo_api \<lparr>db_connected = False\<rparr> ''bob'' [] (\<lambda>_. Some (''1'', [])) = Inr (False, \<lambda>_. Some (''1'', []))"
  using disconnected_fails_safe [of "\<lparr>db_connected = False\<rparr>" demo_api "''bob''" "[]" "\<lambda>_. Some (''1'', [])"] by simp

end
