(* ===== verification/Sessions.thy ===== *)
theory Sessions
  imports Connection "HOL-Library.AList"
begin

text \<open>
  \<^verbatim>\<open>src/SessionManager\<close>: the users who are online and the connection of each.  The hash map is an
  association list without duplicate keys; the order in which the code walks the map is that of the
  list, which nothing below depends on.  The mutex makes each operation one step.  \<open>t\<close> is the reading
  of \<^verbatim>\<open>Timestamp::now()\<close>.

  The locale \<open>session_table\<close> is what \<^verbatim>\<open>ChatService\<close> relies on; the session manager interprets it.
\<close>

section \<open>State and operations\<close>

record session =
  sess_conn :: cid
  lastHeartbeat :: int

record session_manager =
  sessions :: "(string \<times> session) list"

definition mkSessionManager :: session_manager where
  "mkSessionManager = \<lparr>sessions = []\<rparr>"

definition addSession :: "int \<Rightarrow> string \<Rightarrow> cid \<Rightarrow> session_manager \<Rightarrow> session_manager" where
  "addSession t username c m =
     m\<lparr>sessions := AList.update username \<lparr>sess_conn = c, lastHeartbeat = t\<rparr> (sessions m)\<rparr>"

definition removeSession :: "string \<Rightarrow> session_manager \<Rightarrow> session_manager" where
  "removeSession username m = m\<lparr>sessions := AList.delete username (sessions m)\<rparr>"

definition getConnection :: "string \<Rightarrow> session_manager \<Rightarrow> cid option" where
  "getConnection username m =
     (case map_of (sessions m) username of None \<Rightarrow> None | Some s \<Rightarrow> Some (sess_conn s))"

definition getOnlineUsers :: "session_manager \<Rightarrow> string list" where
  "getOnlineUsers m = map fst (sessions m)"

definition isOnline :: "string \<Rightarrow> session_manager \<Rightarrow> bool" where
  "isOnline username m \<longleftrightarrow> map_of (sessions m) username \<noteq> None"

definition updateHeartbeat :: "int \<Rightarrow> string \<Rightarrow> session_manager \<Rightarrow> session_manager" where
  "updateHeartbeat t username m =
     (case map_of (sessions m) username of
        None \<Rightarrow> m
      | Some s \<Rightarrow> m\<lparr>sessions := AList.update username (s\<lparr>lastHeartbeat := t\<rparr>) (sessions m)\<rparr>)"

definition broadcast_one :: "string \<Rightarrow> string \<Rightarrow> string \<times> session \<Rightarrow> 'u net \<Rightarrow> 'u net" where
  "broadcast_one message excludeUsername p net =
     (if fst p \<noteq> excludeUsername \<and> connected (sess_conn (snd p)) net
      then send (sess_conn (snd p)) message net else net)"

definition broadcastToAll :: "string \<Rightarrow> string \<Rightarrow> session_manager \<Rightarrow> 'u net \<Rightarrow> 'u net" where
  "broadcastToAll message excludeUsername m net =
     fold (broadcast_one message excludeUsername) (sessions m) net"

section \<open>The interface of the session table\<close>

locale session_table =
  fixes inv :: "'s \<Rightarrow> bool"
    and lookup :: "string \<Rightarrow> 's \<Rightarrow> cid option"
    and add :: "int \<Rightarrow> string \<Rightarrow> cid \<Rightarrow> 's \<Rightarrow> 's"
    and remove :: "string \<Rightarrow> 's \<Rightarrow> 's"
    and touch :: "int \<Rightarrow> string \<Rightarrow> 's \<Rightarrow> 's"
    and online :: "string \<Rightarrow> 's \<Rightarrow> bool"
    and users :: "'s \<Rightarrow> string list"
  assumes inv_add: "inv s \<Longrightarrow> inv (add t u c s)"
    and inv_remove: "inv s \<Longrightarrow> inv (remove u s)"
    and inv_touch: "inv s \<Longrightarrow> inv (touch t u s)"
    and lookup_add: "lookup v (add t u c s) = (if v = u then Some c else lookup v s)"
    and lookup_remove: "lookup v (remove u s) = (if v = u then None else lookup v s)"
    and lookup_touch: "lookup v (touch t u s) = lookup v s"
    and online_iff: "online u s \<longleftrightarrow> lookup u s \<noteq> None"
    and users_set: "set (users s) = {u. online u s}"
    and users_distinct: "inv s \<Longrightarrow> distinct (users s)"
begin

lemma online_add: "online v (add t u c s) \<longleftrightarrow> v = u \<or> online v s"
  by (simp add: online_iff lookup_add)

lemma online_remove: "online v (remove u s) \<longleftrightarrow> v \<noteq> u \<and> online v s"
  by (simp add: online_iff lookup_remove)

lemma online_touch: "online v (touch t u s) \<longleftrightarrow> online v s"
  by (simp add: online_iff lookup_touch)

lemma users_add: "set (users (add t u c s)) = insert u (set (users s))"
  by (auto simp: users_set online_add)

lemma users_remove: "set (users (remove u s)) = set (users s) - {u}"
  by (auto simp: users_set online_remove)

lemma remove_absent: "\<not> online u s \<Longrightarrow> lookup v (remove u s) = lookup v s"
  by (simp add: lookup_remove online_iff)

text \<open>A log-in followed by the log-out of the same user leaves everybody else as they were.\<close>

lemma add_remove: "lookup v (remove u (add t u c s)) = (if v = u then None else lookup v s)"
  by (simp add: lookup_remove lookup_add)

lemma users_count: "inv s \<Longrightarrow> length (users s) = card {u. online u s}"
  using distinct_card [OF users_distinct, of s] by (simp add: users_set)

end

definition sessions_wf :: "session_manager \<Rightarrow> bool" where
  "sessions_wf m \<longleftrightarrow> distinct (map fst (sessions m))"

lemma getConnection_simps:
  "getConnection v (addSession t u c m) = (if v = u then Some c else getConnection v m)"
  "getConnection v (removeSession u m) = (if v = u then None else getConnection v m)"
  "getConnection v (updateHeartbeat t u m) = getConnection v m"
  by (auto simp: getConnection_def addSession_def removeSession_def updateHeartbeat_def
      update_conv' delete_conv' split: option.split)

interpretation smgr: session_table sessions_wf getConnection addSession removeSession updateHeartbeat
  isOnline getOnlineUsers
proof
  fix s t u c
  assume "sessions_wf s"
  then show "sessions_wf (addSession t u c s)" "sessions_wf (removeSession u s)"
      "sessions_wf (updateHeartbeat t u s)" "distinct (getOnlineUsers s)"
    by (auto simp: sessions_wf_def addSession_def removeSession_def updateHeartbeat_def
        getOnlineUsers_def distinct_update distinct_delete split: option.split)
next
  fix u s
  show "isOnline u s \<longleftrightarrow> getConnection u s \<noteq> None"
    by (auto simp: isOnline_def getConnection_def split: option.split)
  show "set (getOnlineUsers s) = {u. isOnline u s}"
    by (auto simp: getOnlineUsers_def isOnline_def map_of_eq_None_iff)
qed (simp_all add: getConnection_simps)

section \<open>Broadcasts\<close>

text \<open>The connections a broadcast writes to, in the order of the map.\<close>

definition recipients :: "string \<Rightarrow> session_manager \<Rightarrow> 'u net \<Rightarrow> cid list" where
  "recipients ex m net =
     map (sess_conn \<circ> snd) (filter (\<lambda>p. fst p \<noteq> ex \<and> connected (sess_conn (snd p)) net) (sessions m))"

lemma broadcastToAll_sends:
  fixes net :: "'u net"
  shows "broadcastToAll msg ex m net = fold (\<lambda>c. send c msg) (recipients ex m net) net"
proof -
  have "fold (broadcast_one msg ex) ps net =
      fold (\<lambda>c. send c msg) (map (sess_conn \<circ> snd) (filter (\<lambda>p. fst p \<noteq> ex \<and> connected (sess_conn (snd p)) net0) ps)) net"
    if "\<And>c. connected c net = connected c net0" for ps and net net0 :: "'u net"
    using that by (induction ps arbitrary: net) (auto simp: broadcast_one_def)
  then show ?thesis by (simp add: broadcastToAll_def recipients_def)
qed

lemma sends_same_rest [simp]: "same_rest a (fold (\<lambda>c. send c msg) cs net) = same_rest a net"
  by (induction cs arbitrary: net) simp_all

lemma sends_connected [simp]: "connected d (fold (\<lambda>c. send c msg) cs net) = connected d net"
  by (induction cs arbitrary: net) simp_all

lemma same_rest_broadcast [simp]: "same_rest a (broadcastToAll msg ex m net) = same_rest a net"
  by (simp add: broadcastToAll_sends)

lemma sends_other: "d \<notin> set cs \<Longrightarrow> conns (fold (\<lambda>c. send c msg) cs net) d = conns net d"
  by (induction cs arbitrary: net) auto

lemma set_recipients:
  assumes "sessions_wf m"
  shows "c \<in> set (recipients ex m net) \<longleftrightarrow> (\<exists>u. u \<noteq> ex \<and> getConnection u m = Some c \<and> connected c net)"
proof -
  have mem: "(u, s) \<in> set (sessions m) \<longleftrightarrow> map_of (sessions m) u = Some s" for u s
    using assms by (simp add: sessions_wf_def)
  have "c \<in> set (recipients ex m net) \<longleftrightarrow>
      (\<exists>u s. (u, s) \<in> set (sessions m) \<and> u \<noteq> ex \<and> connected c net \<and> sess_conn s = c)"
    by (auto simp: recipients_def image_iff)
  also have "\<dots> \<longleftrightarrow> (\<exists>u. u \<noteq> ex \<and> getConnection u m = Some c \<and> connected c net)"
    unfolding mem by (auto simp: getConnection_def split: option.splits)
  finally show ?thesis .
qed

lemma sends_stream:
  fixes net :: "'u net"
  assumes "conn_wf (conns net c)" and "healthy (conns net c)" and "connected c net"
    and "inLoopThread (cn_loop (conns net c)) net"
  shows "conn_wf (conns (fold (\<lambda>c. send c msg) cs net) c) \<and> healthy (conns (fold (\<lambda>c. send c msg) cs net) c) \<and>
    stream (conns (fold (\<lambda>c. send c msg) cs net) c) =
      stream (conns net c) @ concat (replicate (count_list cs c) msg)"
  using assms
proof (induction cs arbitrary: net)
  case (Cons d cs)
  let ?n = "send d msg net"
  have same: "same_rest net ?n" by simp
  have c: "connected c ?n" and t: "inLoopThread (cn_loop (conns ?n c)) ?n"
    using Cons.prems same_restD(5,7) [OF same] by simp_all
  show ?case
  proof (cases "d = c")
    case True
    have s: "?n = sendInLoop c msg net" using Cons.prems True by (simp add: send_def connected_def)
    have k: "conn_wf (conns ?n c)" "healthy (conns ?n c)" "stream (conns ?n c) = stream (conns net c) @ msg"
      using sendInLoop_conn [of net c msg] Cons.prems by (simp_all add: s connected_def)
    show ?thesis using Cons.IH [OF k(1,2) c t] True k(3) by simp
  next
    case False
    then have "conns ?n c = conns net c" by simp
    then show ?thesis using Cons.IH [of ?n] Cons.prems c t False by simp
  qed
qed simp

lemma count_recipients:
  assumes "sessions_wf m" and "connected c net"
  shows "count_list (recipients ex m net) c = card {u. u \<noteq> ex \<and> getConnection u m = Some c}"
proof -
  let ?ps = "filter (\<lambda>p. fst p \<noteq> ex \<and> sess_conn (snd p) = c) (sessions m)"
  have "count_list (map (sess_conn \<circ> snd) (filter (\<lambda>p. fst p \<noteq> ex \<and> connected (sess_conn (snd p)) net) ps)) c =
      length (filter (\<lambda>p. fst p \<noteq> ex \<and> sess_conn (snd p) = c) ps)" for ps
    using assms(2) by (induction ps) auto
  then have "count_list (recipients ex m net) c = length ?ps" by (simp add: recipients_def)
  also have "\<dots> = card (set (map fst ?ps))"
    using assms(1) distinct_card [of "map fst ?ps"] by (simp add: sessions_wf_def distinct_map_filter)
  also have "set (map fst ?ps) = {u. u \<noteq> ex \<and> getConnection u m = Some c}"
  proof -
    have "(u, s) \<in> set (sessions m) \<longleftrightarrow> map_of (sessions m) u = Some s" for u s
      using assms(1) by (simp add: sessions_wf_def)
    then show ?thesis by (force simp: getConnection_def split: option.splits)
  qed
  finally show ?thesis .
qed

lemma broadcast_stream:
  assumes "sessions_wf m" and "conn_wf (conns net c)" and "healthy (conns net c)"
    and "inLoopThread (cn_loop (conns net c)) net"
  shows "stream (conns (broadcastToAll msg ex m net) c) = stream (conns net c) @
      (if connected c net then concat (replicate (card {u. u \<noteq> ex \<and> getConnection u m = Some c}) msg) else [])
    \<and> same_rest net (broadcastToAll msg ex m net)"
proof (cases "connected c net")
  case True
  then show ?thesis
    using sends_stream [OF assms(2,3) True assms(4), of msg "recipients ex m net"]
      count_recipients [OF assms(1) True] by (simp add: broadcastToAll_sends)
next
  case False
  then have "c \<notin> set (recipients ex m net)" by (simp add: set_recipients [OF assms(1)])
  then show ?thesis using False by (simp add: broadcastToAll_sends sends_other)
qed

definition demo_sessions :: session_manager where
  "demo_sessions = addSession 7 ''bob'' 1 (addSession 5 ''ann'' 0 mkSessionManager)"

lemma demo_sessions_wf: "sessions_wf demo_sessions"
  unfolding demo_sessions_def by (intro smgr.inv_add) (simp add: sessions_wf_def mkSessionManager_def)

section \<open>Properties\<close>

text \<open>C7: a broadcast reaches exactly the connections of the users who are online and connected.  The
  stream of such a connection grows by one copy of the message for each user registered on it other
  than the excluded one; every other connection, and everything but the outgoing side, is as before.
  (The connections belong to the running thread's loop; for the others see the theorem on sends from
  another thread.)\<close>

theorem broadcast_reaches_online:
  assumes "sessions_wf m" and "conn_wf (conns net c)" and "healthy (conns net c)"
    and "inLoopThread (cn_loop (conns net c)) net"
  shows "stream (conns (broadcastToAll msg ex m net) c) = stream (conns net c) @
      (if connected c net then concat (replicate (card {u. u \<noteq> ex \<and> getConnection u m = Some c}) msg) else [])
    \<and> same_rest net (broadcastToAll msg ex m net)"
  by (rule broadcast_stream [OF assms])

theorem broadcast_reaches_online_witness:
  "stream (conns (broadcastToAll ''hi'' [] demo_sessions (demo_net (demo_conn [] []) ())) 1) = ''hi''"
proof -
  let ?net = "demo_net (demo_conn [] []) ()"
  have w: "conn_wf (conns ?net 1)" and h: "healthy (conns ?net 1)" and c: "connected 1 ?net"
    and l: "inLoopThread (cn_loop (conns ?net 1)) ?net"
    by (simp_all add: demo_conn_wf healthy_def connected_def)
  have none: "getConnection u mkSessionManager = None" for u
    by (simp add: getConnection_def mkSessionManager_def)
  have "{u. u \<noteq> [] \<and> getConnection u demo_sessions = Some 1} = {''bob''}"
    by (auto simp: demo_sessions_def getConnection_simps none split: if_splits)
  then show ?thesis
    using broadcast_reaches_online [OF demo_sessions_wf w h l, of "''hi''" "[]"] c
    by (simp add: stream_def)
qed

end
