(* ===== verification/Json.thy ===== *)
theory Json
  imports Prelude Complex_Main
begin

text \<open>
  The parts of \<^verbatim>\<open>thirdparty/json.hpp\<close> that the chat server calls: values, \<^verbatim>\<open>operator[]\<close>, \<^verbatim>\<open>value\<close>,
  conversions, \<^verbatim>\<open>push_back\<close>, and the serializer \<^verbatim>\<open>dump\<close> in the compact, strict form the server uses
  (no indentation, \<^verbatim>\<open>ensure_ascii\<close> off, error handler \<^verbatim>\<open>strict\<close>).  An object is a \<^verbatim>\<open>std::map\<close>: an
  association list in the order of its keys.  Floating-point numbers are printed by the parameter
  \<open>ftoa\<close> (the server never prints one).  The lexer and the parser are in \<open>Json_Lexer\<close> and \<open>Json_Parser\<close>.
\<close>

section \<open>Values\<close>

datatype json =
    JNull
  | JBool bool
  | JInt int                         \<comment> \<open>\<^verbatim>\<open>number_integer\<close> and \<^verbatim>\<open>number_unsigned\<close>\<close>
  | JFloat rat
  | JString string
  | JArray "json list"
  | JObject "(string \<times> json) list"

fun str_less :: "string \<Rightarrow> string \<Rightarrow> bool" where
  "str_less [] [] = False"
| "str_less [] (_ # _) = True"
| "str_less (_ # _) [] = False"
| "str_less (a # as) (b # bs) =
     ((of_char a :: nat) < of_char b \<or> a = b \<and> str_less as bs)"

text \<open>\<^verbatim>\<open>std::map\<close>: assignment through \<^verbatim>\<open>operator[]\<close> and \<^verbatim>\<open>find\<close>.\<close>

fun obj_put :: "string \<Rightarrow> json \<Rightarrow> (string \<times> json) list \<Rightarrow> (string \<times> json) list" where
  "obj_put k v [] = [(k, v)]"
| "obj_put k v ((k', v') # m) =
     (if k = k' then (k, v) # m
      else if str_less k k' then (k, v) # (k', v') # m
      else (k', v') # obj_put k v m)"

definition obj_get :: "string \<Rightarrow> (string \<times> json) list \<Rightarrow> json option" where
  "obj_get k m = map_of m k"

text \<open>\<^verbatim>\<open>j[key]\<close> on a value that is not constant: null becomes an object, a missing key is added with
  the value null.  The result is the element, and the value as it is afterwards.\<close>

definition index_read :: "json \<Rightarrow> string \<Rightarrow> (json \<times> json) result" where
  "index_read j key =
     (case (case j of JNull \<Rightarrow> JObject [] | _ \<Rightarrow> j) of
        JObject m \<Rightarrow>
          (case obj_get key m of
             Some v \<Rightarrow> Inr (v, JObject m)
           | None \<Rightarrow> Inr (JNull, JObject (obj_put key JNull m)))
      | _ \<Rightarrow> Inl JsonTypeError)"

definition index_assign :: "json \<Rightarrow> string \<Rightarrow> json \<Rightarrow> json result" where
  "index_assign j key v =
     (case (case j of JNull \<Rightarrow> JObject [] | _ \<Rightarrow> j) of
        JObject m \<Rightarrow> Inr (JObject (obj_put key v m))
      | _ \<Rightarrow> Inl JsonTypeError)"

text \<open>Conversions.  A conversion to \<^verbatim>\<open>int\<close> takes any number (\<^verbatim>\<open>static_cast\<close>, to 32 bits) and a boolean.\<close>

definition get_string :: "json \<Rightarrow> string result" where
  "get_string j = (case j of JString s \<Rightarrow> Inr s | _ \<Rightarrow> Inl JsonTypeError)"

definition to_int32 :: "int \<Rightarrow> int" where
  "to_int32 i = (i + 2 ^ 31) mod 2 ^ 32 - 2 ^ 31"

definition get_int :: "json \<Rightarrow> int result" where
  "get_int j =
     (case j of
        JInt i \<Rightarrow> Inr (to_int32 i)
      | JFloat r \<Rightarrow> Inr (to_int32 (if 0 \<le> r then \<lfloor>r\<rfloor> else \<lceil>r\<rceil>))
      | JBool b \<Rightarrow> Inr (if b then 1 else 0)
      | _ \<Rightarrow> Inl JsonTypeError)"

definition value_with :: "(json \<Rightarrow> 'a result) \<Rightarrow> json \<Rightarrow> string \<Rightarrow> 'a \<Rightarrow> 'a result" where
  "value_with conv j key dflt =
     (case j of
        JObject m \<Rightarrow> (case obj_get key m of Some v \<Rightarrow> conv v | None \<Rightarrow> Inr dflt)
      | _ \<Rightarrow> Inl JsonTypeError)"

definition value_str :: "json \<Rightarrow> string \<Rightarrow> string \<Rightarrow> string result" where
  "value_str = value_with get_string"

definition value_int :: "json \<Rightarrow> string \<Rightarrow> int \<Rightarrow> int result" where
  "value_int = value_with get_int"

definition push_back :: "json \<Rightarrow> json \<Rightarrow> json result" where
  "push_back j v =
     (case j of JNull \<Rightarrow> Inr (JArray [v]) | JArray vs \<Rightarrow> Inr (JArray (vs @ [v])) | _ \<Rightarrow> Inl JsonTypeError)"

section \<open>The serializer\<close>

text \<open>\<^verbatim>\<open>dump_integer\<close> fills the buffer backwards, two digits at a time, from the position \<^verbatim>\<open>count_digits\<close>
  gives; \<open>put_digits\<close> is what it has then written.\<close>

function count_digits :: "nat \<Rightarrow> nat" where
  "count_digits x =
     (if x < 10 then 1 else if x < 100 then 2 else if x < 1000 then 3 else if x < 10000 then 4
      else count_digits (x div 10000) + 4)"
  by auto
termination by (relation "measure id") auto

declare count_digits.simps [simp del]

function put_digits :: "nat \<Rightarrow> string" where
  "put_digits x =
     (if x \<ge> 100 then put_digits (x div 100) @ [digit (x mod 100 div 10), digit (x mod 100 mod 10)]
      else if x \<ge> 10 then [digit (x div 10), digit (x mod 10)]
      else [digit x])"
  by auto
termination by (relation "measure id") auto

declare put_digits.simps [simp del]

definition dump_integer :: "int \<Rightarrow> string" where
  "dump_integer x =
     (if x = 0 then ''0'' else if x < 0 then ''-'' @ put_digits (nat \<bar>x\<bar>) else put_digits (nat x))"

definition UTF8_ACCEPT :: nat where "UTF8_ACCEPT = 0"
definition UTF8_REJECT :: nat where "UTF8_REJECT = 1"

definition utf8d :: "nat list" where
  "utf8d =
     [0, 0, 0, 0, 0, 0, 0, 0, 0, 0, 0, 0, 0, 0, 0, 0, 0, 0, 0, 0, 0, 0, 0, 0, 0, 0, 0, 0, 0, 0, 0, 0,
      0, 0, 0, 0, 0, 0, 0, 0, 0, 0, 0, 0, 0, 0, 0, 0, 0, 0, 0, 0, 0, 0, 0, 0, 0, 0, 0, 0, 0, 0, 0, 0,
      0, 0, 0, 0, 0, 0, 0, 0, 0, 0, 0, 0, 0, 0, 0, 0, 0, 0, 0, 0, 0, 0, 0, 0, 0, 0, 0, 0, 0, 0, 0, 0,
      0, 0, 0, 0, 0, 0, 0, 0, 0, 0, 0, 0, 0, 0, 0, 0, 0, 0, 0, 0, 0, 0, 0, 0, 0, 0, 0, 0, 0, 0, 0, 0,
      1, 1, 1, 1, 1, 1, 1, 1, 1, 1, 1, 1, 1, 1, 1, 1, 9, 9, 9, 9, 9, 9, 9, 9, 9, 9, 9, 9, 9, 9, 9, 9,
      7, 7, 7, 7, 7, 7, 7, 7, 7, 7, 7, 7, 7, 7, 7, 7, 7, 7, 7, 7, 7, 7, 7, 7, 7, 7, 7, 7, 7, 7, 7, 7,
      8, 8, 2, 2, 2, 2, 2, 2, 2, 2, 2, 2, 2, 2, 2, 2, 2, 2, 2, 2, 2, 2, 2, 2, 2, 2, 2, 2, 2, 2, 2, 2,
      10, 3, 3, 3, 3, 3, 3, 3, 3, 3, 3, 3, 3, 4, 3, 3,
      11, 6, 6, 6, 5, 8, 8, 8, 8, 8, 8, 8, 8, 8, 8, 8,
      0, 1, 2, 3, 5, 8, 7, 1, 1, 1, 4, 6, 1, 1, 1, 1,
      1, 1, 1, 1, 1, 1, 1, 1, 1, 1, 1, 1, 1, 1, 1, 1, 1, 0, 1, 1, 1, 1, 1, 0, 1, 0, 1, 1, 1, 1, 1, 1,
      1, 2, 1, 1, 1, 1, 1, 2, 1, 2, 1, 1, 1, 1, 1, 1, 1, 1, 1, 1, 1, 1, 1, 2, 1, 1, 1, 1, 1, 1, 1, 1,
      1, 2, 1, 1, 1, 1, 1, 1, 1, 2, 1, 1, 1, 1, 1, 1, 1, 1, 1, 1, 1, 1, 1, 3, 1, 3, 1, 1, 1, 1, 1, 1,
      1, 3, 1, 1, 1, 1, 1, 3, 1, 3, 1, 1, 1, 1, 1, 1, 1, 3, 1, 1, 1, 1, 1, 1, 1, 1, 1, 1, 1, 1, 1, 1]"

text \<open>The step of the UTF-8 automaton.  \<^verbatim>\<open>& 0x3f\<close> and \<^verbatim>\<open><< 6\<close>, \<^verbatim>\<open>(0xff >> type) & byte\<close> are written as
  remainders; the code point is a 32-bit number.\<close>

definition decode :: "nat \<Rightarrow> nat \<Rightarrow> nat \<Rightarrow> nat \<times> nat" where
  "decode state codep byte =
     (let type = utf8d ! byte;
          codep = (if state \<noteq> UTF8_ACCEPT then (codep * 64) mod 2 ^ 32 + byte mod 64
                   else byte mod 2 ^ (8 - type))
      in (utf8d ! (256 + state * 16 + type), codep))"

definition hex :: "nat \<Rightarrow> char" where
  "hex n = (if n < 10 then char_of (48 + n) else char_of (87 + n))"

definition esc_codepoint :: "nat \<Rightarrow> char \<Rightarrow> string" where
  "esc_codepoint codepoint c =
     (if codepoint = 0x08 then [CHR 0x5C, CHR ''b'']
      else if codepoint = 0x09 then [CHR 0x5C, CHR ''t'']
      else if codepoint = 0x0A then [CHR 0x5C, CHR ''n'']
      else if codepoint = 0x0C then [CHR 0x5C, CHR ''f'']
      else if codepoint = 0x0D then [CHR 0x5C, CHR ''r'']
      else if codepoint = 0x22 then [CHR 0x5C, CHR 0x22]
      else if codepoint = 0x5C then [CHR 0x5C, CHR 0x5C]
      else if codepoint \<le> 0x1F
        then [CHR 0x5C, CHR ''u'', CHR ''0'', CHR ''0'', hex (codepoint div 16), hex (codepoint mod 16)]
      else [c])"

text \<open>The loop of \<^verbatim>\<open>dump_escaped\<close>; the buffer of 512 bytes in front of the output is not modelled.\<close>

fun dump_escaped_from :: "nat \<Rightarrow> nat \<Rightarrow> string \<Rightarrow> string result" where
  "dump_escaped_from state codep [] =
     (if state = UTF8_ACCEPT then Inr [] else Inl JsonTypeError)"
| "dump_escaped_from state codep (c # cs) =
     (let (state, codep) = decode state codep (of_char c) in
      if state = UTF8_ACCEPT then
        rbind (dump_escaped_from state codep cs) (\<lambda>out. Inr (esc_codepoint codep c @ out))
      else if state = UTF8_REJECT then Inl JsonTypeError
      else rbind (dump_escaped_from state codep cs) (\<lambda>out. Inr (c # out)))"

definition dump_escaped :: "string \<Rightarrow> string result" where
  "dump_escaped s = dump_escaped_from UTF8_ACCEPT 0 s"

definition dump_string :: "string \<Rightarrow> string result" where
  "dump_string s = rbind (dump_escaped s) (\<lambda>out. Inr ([CHR 0x22] @ out @ [CHR 0x22]))"

fun join :: "string list \<Rightarrow> string" where
  "join [] = []"
| "join [x] = x"
| "join (x # y # xs) = x @ '','' @ join (y # xs)"

fun rmap :: "('a \<Rightarrow> 'b result) \<Rightarrow> 'a list \<Rightarrow> 'b list result" where
  "rmap f [] = Inr []"
| "rmap f (x # xs) = rbind (f x) (\<lambda>y. rbind (rmap f xs) (\<lambda>ys. Inr (y # ys)))"

lemma rmap_cong [fundef_cong]: "xs = ys \<Longrightarrow> (\<And>x. x \<in> set ys \<Longrightarrow> f x = g x) \<Longrightarrow> rmap f xs = rmap g ys"
  by (induction ys arbitrary: xs) auto

fun dump :: "(rat \<Rightarrow> string) \<Rightarrow> json \<Rightarrow> string result" where
  "dump ftoa (JObject m) =
     (if m = [] then Inr ''{}''
      else rbind (rmap (\<lambda>(k, v). rbind (dump_string k) (\<lambda>ks. rbind (dump ftoa v) (\<lambda>vs. Inr (ks @ '':'' @ vs)))) m)
        (\<lambda>ps. Inr (''{'' @ join ps @ ''}'')))"
| "dump ftoa (JArray vs) =
     (if vs = [] then Inr ''[]''
      else rbind (rmap (dump ftoa) vs) (\<lambda>ps. Inr (''['' @ join ps @ '']'')))"
| "dump ftoa (JString s) = dump_string s"
| "dump ftoa (JBool b) = Inr (if b then ''true'' else ''false'')"
| "dump ftoa (JInt i) = Inr (dump_integer i)"
| "dump ftoa (JFloat r) = Inr (ftoa r)"
| "dump ftoa JNull = Inr ''null''"

section \<open>Numbers\<close>

lemma put_digits_eq: "put_digits n = nat_str n"
proof (induction n rule: put_digits.induct)
  case (1 x)
  show ?case
  proof (cases "x \<ge> 100")
    case True
    have d: "x div 10 div 10 = x div 100" by (simp add: div_mult2_eq [symmetric])
    have "x mod 100 = 10 * (x div 10 mod 10) + x mod 10" using mod_mult2_eq [of x 10 10] by simp
    then have m: "x mod 100 div 10 = x div 10 mod 10" "x mod 100 mod 10 = x mod 10" by simp_all
    have "nat_str x = nat_str (x div 10) @ [digit (x mod 10)]" using True nat_str.simps [of x] by simp
    moreover have "\<not> x div 10 < 10" using True by (simp add: not_less less_eq_div_iff_mult_less_eq)
    then have "nat_str (x div 10) = nat_str (x div 10 div 10) @ [digit (x div 10 mod 10)]"
      using nat_str.simps [of "x div 10"] by simp
    moreover have "put_digits x = nat_str (x div 100) @ [digit (x mod 100 div 10), digit (x mod 100 mod 10)]"
      using True 1 put_digits.simps [of x] by simp
    ultimately show ?thesis by (simp add: d m)
  next
    case False
    then have "x div 10 < 10" by (simp add: div_less_iff_less_mult)
    then show ?thesis
      using False put_digits.simps [of x] nat_str.simps [of x] nat_str.simps [of "x div 10"] by auto
  qed
qed

lemma length_nat_str_div: "x \<ge> 10 \<Longrightarrow> length (nat_str x) = Suc (length (nat_str (x div 10)))"
  by (subst nat_str.simps) simp

lemma count_digits_eq: "count_digits n = length (nat_str n)"
proof (induction n rule: count_digits.induct)
  case (1 x)
  have one: "length (nat_str y) = 1" if "y < 10" for y using that nat_str.simps [of y] by simp
  have d: "x div 10 div 10 = x div 100" "x div 100 div 10 = x div 1000" "x div 1000 div 10 = x div 10000"
    by (simp_all add: div_mult2_eq [symmetric])
  have L1: "length (nat_str x) = Suc (length (nat_str (x div 10)))" if "10 \<le> x"
    using length_nat_str_div that by blast
  have L2: "length (nat_str (x div 10)) = Suc (length (nat_str (x div 100)))" if "100 \<le> x"
    using length_nat_str_div [of "x div 10"] that unfolding d by (simp add: less_eq_div_iff_mult_less_eq)
  have L3: "length (nat_str (x div 100)) = Suc (length (nat_str (x div 1000)))" if "1000 \<le> x"
    using length_nat_str_div [of "x div 100"] that unfolding d by (simp add: less_eq_div_iff_mult_less_eq)
  have L4: "length (nat_str (x div 1000)) = Suc (length (nat_str (x div 10000)))" if "10000 \<le> x"
    using length_nat_str_div [of "x div 1000"] that unfolding d by (simp add: less_eq_div_iff_mult_less_eq)
  consider "x < 10" | "10 \<le> x" "x < 100" | "100 \<le> x" "x < 1000" | "1000 \<le> x" "x < 10000" | "10000 \<le> x"
    by linarith
  then show ?case
  proof cases
    case 1
    then show ?thesis using count_digits.simps [of x] one by simp
  next
    case 2
    then have "x div 10 < 10" by (simp add: div_less_iff_less_mult)
    then show ?thesis using 2 count_digits.simps [of x] one L1 by simp
  next
    case 3
    then have "x div 100 < 10" by (simp add: div_less_iff_less_mult)
    then show ?thesis using 3 count_digits.simps [of x] one L1 L2 by simp
  next
    case 4
    then have "x div 1000 < 10" by (simp add: div_less_iff_less_mult)
    then show ?thesis using 4 count_digits.simps [of x] one L1 L2 L3 by simp
  next
    case 5
    then have "count_digits (x div 10000) = length (nat_str (x div 10000))" using "1.IH" by simp
    then show ?thesis using 5 count_digits.simps [of x] L1 L2 L3 L4 by simp
  qed
qed

lemma digit_0: "digit 0 = CHR ''0''"
  by code_simp

lemma dump_integer_eq: "dump_integer i = int_str i"
  by (auto simp: dump_integer_def int_str_def put_digits_eq nat_str.simps [of 0] digit_0)

section \<open>UTF-8\<close>

definition byte_class :: "nat \<Rightarrow> bool" where
  "byte_class b \<longleftrightarrow> (let t = utf8d ! b; s = utf8d ! (256 + t); c = b mod 2 ^ (8 - t) in
     t \<le> 11 \<and> (b < 128 \<longleftrightarrow> t = 0) \<and> (t = 7 \<longrightarrow> b mod 64 \<ge> 32) \<and> (t = 9 \<longrightarrow> b mod 64 \<ge> 16) \<and>
     c < 128 \<and> (s = 0 \<longleftrightarrow> t = 0) \<and> s \<le> 8 \<and> (s = 2 \<longrightarrow> c \<ge> 2) \<and> (s \<in> {3, 5, 7, 8} \<longrightarrow> c \<ge> 1))"

lemma byte_classes: "list_all byte_class [0..<256]"
  by code_simp

lemma byte_classD: "b < 256 \<Longrightarrow> byte_class b"
  using byte_classes by (simp add: list_all_iff)

definition state_step :: "nat \<Rightarrow> nat \<Rightarrow> bool" where
  "state_step s t \<longleftrightarrow> (let s' = utf8d ! (256 + s * 16 + t) in
     s' \<le> 3 \<and> (s' \<noteq> 1 \<longrightarrow> t \<noteq> 0) \<and> (s' = 0 \<longrightarrow> s = 2) \<and> (s' = 2 \<longrightarrow> s \<in> {3, 4, 5} \<and> (s = 4 \<longrightarrow> t = 7)) \<and>
     (s' = 3 \<longrightarrow> s \<in> {6, 7, 8} \<and> (s = 6 \<longrightarrow> t \<in> {7, 9})))"

lemma state_steps: "list_all (\<lambda>s. list_all (state_step s) [0..<12]) [2..<9]"
  by code_simp

lemma state_stepD: "2 \<le> s \<Longrightarrow> s \<le> 8 \<Longrightarrow> t \<le> 11 \<Longrightarrow> state_step s t"
proof -
  assume "2 \<le> s" "s \<le> 8" "t \<le> 11"
  then have "s \<in> {2..<9}" "t \<in> {0..<12}" by auto
  then show ?thesis using state_steps unfolding list_all_iff set_upt by blast
qed


text \<open>What the automaton knows of the code point in each of its states.\<close>

definition utf8_inv :: "nat \<Rightarrow> nat \<Rightarrow> bool" where
  "utf8_inv s c \<longleftrightarrow> 2 \<le> s \<and> s \<le> 8 \<and> (s = 2 \<longrightarrow> 2 \<le> c \<and> c < 2 ^ 21) \<and>
     (s = 3 \<longrightarrow> 1 \<le> c \<and> c < 2 ^ 14) \<and> (s \<ge> 4 \<longrightarrow> c < 2 ^ 7) \<and> (s \<in> {5, 7, 8} \<longrightarrow> 1 \<le> c)"

lemma decode_start:
  assumes "b < 256"
  shows "fst (decode 0 c b) = 0 \<longleftrightarrow> b < 128"
    and "fst (decode 0 c b) = 0 \<Longrightarrow> snd (decode 0 c b) = b"
    and "fst (decode 0 c b) \<noteq> 0 \<Longrightarrow> fst (decode 0 c b) \<noteq> 1 \<Longrightarrow> utf8_inv (fst (decode 0 c b)) (snd (decode 0 c b))"
proof -
  note D = byte_classD [OF assms, unfolded byte_class_def Let_def]
  have f: "fst (decode 0 c b) = utf8d ! (256 + utf8d ! b)" "snd (decode 0 c b) = b mod 2 ^ (8 - utf8d ! b)"
    by (simp_all add: decode_def Let_def UTF8_ACCEPT_def)
  show "fst (decode 0 c b) = 0 \<longleftrightarrow> b < 128" using D by (simp add: f)
  show "fst (decode 0 c b) = 0 \<Longrightarrow> snd (decode 0 c b) = b" using D assms by (simp add: f)
  show "fst (decode 0 c b) \<noteq> 0 \<Longrightarrow> fst (decode 0 c b) \<noteq> 1 \<Longrightarrow> utf8_inv (fst (decode 0 c b)) (snd (decode 0 c b))"
    using D unfolding f utf8_inv_def by auto
qed

lemma decode_next:
  assumes "b < 256" and "utf8_inv s c"
  shows "fst (decode s c b) = 0 \<Longrightarrow> snd (decode s c b) \<ge> 128 \<and> b \<ge> 128"
    and "fst (decode s c b) \<noteq> 0 \<Longrightarrow> fst (decode s c b) \<noteq> 1 \<Longrightarrow>
      utf8_inv (fst (decode s c b)) (snd (decode s c b)) \<and> b \<ge> 128"
proof -
  let ?t = "utf8d ! b"
  note B = byte_classD [OF assms(1), unfolded byte_class_def Let_def]
  note I = assms(2) [unfolded utf8_inv_def]
  have s: "2 \<le> s" "s \<le> 8" using I by auto
  have S: "state_step s ?t" using state_stepD [OF s] B by blast
  have "c < 2 ^ 21" using I by (cases "s = 2"; cases "s = 3") auto
  then have f: "fst (decode s c b) = utf8d ! (256 + s * 16 + ?t)" "snd (decode s c b) = c * 64 + b mod 64"
    using s by (simp_all add: decode_def Let_def UTF8_ACCEPT_def)
  have m: "b mod 64 < 64" by simp
  show "fst (decode s c b) = 0 \<Longrightarrow> snd (decode s c b) \<ge> 128 \<and> b \<ge> 128"
  proof -
    assume z: "fst (decode s c b) = 0"
    have "s = 2" "?t \<noteq> 0" using S z [unfolded f] unfolding state_step_def Let_def by auto
    moreover have "b < 128 \<longleftrightarrow> ?t = 0" using B by blast
    ultimately show ?thesis using I unfolding f by auto
  qed
  show "fst (decode s c b) \<noteq> 0 \<Longrightarrow> fst (decode s c b) \<noteq> 1 \<Longrightarrow>
      utf8_inv (fst (decode s c b)) (snd (decode s c b)) \<and> b \<ge> 128"
  proof -
    let ?s = "utf8d ! (256 + s * 16 + ?t)"
    assume "fst (decode s c b) \<noteq> 0" "fst (decode s c b) \<noteq> 1"
    then have ne: "?s \<noteq> 0" "?s \<noteq> 1" by (simp_all add: f)
    have le: "?s \<le> 3" and t0: "?s \<noteq> 1 \<longrightarrow> ?t \<noteq> 0"
      using S unfolding state_step_def Let_def by blast+
    have "b < 128 \<longleftrightarrow> ?t = 0" using B by blast
    then have ge: "b \<ge> 128" using t0 ne by simp
    have c7: "s \<ge> 4 \<Longrightarrow> c < 2 ^ 7" and c14: "s = 3 \<Longrightarrow> 1 \<le> c \<and> c < 2 ^ 14"
      and c1: "s = 5 \<or> s = 7 \<or> s = 8 \<Longrightarrow> 1 \<le> c" using I by blast+
    have b7: "?t = 7 \<Longrightarrow> b mod 64 \<ge> 32" and b9: "?t = 9 \<Longrightarrow> b mod 64 \<ge> 16" using B by blast+
    have two: "2 \<le> c * 64 + b mod 64 \<and> c < 2 ^ 14" if "?s = 2"
    proof -
      have "s = 3 \<or> s = 4 \<and> ?t = 7 \<or> s = 5"
        using S that unfolding state_step_def Let_def by blast
      then show ?thesis
      proof (elim disjE conjE)
        assume "s = 3" then show ?thesis using c14 by simp
      next
        assume "s = 4" "?t = 7" then show ?thesis using c7 b7 by simp
      next
        assume "s = 5" then show ?thesis using c7 c1 by simp
      qed
    qed
    have three: "1 \<le> c * 64 + b mod 64 \<and> c < 2 ^ 7" if "?s = 3"
    proof -
      have "s = 6 \<and> (?t = 7 \<or> ?t = 9) \<or> s = 7 \<or> s = 8"
        using S that unfolding state_step_def Let_def by blast
      then show ?thesis
      proof (elim disjE conjE)
        assume "s = 6" "?t = 7" then show ?thesis using c7 b7 by simp
      next
        assume "s = 6" "?t = 9" then show ?thesis using c7 b9 by simp
      qed (use c7 c1 in simp_all)
    qed
    have "?s = 2 \<or> ?s = 3" using le ne by linarith
    then show ?thesis using two three m ge unfolding f utf8_inv_def by auto
  qed
qed

section \<open>Escaped strings\<close>

definition esc_char :: "char \<Rightarrow> string" where
  "esc_char c = esc_codepoint (of_char c) c"

lemma esc_codepoint_high: "cp \<ge> 128 \<Longrightarrow> esc_codepoint cp c = [c]"
  by (simp add: esc_codepoint_def)

lemma byte_lt: "(of_char c :: nat) < 256"
  using nat_of_char_less_256 by blast

lemma dump_escaped_from_eq:
  assumes "s = 0 \<or> utf8_inv s cp" and "dump_escaped_from s cp str = Inr out"
  shows "out = concat (map esc_char str)"
  using assms
proof (induction str arbitrary: s cp out)
  case Nil
  then show ?case by (simp add: UTF8_ACCEPT_def split: if_splits)
next
  case (Cons c cs)
  let ?b = "of_char c :: nat"
  obtain s' cp' where d: "decode s cp ?b = (s', cp')" by fastforce
  have acc: "s' = 0 \<Longrightarrow> esc_codepoint cp' c = esc_char c"
    using Cons.prems(1) decode_start(1,2) [OF byte_lt, of cp c] decode_next(1) [OF byte_lt, of s cp c]
      esc_codepoint_high [of cp' c] esc_codepoint_high [of ?b c] d by (auto simp: esc_char_def)
  have mid: "utf8_inv s' cp' \<and> [c] = esc_char c" if "s' \<noteq> 0" "s' \<noteq> 1"
    using that Cons.prems(1) decode_start(1,3) [OF byte_lt, of cp c] decode_next(2) [OF byte_lt, of s cp c]
      esc_codepoint_high [of ?b c] d by (auto simp: esc_char_def not_less)
  show ?case
    using Cons.prems(2) Cons.IH [of s' cp'] acc mid
    by (auto simp: d UTF8_ACCEPT_def UTF8_REJECT_def rbind_def split: if_splits sum.splits)
qed

lemma dump_escaped_eq: "dump_escaped s = Inr out \<Longrightarrow> out = concat (map esc_char s)"
  using dump_escaped_from_eq [of 0 0 s out] by (simp add: dump_escaped_def UTF8_ACCEPT_def)

lemma dump_escaped_from_ascii:
  "\<forall>c\<in>set s. (of_char c :: nat) < 128 \<Longrightarrow> is_ok (dump_escaped_from 0 cp s)"
proof (induction s arbitrary: cp)
  case (Cons c cs)
  obtain s' cp' where d: "decode 0 cp (of_char c) = (s', cp')" by fastforce
  then have "s' = 0" using decode_start(1) [OF byte_lt, of cp c] Cons.prems by simp
  then show ?case
    using d Cons.IH [of cp'] Cons.prems by (auto simp: UTF8_ACCEPT_def rbind_def is_ok_def split: sum.splits)
qed (simp add: UTF8_ACCEPT_def is_ok_def)

text \<open>Reading a JSON string from after its opening quote: the grammar of RFC 8259, with the escapes
  for characters below 128.\<close>

definition unhex :: "char \<Rightarrow> nat option" where
  "unhex c = (let n = of_char c :: nat in
     if 48 \<le> n \<and> n \<le> 57 then Some (n - 48) else if 97 \<le> n \<and> n \<le> 102 then Some (n - 87)
     else if 65 \<le> n \<and> n \<le> 70 then Some (n - 55) else None)"

definition unescape :: "char \<Rightarrow> char option" where
  "unescape e =
     (if e = CHR ''b'' then Some (CHR 0x08) else if e = CHR ''t'' then Some (CHR 0x09)
      else if e = CHR ''n'' then Some (CHR 0x0A) else if e = CHR ''f'' then Some (CHR 0x0C)
      else if e = CHR ''r'' then Some (CHR 0x0D) else if e = CHR 0x22 then Some (CHR 0x22)
      else if e = CHR 0x5C then Some (CHR 0x5C) else if e = CHR ''/'' then Some (CHR ''/'') else None)"

definition unhex2 :: "string \<Rightarrow> char option" where
  "unhex2 h = (case h of [z0, z1, a, b] \<Rightarrow>
       if z0 = CHR ''0'' \<and> z1 = CHR ''0''
       then (case (unhex a, unhex b) of (Some x, Some y) \<Rightarrow> if x < 8 then Some (char_of (16 * x + y)) else None
             | _ \<Rightarrow> None)
       else None
     | _ \<Rightarrow> None)"

fun scan_json :: "string \<Rightarrow> (string \<times> string) option" where
  "scan_json [] = None"
| "scan_json (c # cs) =
     (if c = CHR 0x22 then Some ([], cs)
      else if c = CHR 0x5C then
        (case cs of [] \<Rightarrow> None
         | e # cs' \<Rightarrow>
             if e = CHR ''u'' then
               (case unhex2 (take 4 cs') of None \<Rightarrow> None
                | Some x \<Rightarrow> map_option (apfst ((#) x)) (scan_json (drop 4 cs')))
             else (case unescape e of None \<Rightarrow> None | Some x \<Rightarrow> map_option (apfst ((#) x)) (scan_json cs')))
      else if (of_char c :: nat) < 0x20 then None
      else map_option (apfst ((#) c)) (scan_json cs))"

lemma unhex_hex: "k < 16 \<Longrightarrow> unhex (hex k) = Some k"
  by (auto simp: unhex_def hex_def Let_def)

lemma unhex2_hex: "n < 32 \<Longrightarrow> unhex2 [CHR ''0'', CHR ''0'', hex (n div 16), hex (n mod 16)] = Some (char_of n)"
  using unhex_hex [of "n div 16"] unhex_hex [of "n mod 16"]
  by (simp add: unhex2_def)

lemma of_char_special:
  "(of_char c :: nat) = 0x08 \<longleftrightarrow> c = CHR 0x08" "(of_char c :: nat) = 0x09 \<longleftrightarrow> c = CHR 0x09"
  "(of_char c :: nat) = 0x0A \<longleftrightarrow> c = CHR 0x0A" "(of_char c :: nat) = 0x0C \<longleftrightarrow> c = CHR 0x0C"
  "(of_char c :: nat) = 0x0D \<longleftrightarrow> c = CHR 0x0D" "(of_char c :: nat) = 0x22 \<longleftrightarrow> c = CHR 0x22"
  "(of_char c :: nat) = 0x5C \<longleftrightarrow> c = CHR 0x5C"
proof -
  have "(of_char c :: nat) = of_char d \<longleftrightarrow> c = d" for d by simp
  from this [of "CHR 0x08"] this [of "CHR 0x09"] this [of "CHR 0x0A"] this [of "CHR 0x0C"]
    this [of "CHR 0x0D"] this [of "CHR 0x22"] this [of "CHR 0x5C"]
  show "(of_char c :: nat) = 0x08 \<longleftrightarrow> c = CHR 0x08" "(of_char c :: nat) = 0x09 \<longleftrightarrow> c = CHR 0x09"
    "(of_char c :: nat) = 0x0A \<longleftrightarrow> c = CHR 0x0A" "(of_char c :: nat) = 0x0C \<longleftrightarrow> c = CHR 0x0C"
    "(of_char c :: nat) = 0x0D \<longleftrightarrow> c = CHR 0x0D" "(of_char c :: nat) = 0x22 \<longleftrightarrow> c = CHR 0x22"
    "(of_char c :: nat) = 0x5C \<longleftrightarrow> c = CHR 0x5C" by simp_all
qed

lemma scan_esc_char: "scan_json (esc_char c @ t) = map_option (apfst ((#) c)) (scan_json t)"
proof (cases "c \<in> {CHR 0x08, CHR 0x09, CHR 0x0A, CHR 0x0C, CHR 0x0D, CHR 0x22, CHR 0x5C}")
  case True
  then show ?thesis
    by (elim insertE emptyE; simp add: esc_char_def esc_codepoint_def unescape_def)
next
  case False
  then have ne: "c \<noteq> CHR 0x22" "c \<noteq> CHR 0x5C" by auto
  show ?thesis
  proof (cases "(of_char c :: nat) < 32")
    case True
    then have "esc_char c = [CHR 0x5C, CHR ''u'', CHR ''0'', CHR ''0'',
        hex (of_char c div 16), hex (of_char c mod 16)]"
      using False by (simp add: esc_char_def esc_codepoint_def of_char_special)
    then show ?thesis using unhex2_hex [OF True] by simp
  next
    case hi: False
    then have "esc_char c = [c]"
      using False by (simp add: esc_char_def esc_codepoint_def of_char_special)
    then show ?thesis using ne hi by simp
  qed
qed

lemma scan_dumped: "scan_json (concat (map esc_char s) @ [CHR 0x22] @ rest) = Some (s, rest)"
  by (induction s) (simp_all add: scan_esc_char)

section \<open>Objects\<close>

lemma obj_get_put: "obj_get k' (obj_put k v m) = (if k' = k then Some v else obj_get k' m)"
  unfolding obj_get_def by (induction k v m rule: obj_put.induct) auto

section \<open>Printing ASCII values\<close>

definition ascii :: "string \<Rightarrow> bool" where
  "ascii s \<longleftrightarrow> (\<forall>c\<in>set s. (of_char c :: nat) < 128)"

fun ascii_json :: "json \<Rightarrow> bool" where
  "ascii_json (JString s) = ascii s"
| "ascii_json (JArray vs) = list_all ascii_json vs"
| "ascii_json (JObject m) = list_all (\<lambda>(k, v). ascii k \<and> ascii_json v) m"
| "ascii_json _ = True"

lemma dump_string_ascii: "ascii s \<Longrightarrow> is_ok (dump_string s)"
  using dump_escaped_from_ascii [of s 0]
  by (auto simp: ascii_def dump_string_def dump_escaped_def UTF8_ACCEPT_def rbind_def is_ok_def split: sum.splits)

lemma rmap_ok: "(\<And>x. x \<in> set xs \<Longrightarrow> is_ok (f x)) \<Longrightarrow> is_ok (rmap f xs)"
proof (induction xs)
  case (Cons a xs)
  then have "is_ok (f a)" "is_ok (rmap f xs)" by auto
  then show ?case by (auto simp: is_ok_def rbind_def split: sum.splits)
qed (simp add: is_ok_def)

lemma is_ok_rbind: "is_ok m \<Longrightarrow> (\<And>x. m = Inr x \<Longrightarrow> is_ok (f x)) \<Longrightarrow> is_ok (rbind m f)"
  by (auto simp: is_ok_def rbind_def split: sum.splits)

lemma is_ok_Inr: "is_ok (Inr x)"
  by (simp add: is_ok_def)

lemma dump_ascii: "ascii_json j \<Longrightarrow> is_ok (dump fp j)"
proof (induction fp j rule: dump.induct)
  case (1 fp m)
  have "is_ok (rmap (\<lambda>(k, v). rbind (dump_string k) (\<lambda>ks. rbind (dump fp v) (\<lambda>vs. Inr (ks @ '':'' @ vs)))) m)"
    if "m \<noteq> []"
  proof (rule rmap_ok)
    fix x assume x: "x \<in> set m"
    obtain k v where kv: "x = (k, v)" by fastforce
    have a: "ascii k" "ascii_json v" using "1.prems" x kv by (auto simp: list_all_iff)
    have "is_ok (dump fp v)" using "1.IH" [OF that x kv [symmetric] a(2)] .
    then show "is_ok (case x of (k, v) \<Rightarrow> rbind (dump_string k) (\<lambda>ks. rbind (dump fp v) (\<lambda>vs. Inr (ks @ '':'' @ vs))))"
      using dump_string_ascii [OF a(1)] by (simp add: kv is_ok_rbind is_ok_Inr)
  qed
  then show ?case by (auto intro!: is_ok_rbind is_ok_Inr)
next
  case (2 fp vs)
  have "is_ok (rmap (dump fp) vs)" if "vs \<noteq> []"
    by (rule rmap_ok) (use 2 that in \<open>auto simp: list_all_iff\<close>)
  then show ?case by (auto intro!: is_ok_rbind is_ok_Inr)
qed (auto simp: dump_string_ascii is_ok_Inr)

lemma obj_put_ascii:
  "ascii_json (JObject m) \<Longrightarrow> ascii k \<Longrightarrow> ascii_json v \<Longrightarrow> ascii_json (JObject (obj_put k v m))"
  by (induction k v m rule: obj_put.induct) auto

section \<open>Well-formed values\<close>

text \<open>\<^verbatim>\<open>std::map\<close> keeps its keys in strictly increasing order.\<close>

fun json_wf :: "json \<Rightarrow> bool" where
  "json_wf (JObject m) \<longleftrightarrow> sorted_wrt str_less (map fst m) \<and> (\<forall>(k, v) \<in> set m. json_wf v)"
| "json_wf (JArray vs) \<longleftrightarrow> (\<forall>v \<in> set vs. json_wf v)"
| "json_wf _ \<longleftrightarrow> True"

lemma str_less_trans: "str_less a b \<Longrightarrow> str_less b c \<Longrightarrow> str_less a c"
  by (induction a b arbitrary: c rule: str_less.induct) (case_tac c; auto)+

lemma str_less_total: "a \<noteq> b \<Longrightarrow> \<not> str_less a b \<Longrightarrow> str_less b a"
proof (induction a b rule: str_less.induct)
  case (4 a as b bs)
  have "(of_char a :: nat) < of_char b \<or> (of_char b :: nat) < of_char a" if "a \<noteq> b"
    using that by (metis linorder_neqE_nat of_char_eq_iff)
  then show ?case using 4 by auto
qed auto

lemma str_less_irrefl [simp]: "\<not> str_less a a"
  by (induction a) auto

lemma obj_put_keys: "set (map fst (obj_put k v m)) = insert k (set (map fst m))"
  by (induction k v m rule: obj_put.induct) auto

lemma obj_put_sorted: "sorted_wrt str_less (map fst m) \<Longrightarrow> sorted_wrt str_less (map fst (obj_put k v m))"
proof (induction k v m rule: obj_put.induct)
  case (2 k v k' v' m)
  have "str_less k x" if "str_less k k'" "x \<in> set (map fst m)" for x
    using 2(2) that by (auto intro: str_less_trans)
  moreover have "str_less k' x" if "k \<noteq> k'" "\<not> str_less k k'" "x \<in> set (map fst (obj_put k v m))" for x
    using 2(2) that str_less_total unfolding obj_put_keys by auto
  ultimately show ?case using 2 by auto
qed simp

lemma obj_put_vals: "(k', v') \<in> set (obj_put k v m) \<Longrightarrow> v' = v \<or> (k', v') \<in> set m"
  by (induction k v m rule: obj_put.induct) (auto split: if_splits)

lemma obj_put_wf: "json_wf (JObject m) \<Longrightarrow> json_wf v \<Longrightarrow> json_wf (JObject (obj_put k v m))"
  using obj_put_sorted [of m k v] by (auto dest!: obj_put_vals)

lemma json_wf_get: "json_wf (JObject m) \<Longrightarrow> obj_get k m = Some w \<Longrightarrow> json_wf w"
  by (auto simp: obj_get_def dest: map_of_SomeD)

lemma obj_get_small [simp]: "obj_get k [] = None" "obj_get k [(k, v)] = Some v"
  by (simp_all add: obj_get_def)

lemma json_wf_single: "json_wf v \<Longrightarrow> json_wf (JObject [(k, v)])"
  by simp

section \<open>Properties\<close>

text \<open>No text can break out of a JSON string: when \<^verbatim>\<open>dump\<close> prints a string, reading the output by
  the grammar of RFC 8259 gives back exactly the string and ends exactly at the closing quote, whatever
  follows; and printing succeeds at least for ASCII text.\<close>

theorem json_string_roundtrip:
  "(dump_string s = Inr out \<longrightarrow> (\<exists>t. out @ rest = CHR 0x22 # t \<and> scan_json t = Some (s, rest))) \<and>
   ((\<forall>c\<in>set s. (of_char c :: nat) < 128) \<longrightarrow> is_ok (dump_string s))"
proof (intro conjI impI)
  show "\<exists>t. out @ rest = CHR 0x22 # t \<and> scan_json t = Some (s, rest)" if "dump_string s = Inr out"
    using that dump_escaped_eq [of s] scan_dumped [of s rest]
    by (auto simp: dump_string_def rbind_def split: sum.splits)
  show "is_ok (dump_string s)" if "\<forall>c\<in>set s. (of_char c :: nat) < 128"
    using dump_escaped_from_ascii [OF that, of 0]
    by (auto simp: dump_string_def dump_escaped_def UTF8_ACCEPT_def rbind_def is_ok_def split: sum.splits)
qed

theorem json_string_roundtrip_witness:
  "is_ok (dump_string [CHR ''a'', CHR 0x22, CHR 0x0A, CHR 0x01])"
  using json_string_roundtrip [of "[CHR ''a'', CHR 0x22, CHR 0x0A, CHR 0x01]"] by simp

text \<open>The two-digits-at-a-time printer of integers writes the decimal representation, and the number
  of characters it reserves for it is exactly the number of digits.\<close>

theorem json_integer_decimal: "dump_integer i = int_str i \<and> count_digits n = length (put_digits n)"
  by (simp add: dump_integer_eq count_digits_eq put_digits_eq)

text \<open>Values stay well-formed.  The keys of every object, at any depth, are strictly increasing (so no
  key occurs twice), and the operations of the server on values keep this: reading a member, assigning
  one, appending to an array; what is assigned is what is found.\<close>

theorem json_operations_wf:
  assumes "json_wf j" and "json_wf v"
  shows "(index_read j key = Inr (w, j') \<longrightarrow> json_wf w \<and> json_wf j') \<and>
    (index_assign j key v = Inr j' \<longrightarrow> json_wf j' \<and> (\<exists>j''. index_read j' key = Inr (v, j''))) \<and>
    (push_back j v = Inr j' \<longrightarrow> json_wf j')"
proof (intro conjI impI)
  assume "index_read j key = Inr (w, j')"
  then show "json_wf w" "json_wf j'"
    using assms(1) obj_put_wf [of _ JNull key]
    by (auto simp: index_read_def json_wf_single simp del: json_wf.simps(1) split: json.splits option.splits dest: json_wf_get)
next
  assume "index_assign j key v = Inr j'"
  then show "json_wf j'" "\<exists>j''. index_read j' key = Inr (v, j'')"
    using assms obj_put_wf [of _ v key]
    by (auto simp: index_assign_def index_read_def obj_get_put json_wf_single simp del: json_wf.simps(1) split: json.splits option.splits)
next
  assume "push_back j v = Inr j'"
  then show "json_wf j'" using assms by (auto simp: push_back_def split: json.splits)
qed

theorem json_operations_wf_witness:
  "\<exists>j'. index_assign (JObject [(''a'', JNull), (''c'', JBool True)]) ''b'' (JInt 1) = Inr j' \<and> json_wf j'"
proof -
  let ?j = "JObject [(''a'', JNull), (''c'', JBool True)]"
  have "json_wf ?j" "json_wf (JInt 1)" by simp_all
  from json_operations_wf [OF this, of "''b''"] show ?thesis by (simp add: index_assign_def)
qed

end
