(* ===== verification/Json_Lexer.thy ===== *)
theory Json_Lexer
  imports Json
begin

text \<open>
  The lexer of \<^verbatim>\<open>thirdparty/json.hpp\<close>: the class \<^verbatim>\<open>lexer\<close> over an input adapter that reads the bytes of
  a string.  The record \<open>lexer\<close> has the members that decide what is read; what only serves error
  messages (\<^verbatim>\<open>token_string\<close>, \<^verbatim>\<open>error_message\<close>, the line and column of the position) is left out, the
  server discards it.  The program never calls \<^verbatim>\<open>setlocale\<close>, so the decimal point of the locale is a
  full stop.  The conversion of a floating-point number is the parameter \<open>strtod\<close>; \<open>None\<close> is an
  infinite result.
\<close>

section \<open>State\<close>

datatype token_type =
    uninitialized | literal_true | literal_false | literal_null | value_string | value_unsigned
  | value_integer | value_float | begin_array | begin_object | end_array | end_object
  | name_separator | value_separator | parse_error | end_of_input | literal_or_value

record lexer =
  ia :: string                 \<comment> \<open>what the input adapter has not delivered yet\<close>
  current :: int
  next_unget :: bool
  chars_read_total :: nat
  token_buffer :: string
  v_integer :: int
  v_unsigned :: int
  v_float :: "rat option"

definition EOF :: int where "EOF = -1"

definition mk_lexer :: "string \<Rightarrow> lexer" where
  "mk_lexer s = \<lparr>ia = s, current = EOF, next_unget = False, chars_read_total = 0, token_buffer = [],
     v_integer = 0, v_unsigned = 0, v_float = Some 0\<rparr>"

section \<open>Input\<close>

definition get :: "lexer \<Rightarrow> lexer" where
  "get lx =
     (let lx = lx\<lparr>chars_read_total := Suc (chars_read_total lx)\<rparr> in
      if next_unget lx then lx\<lparr>next_unget := False\<rparr>
      else case ia lx of
        [] \<Rightarrow> lx\<lparr>current := EOF\<rparr>
      | c # cs \<Rightarrow> lx\<lparr>current := of_char c, ia := cs\<rparr>)"

definition unget :: "lexer \<Rightarrow> lexer" where
  "unget lx = lx\<lparr>next_unget := True, chars_read_total := chars_read_total lx - 1\<rparr>"

definition add :: "int \<Rightarrow> lexer \<Rightarrow> lexer" where
  "add c lx = lx\<lparr>token_buffer := token_buffer lx @ [char_of c]\<rparr>"

definition reset_token :: "lexer \<Rightarrow> lexer" where
  "reset_token lx = lx\<lparr>token_buffer := []\<rparr>"

text \<open>The characters still to come, including one that was put back: the variant of every loop.\<close>

definition pending :: "lexer \<Rightarrow> string" where
  "pending lx = (if next_unget lx \<and> current lx \<noteq> EOF then [char_of (current lx)] else []) @ ia lx"

abbreviation avail :: "lexer \<Rightarrow> nat" where
  "avail lx \<equiv> length (pending lx)"

lemma pending_more [simp]:
  "pending (add c lx) = pending lx" "pending (reset_token lx) = pending lx"
  "pending (lx\<lparr>token_buffer := b\<rparr>) = pending lx" "pending (lx\<lparr>v_integer := i\<rparr>) = pending lx"
  "pending (lx\<lparr>v_unsigned := u\<rparr>) = pending lx" "pending (lx\<lparr>v_float := x\<rparr>) = pending lx"
  by (simp_all add: pending_def add_def reset_token_def)

lemma avail_get: "avail (get lx) \<le> avail lx"
  by (auto simp: get_def pending_def Let_def split: list.split)

lemma avail_get_less: "current (get lx) \<noteq> EOF \<Longrightarrow> avail (get lx) < avail lx"
  by (cases "ia lx") (auto simp: get_def pending_def Let_def split: if_splits)

section \<open>Strings\<close>

fun codepoint_from :: "nat list \<Rightarrow> int \<Rightarrow> lexer \<Rightarrow> int \<times> lexer" where
  "codepoint_from [] codepoint lx = (codepoint, lx)"
| "codepoint_from (factor # factors) codepoint lx =
     (let lx = get lx; c = current lx in
      if 0x30 \<le> c \<and> c \<le> 0x39 then codepoint_from factors (codepoint + (c - 0x30) * 2 ^ factor) lx
      else if 0x41 \<le> c \<and> c \<le> 0x46 then codepoint_from factors (codepoint + (c - 0x37) * 2 ^ factor) lx
      else if 0x61 \<le> c \<and> c \<le> 0x66 then codepoint_from factors (codepoint + (c - 0x57) * 2 ^ factor) lx
      else (-1, lx))"

definition get_codepoint :: "lexer \<Rightarrow> int \<times> lexer" where
  "get_codepoint lx = codepoint_from [12, 8, 4, 0] 0 lx"

text \<open>The bytes that \<^verbatim>\<open>scan_string\<close> appends for an escaped code point: \<^verbatim>\<open>|\<close>, \<^verbatim>\<open>>>\<close> and \<^verbatim>\<open>& 0x3F\<close> written as
  sums, quotients and remainders of the disjoint bit fields.\<close>

definition utf8_bytes :: "int \<Rightarrow> int list" where
  "utf8_bytes codepoint =
     (if codepoint < 0x80 then [codepoint]
      else if codepoint \<le> 0x7FF then [0xC0 + codepoint div 64, 0x80 + codepoint mod 64]
      else if codepoint \<le> 0xFFFF
        then [0xE0 + codepoint div 4096, 0x80 + codepoint div 64 mod 64, 0x80 + codepoint mod 64]
      else [0xF0 + codepoint div 262144, 0x80 + codepoint div 4096 mod 64, 0x80 + codepoint div 64 mod 64,
            0x80 + codepoint mod 64])"

text \<open>After \<^verbatim>\<open>\u\<close>: a code point of the basic plane, or a pair of surrogates.\<close>

definition scan_unicode :: "lexer \<Rightarrow> bool \<times> lexer" where
  "scan_unicode lx =
     (let (codepoint1, lx) = get_codepoint lx in
      if codepoint1 = -1 then (False, lx)
      else if 0xD800 \<le> codepoint1 \<and> codepoint1 \<le> 0xDBFF then
        (let lx = get lx in
         if current lx \<noteq> 0x5C then (False, lx)
         else let lx = get lx in
         if current lx \<noteq> 0x75 then (False, lx)
         else let (codepoint2, lx) = get_codepoint lx in
         if codepoint2 = -1 then (False, lx)
         else if 0xDC00 \<le> codepoint2 \<and> codepoint2 \<le> 0xDFFF
         then (True, fold add (utf8_bytes (codepoint1 * 1024 + codepoint2 - 0x35FDC00)) lx)
         else (False, lx))
      else if 0xDC00 \<le> codepoint1 \<and> codepoint1 \<le> 0xDFFF then (False, lx)
      else (True, fold add (utf8_bytes codepoint1) lx))"

text \<open>The character after a backslash has been read.\<close>

definition scan_escape :: "lexer \<Rightarrow> bool \<times> lexer" where
  "scan_escape lx =
     (let c = current lx in
      if c = 0x22 then (True, add 0x22 lx)
      else if c = 0x5C then (True, add 0x5C lx)
      else if c = 0x2F then (True, add 0x2F lx)
      else if c = 0x62 then (True, add 0x08 lx)
      else if c = 0x66 then (True, add 0x0C lx)
      else if c = 0x6E then (True, add 0x0A lx)
      else if c = 0x72 then (True, add 0x0D lx)
      else if c = 0x74 then (True, add 0x09 lx)
      else if c = 0x75 then scan_unicode lx
      else (False, lx))"

fun bytes_in_range :: "(int \<times> int) list \<Rightarrow> lexer \<Rightarrow> bool \<times> lexer" where
  "bytes_in_range [] lx = (True, lx)"
| "bytes_in_range ((lo, hi) # ranges) lx =
     (let lx = get lx in
      if lo \<le> current lx \<and> current lx \<le> hi then bytes_in_range ranges (add (current lx) lx)
      else (False, lx))"

definition next_byte_in_range :: "(int \<times> int) list \<Rightarrow> lexer \<Rightarrow> bool \<times> lexer" where
  "next_byte_in_range ranges lx = bytes_in_range ranges (add (current lx) lx)"

text \<open>The ranges of the bytes that have to follow a byte above \<^verbatim>\<open>0x7F\<close>.\<close>

definition utf8_ranges :: "int \<Rightarrow> (int \<times> int) list option" where
  "utf8_ranges c =
     (if 0xC2 \<le> c \<and> c \<le> 0xDF then Some [(0x80, 0xBF)]
      else if c = 0xE0 then Some [(0xA0, 0xBF), (0x80, 0xBF)]
      else if 0xE1 \<le> c \<and> c \<le> 0xEC \<or> c = 0xEE \<or> c = 0xEF then Some [(0x80, 0xBF), (0x80, 0xBF)]
      else if c = 0xED then Some [(0x80, 0x9F), (0x80, 0xBF)]
      else if c = 0xF0 then Some [(0x90, 0xBF), (0x80, 0xBF), (0x80, 0xBF)]
      else if 0xF1 \<le> c \<and> c \<le> 0xF3 then Some [(0x80, 0xBF), (0x80, 0xBF), (0x80, 0xBF)]
      else if c = 0xF4 then Some [(0x80, 0x8F), (0x80, 0xBF), (0x80, 0xBF)]
      else None)"

lemma avail_codepoint_from: "codepoint_from fs cp lx = (r, lx') \<Longrightarrow> avail lx' \<le> avail lx"
proof (induction fs cp lx rule: codepoint_from.induct)
  case (2 f fs cp lx)
  show ?case
    using "2.IH" [OF refl refl] "2.prems" avail_get [of lx]
    by (force simp: Let_def split: if_splits)
qed simp

lemma avail_get_codepoint: "get_codepoint lx = (r, lx') \<Longrightarrow> avail lx' \<le> avail lx"
  unfolding get_codepoint_def by (rule avail_codepoint_from)

lemma pending_fold_add [simp]: "pending (fold add bs lx) = pending lx"
  by (induction bs arbitrary: lx) simp_all

lemma avail_scan_unicode: "scan_unicode lx = (r, lx') \<Longrightarrow> avail lx' \<le> avail lx"
proof -
  assume "scan_unicode lx = (r, lx')"
  moreover obtain c1 l1 where g: "get_codepoint lx = (c1, l1)" by fastforce
  moreover obtain c2 l2 where h: "get_codepoint (get (get l1)) = (c2, l2)" by fastforce
  ultimately show ?thesis
    using avail_get_codepoint [OF g] avail_get_codepoint [OF h] avail_get [of l1] avail_get [of "get l1"]
    by (auto simp: scan_unicode_def Let_def split: if_splits)
qed

lemma avail_scan_escape: "scan_escape lx = (r, lx') \<Longrightarrow> avail lx' \<le> avail lx"
  by (auto simp: scan_escape_def Let_def dest: avail_scan_unicode split: if_splits)

lemma avail_bytes_in_range: "bytes_in_range rs lx = (r, lx') \<Longrightarrow> avail lx' \<le> avail lx"
proof (induction rs lx rule: bytes_in_range.induct)
  case (2 lo hi rs lx)
  show ?case
    using "2.IH" [OF refl] "2.prems" avail_get [of lx]
    by (force simp: Let_def split: if_splits)
qed simp

lemma avail_next_byte_in_range: "next_byte_in_range rs lx = (r, lx') \<Longrightarrow> avail lx' \<le> avail lx"
  unfolding next_byte_in_range_def by (drule avail_bytes_in_range) simp

text \<open>The loop of \<^verbatim>\<open>scan_string\<close>; the 32 cases of control characters and the 94 of printable ones are
  two ranges.\<close>

function scan_string_loop :: "lexer \<Rightarrow> token_type \<times> lexer" where
  "scan_string_loop lx =
     (let lx = get lx; c = current lx in
      if c = EOF then (parse_error, lx)
      else if c = 0x22 then (value_string, lx)
      else if c = 0x5C then
        (case scan_escape (get lx) of (ok, lx) \<Rightarrow> if ok then scan_string_loop lx else (parse_error, lx))
      else if c \<le> 0x1F then (parse_error, lx)
      else if c \<le> 0x7F then scan_string_loop (add c lx)
      else case utf8_ranges c of
        None \<Rightarrow> (parse_error, lx)
      | Some ranges \<Rightarrow>
          (case next_byte_in_range ranges lx of
             (ok, lx) \<Rightarrow> if ok then scan_string_loop lx else (parse_error, lx)))"
  by auto
termination
proof (relation "measure avail", goal_cases)
  case (2 lx l c ok l')
  have "avail l' \<le> avail (get l)" using 2(6) [symmetric] by (rule avail_scan_escape)
  also have "\<dots> \<le> avail l" by (rule avail_get)
  also have "\<dots> < avail lx" using avail_get_less [of lx] 2(1,2,3) by simp
  finally show ?case by simp
next
  case (3 lx l c)
  then show ?case using avail_get_less [of lx] by simp
next
  case (4 lx l c ranges ok l')
  have "avail l' \<le> avail l" using 4(9) [symmetric] by (rule avail_next_byte_in_range)
  also have "\<dots> < avail lx" using avail_get_less [of lx] 4(1,2,3) by simp
  finally show ?case by simp
qed simp

declare scan_string_loop.simps [simp del]

definition scan_string :: "lexer \<Rightarrow> token_type \<times> lexer" where
  "scan_string lx = scan_string_loop (reset_token lx)"

section \<open>Numbers\<close>

text \<open>The labels of \<^verbatim>\<open>scan_number\<close>.\<close>

datatype num_label =
    scan_number_minus | scan_number_zero | scan_number_any1 | scan_number_decimal1
  | scan_number_decimal2 | scan_number_exponent | scan_number_sign | scan_number_any2

abbreviation is_digit :: "int \<Rightarrow> bool" where
  "is_digit c \<equiv> 0x30 \<le> c \<and> c \<le> 0x39"

abbreviation is_exp :: "int \<Rightarrow> bool" where
  "is_exp c \<equiv> c = 0x65 \<or> c = 0x45"

text \<open>From a label on: the type of the number, or \<open>None\<close> for \<^verbatim>\<open>parse_error\<close>.  The lexer is the one at
  \<^verbatim>\<open>scan_number_done\<close>, after \<^verbatim>\<open>unget\<close>.\<close>

function scan_number_from :: "num_label \<Rightarrow> token_type \<Rightarrow> lexer \<Rightarrow> token_type option \<times> lexer" where
  "scan_number_from l number_type lx =
     (let number_type = (case l of scan_number_minus \<Rightarrow> value_integer
            | scan_number_decimal1 \<Rightarrow> value_float | scan_number_exponent \<Rightarrow> value_float | _ \<Rightarrow> number_type);
          lx = get lx; c = current lx in
      case l of
        scan_number_minus \<Rightarrow>
          if c = 0x30 then scan_number_from scan_number_zero number_type (add c lx)
          else if is_digit c then scan_number_from scan_number_any1 number_type (add c lx)
          else (None, lx)
      | scan_number_zero \<Rightarrow>
          if c = 0x2E then scan_number_from scan_number_decimal1 number_type (add 0x2E lx)
          else if is_exp c then scan_number_from scan_number_exponent number_type (add c lx)
          else (Some number_type, unget lx)
      | scan_number_any1 \<Rightarrow>
          if is_digit c then scan_number_from scan_number_any1 number_type (add c lx)
          else if c = 0x2E then scan_number_from scan_number_decimal1 number_type (add 0x2E lx)
          else if is_exp c then scan_number_from scan_number_exponent number_type (add c lx)
          else (Some number_type, unget lx)
      | scan_number_decimal1 \<Rightarrow>
          if is_digit c then scan_number_from scan_number_decimal2 number_type (add c lx) else (None, lx)
      | scan_number_decimal2 \<Rightarrow>
          if is_digit c then scan_number_from scan_number_decimal2 number_type (add c lx)
          else if is_exp c then scan_number_from scan_number_exponent number_type (add c lx)
          else (Some number_type, unget lx)
      | scan_number_exponent \<Rightarrow>
          if c = 0x2B \<or> c = 0x2D then scan_number_from scan_number_sign number_type (add c lx)
          else if is_digit c then scan_number_from scan_number_any2 number_type (add c lx)
          else (None, lx)
      | scan_number_sign \<Rightarrow>
          if is_digit c then scan_number_from scan_number_any2 number_type (add c lx) else (None, lx)
      | scan_number_any2 \<Rightarrow>
          if is_digit c then scan_number_from scan_number_any2 number_type (add c lx)
          else (Some number_type, unget lx))"
  by auto
termination
  by (relation "measure (\<lambda>(_, _, lx). avail lx)") (auto simp: EOF_def intro!: avail_get_less)

declare scan_number_from.simps [simp del]

text \<open>\<^verbatim>\<open>strtoull\<close> and \<^verbatim>\<open>strtoll\<close> on the digits that were read; \<open>None\<close> when they set \<^verbatim>\<open>errno\<close>.\<close>

definition dec_int :: "string \<Rightarrow> int" where
  "dec_int s = foldl (\<lambda>n c. n * 10 + (of_char c - 48)) 0 s"

definition strtoull :: "string \<Rightarrow> int option" where
  "strtoull s = (let x = dec_int s in if x < 2 ^ 64 then Some x else None)"

definition strtoll :: "string \<Rightarrow> int option" where
  "strtoll s =
     (let x = (if hd s = CHR ''-'' then - dec_int (tl s) else dec_int s) in
      if - (2 ^ 63) \<le> x \<and> x < 2 ^ 63 then Some x else None)"

definition scan_number_done :: "(string \<Rightarrow> rat option) \<Rightarrow> token_type \<Rightarrow> lexer \<Rightarrow> token_type \<times> lexer" where
  "scan_number_done strtod number_type lx =
     (let as_float = (value_float, lx\<lparr>v_float := strtod (token_buffer lx)\<rparr>) in
      if number_type = value_unsigned then
        (case strtoull (token_buffer lx) of
           Some x \<Rightarrow> (value_unsigned, lx\<lparr>v_unsigned := x\<rparr>) | None \<Rightarrow> as_float)
      else if number_type = value_integer then
        (case strtoll (token_buffer lx) of
           Some x \<Rightarrow> (value_integer, lx\<lparr>v_integer := x\<rparr>) | None \<Rightarrow> as_float)
      else as_float)"

definition scan_number :: "(string \<Rightarrow> rat option) \<Rightarrow> lexer \<Rightarrow> token_type \<times> lexer" where
  "scan_number strtod lx =
     (let c = current lx; lx = add c (reset_token lx);
          l = (if c = 0x2D then scan_number_minus else if c = 0x30 then scan_number_zero
               else scan_number_any1)
      in case scan_number_from l value_unsigned lx of
           (None, lx) \<Rightarrow> (parse_error, lx)
         | (Some number_type, lx) \<Rightarrow> scan_number_done strtod number_type lx)"

section \<open>Tokens\<close>

fun literal_from :: "string \<Rightarrow> token_type \<Rightarrow> lexer \<Rightarrow> token_type \<times> lexer" where
  "literal_from [] return_type lx = (return_type, lx)"
| "literal_from (c # cs) return_type lx =
     (let lx = get lx in
      if current lx \<noteq> of_char c then (parse_error, lx) else literal_from cs return_type lx)"

definition scan_literal :: "string \<Rightarrow> token_type \<Rightarrow> lexer \<Rightarrow> token_type \<times> lexer" where
  "scan_literal literal_text return_type lx = literal_from (tl literal_text) return_type lx"

definition skip_bom :: "lexer \<Rightarrow> bool \<times> lexer" where
  "skip_bom lx =
     (let lx = get lx in
      if current lx = 0xEF then
        (let lx = get lx in
         if current lx = 0xBB then (let lx = get lx in (current lx = 0xBF, lx)) else (False, lx))
      else (True, unget lx))"

abbreviation is_ws :: "int \<Rightarrow> bool" where
  "is_ws c \<equiv> c = 0x20 \<or> c = 0x09 \<or> c = 0x0A \<or> c = 0x0D"

function skip_ws :: "lexer \<Rightarrow> lexer" where
  "skip_ws lx = (let lx = get lx in if is_ws (current lx) then skip_ws lx else lx)"
  by auto
termination by (relation "measure avail") (auto simp: EOF_def intro!: avail_get_less)

declare skip_ws.simps [simp del]

text \<open>The switch of \<^verbatim>\<open>scan\<close> on the first character of a token.\<close>

definition scan_token :: "(string \<Rightarrow> rat option) \<Rightarrow> lexer \<Rightarrow> token_type \<times> lexer" where
  "scan_token strtod lx =
     (let c = current lx in
      if c = 0x5B then (begin_array, lx)
      else if c = 0x5D then (end_array, lx)
      else if c = 0x7B then (begin_object, lx)
      else if c = 0x7D then (end_object, lx)
      else if c = 0x3A then (name_separator, lx)
      else if c = 0x2C then (value_separator, lx)
      else if c = 0x74 then scan_literal ''true'' literal_true lx
      else if c = 0x66 then scan_literal ''false'' literal_false lx
      else if c = 0x6E then scan_literal ''null'' literal_null lx
      else if c = 0x22 then scan_string lx
      else if c = 0x2D \<or> is_digit c then scan_number strtod lx
      else if c = 0 \<or> c = EOF then (end_of_input, lx)
      else (parse_error, lx))"

definition scan :: "(string \<Rightarrow> rat option) \<Rightarrow> lexer \<Rightarrow> token_type \<times> lexer" where
  "scan strtod lx =
     (let (ok, lx) = (if chars_read_total lx = 0 then skip_bom lx else (True, lx)) in
      if \<not> ok then (parse_error, lx) else scan_token strtod (skip_ws lx))"

section \<open>Every scan consumes input\<close>

lemma next_unget_get [simp]: "\<not> next_unget (get lx)"
  by (auto simp: get_def Let_def split: list.split)

lemma avail_unget_get: "avail (unget (get lx)) \<le> avail lx"
proof (cases "current (get lx) = EOF")
  case True
  then have "pending (unget (get lx)) = pending (get lx)" by (simp add: pending_def unget_def)
  then show ?thesis using avail_get [of lx] by simp
next
  case False
  then have "avail (unget (get lx)) = Suc (avail (get lx))" by (simp add: pending_def unget_def)
  then show ?thesis using avail_get_less [OF False] by simp
qed

lemma avail_scan_string_loop: "scan_string_loop lx = (t, lx') \<Longrightarrow> avail lx' \<le> avail lx"
proof (induction lx rule: scan_string_loop.induct)
  case (1 lx)
  obtain ok l1 where e: "scan_escape (get (get lx)) = (ok, l1)" by fastforce
  have l1: "avail l1 \<le> avail lx"
    using avail_scan_escape [OF e] avail_get [of "get lx"] avail_get [of lx] by linarith
  have r: "avail l2 \<le> avail lx" if "next_byte_in_range rs (get lx) = (b, l2)" for rs b l2
    using avail_next_byte_in_range [OF that] avail_get [of lx] by linarith
  show ?case
    using "1.prems" "1.IH" [OF refl refl] avail_get [of lx] l1 r e
    by (subst (asm) scan_string_loop.simps) (force simp: Let_def split: if_splits prod.splits option.splits)
qed

lemma avail_scan_number_from: "scan_number_from l ty lx = (r, lx') \<Longrightarrow> avail lx' \<le> avail lx"
proof (induction l ty lx rule: scan_number_from.induct)
  case (1 l ty lx)
  note IH = "1.IH" [OF refl refl refl]
  have g: "avail (add c (get lx)) \<le> avail lx" for c using avail_get [of lx] by simp
  show ?case
    using "1.prems" avail_get [of lx] avail_unget_get [of lx] IH g
    by (subst (asm) scan_number_from.simps, cases l) (force simp: Let_def split: if_splits)+
qed

lemma avail_literal_from: "literal_from cs ty lx = (r, lx') \<Longrightarrow> avail lx' \<le> avail lx"
proof (induction cs ty lx rule: literal_from.induct)
  case (2 c cs ty lx)
  show ?case using "2.IH" [OF refl] "2.prems" avail_get [of lx] by (force simp: Let_def split: if_splits)
qed simp

lemma avail_skip_ws: "avail (skip_ws lx) \<le> avail lx \<and> (current (skip_ws lx) \<noteq> EOF \<longrightarrow> avail (skip_ws lx) < avail lx)"
proof (induction lx rule: skip_ws.induct)
  case (1 lx)
  show ?case
    using "1.IH" [OF refl] avail_get [of lx] avail_get_less [of lx] skip_ws.simps [of lx]
    by (cases "is_ws (current (get lx))") (auto simp: Let_def)
qed

lemma avail_scan_number: "scan_number sd lx = (t, lx') \<Longrightarrow> avail lx' \<le> avail lx"
  by (auto simp: scan_number_def scan_number_done_def Let_def
      dest!: avail_scan_number_from split: prod.splits option.splits if_splits)

lemma avail_scan_literal: "scan_literal txt ty lx = (t, lx') \<Longrightarrow> avail lx' \<le> avail lx"
  unfolding scan_literal_def by (rule avail_literal_from)

lemma avail_scan_string: "scan_string lx = (t, lx') \<Longrightarrow> avail lx' \<le> avail lx"
  unfolding scan_string_def by (drule avail_scan_string_loop) simp

lemma avail_scan_token: "scan_token sd lx = (t, lx') \<Longrightarrow> avail lx' \<le> avail lx"
  by (auto simp: scan_token_def Let_def
      dest: avail_scan_literal avail_scan_string avail_scan_number split: if_splits)

lemma avail_skip_bom: "skip_bom lx = (ok, lx') \<Longrightarrow> avail lx' \<le> avail lx"
  using avail_get [of lx] avail_get [of "get lx"] avail_get [of "get (get lx)"] avail_unget_get [of lx]
  by (auto simp: skip_bom_def Let_def split: if_splits)

text \<open>A token other than the end of the input or an error takes at least one character.\<close>

definition live :: "token_type \<Rightarrow> bool" where
  "live t \<longleftrightarrow> t \<noteq> end_of_input \<and> t \<noteq> parse_error"

lemma avail_scan:
  assumes "scan sd lx = (t, lx')"
  shows "avail lx' \<le> avail lx" and "live t \<Longrightarrow> avail lx' < avail lx"
proof -
  obtain ok l1 where b: "(if chars_read_total lx = 0 then skip_bom lx else (True, lx)) = (ok, l1)" by fastforce
  have l1: "avail l1 \<le> avail lx" using b avail_skip_bom [of lx] by (auto split: if_splits)
  note ws = avail_skip_ws [of l1]
  show "avail lx' \<le> avail lx"
    using assms b l1 ws avail_scan_token [of sd "skip_ws l1" t lx'] by (auto simp: scan_def split: if_splits)
  have eof: "current (skip_ws l1) = EOF \<Longrightarrow> scan_token sd (skip_ws l1) = (end_of_input, skip_ws l1)"
    by (simp add: scan_token_def EOF_def)
  show "live t \<Longrightarrow> avail lx' < avail lx"
    using assms b l1 ws avail_scan_token [of sd "skip_ws l1" t lx'] eof
    by (cases "current (skip_ws l1) = EOF") (auto simp: scan_def live_def split: if_splits)
qed

end
