(* ===== verification/Json_Parser.thy ===== *)
theory Json_Parser
  imports Json_Lexer
begin

text \<open>
  The parser of \<^verbatim>\<open>thirdparty/json.hpp\<close>: the loop \<^verbatim>\<open>sax_parse_internal\<close> with its stack of open arrays and
  objects, and \<^verbatim>\<open>json_sax_dom_parser\<close>, which builds the value.  The pointers of the latter into the value
  under construction are paths from its root.
\<close>

section \<open>Pointers into a value\<close>

datatype dom_step = Idx nat | Key string

type_synonym dom_path = "dom_step list"

fun sub_at :: "dom_path \<Rightarrow> json \<Rightarrow> json option" where
  "sub_at [] j = Some j"
| "sub_at (Idx i # p) (JArray vs) = (if i < length vs then sub_at p (vs ! i) else None)"
| "sub_at (Key k # p) (JObject m) = (case obj_get k m of Some v \<Rightarrow> sub_at p v | None \<Rightarrow> None)"
| "sub_at _ _ = None"

text \<open>Assignment through a pointer.\<close>

fun put_at :: "dom_path \<Rightarrow> json \<Rightarrow> json \<Rightarrow> json" where
  "put_at [] w j = w"
| "put_at (Idx i # p) w (JArray vs) = JArray (vs[i := put_at p w (vs ! i)])"
| "put_at (Key k # p) w (JObject m) = JObject (map (\<lambda>(k', v). (k', if k' = k then put_at p w v else v)) m)"
| "put_at _ w j = j"

section \<open>The builder\<close>

record dom =
  root :: json
  ref_stack :: "dom_path list"             \<comment> \<open>the last element first\<close>
  object_element :: "dom_path option"

text \<open>Following a pointer that leads nowhere, or a null pointer, is undefined behaviour
  (\<open>OutOfBounds\<close>, \<open>NullPointer\<close>).\<close>

definition handle_value :: "json \<Rightarrow> dom \<Rightarrow> (dom_path \<times> dom) result" where
  "handle_value v d =
     (case ref_stack d of
        [] \<Rightarrow> Inr ([], d\<lparr>root := v\<rparr>)
      | p # _ \<Rightarrow>
          (case sub_at p (root d) of
             Some (JArray vs) \<Rightarrow> Inr (p @ [Idx (length vs)], d\<lparr>root := put_at p (JArray (vs @ [v])) (root d)\<rparr>)
           | Some (JObject m) \<Rightarrow>
               (case object_element d of
                  None \<Rightarrow> Inl NullPointer
                | Some q \<Rightarrow>
                    if sub_at q (root d) = None then Inl OutOfBounds
                    else Inr (q, d\<lparr>root := put_at q v (root d)\<rparr>))
           | _ \<Rightarrow> Inl OutOfBounds))"

text \<open>The events of scalar values; \<^verbatim>\<open>start_object\<close> and \<^verbatim>\<open>start_array\<close>, where the length is always unknown;
  \<^verbatim>\<open>end_object\<close> and \<^verbatim>\<open>end_array\<close>.\<close>

definition dom_scalar :: "json \<Rightarrow> dom \<Rightarrow> dom result" where
  "dom_scalar v d = rbind (handle_value v d) (\<lambda>(_, d). Inr d)"

definition dom_start :: "json \<Rightarrow> dom \<Rightarrow> dom result" where
  "dom_start v d = rbind (handle_value v d) (\<lambda>(p, d). Inr (d\<lparr>ref_stack := p # ref_stack d\<rparr>))"

definition dom_end :: "dom \<Rightarrow> dom" where
  "dom_end d = d\<lparr>ref_stack := tl (ref_stack d)\<rparr>"

text \<open>\<^verbatim>\<open>operator[]\<close> of the map: the element is added with the value null when it is missing.\<close>

definition obj_touch :: "string \<Rightarrow> (string \<times> json) list \<Rightarrow> (string \<times> json) list" where
  "obj_touch k m = (case obj_get k m of Some _ \<Rightarrow> m | None \<Rightarrow> obj_put k JNull m)"

definition dom_key :: "string \<Rightarrow> dom \<Rightarrow> dom result" where
  "dom_key k d =
     (case ref_stack d of
        [] \<Rightarrow> Inl OutOfBounds
      | p # _ \<Rightarrow>
          (case sub_at p (root d) of
             Some (JObject m) \<Rightarrow>
               Inr (d\<lparr>root := put_at p (JObject (obj_touch k m)) (root d), object_element := Some (p @ [Key k])\<rparr>)
           | _ \<Rightarrow> Inl OutOfBounds))"

section \<open>The loop\<close>

text \<open>Where an iteration stands: the last token, the lexer, \<^verbatim>\<open>states\<close> (the last element first, true for an
  array) and the builder.\<close>

type_synonym sax_state = "token_type \<times> lexer \<times> bool list \<times> dom"

text \<open>A key, the colon and the first token of the value.\<close>

definition sax_member :: "(string \<Rightarrow> rat option) \<Rightarrow> token_type \<Rightarrow> lexer \<Rightarrow> dom \<Rightarrow> (token_type \<times> lexer \<times> dom) result" where
  "sax_member strtod last_token lx d =
     (if last_token \<noteq> value_string then Inl JsonParseError
      else rbind (dom_key (token_buffer lx) d) (\<lambda>d.
        let (last_token, lx) = scan strtod lx in
        if last_token \<noteq> name_separator then Inl JsonParseError
        else let (last_token, lx) = scan strtod lx in Inr (last_token, lx, d)))"

text \<open>The switch on the last token; the flag tells \<^verbatim>\<open>break\<close> (a value is complete) from \<^verbatim>\<open>continue\<close>.\<close>

definition sax_value :: "(string \<Rightarrow> rat option) \<Rightarrow> token_type \<Rightarrow> lexer \<Rightarrow> bool list \<Rightarrow> dom \<Rightarrow> (bool \<times> sax_state) result" where
  "sax_value strtod last_token lx states d =
     (let scalar = (\<lambda>v. rbind (dom_scalar v d) (\<lambda>d. Inr (True, last_token, lx, states, d))) in
      case last_token of
        begin_object \<Rightarrow>
          rbind (dom_start (JObject []) d) (\<lambda>d.
            let (last_token, lx) = scan strtod lx in
            if last_token = end_object then Inr (True, last_token, lx, states, dom_end d)
            else rbind (sax_member strtod last_token lx d) (\<lambda>(last_token, lx, d).
              Inr (False, last_token, lx, False # states, d)))
      | begin_array \<Rightarrow>
          rbind (dom_start (JArray []) d) (\<lambda>d.
            let (last_token, lx) = scan strtod lx in
            if last_token = end_array then Inr (True, last_token, lx, states, dom_end d)
            else Inr (False, last_token, lx, True # states, d))
      | value_float \<Rightarrow> (case v_float lx of None \<Rightarrow> Inl JsonOutOfRange | Some r \<Rightarrow> scalar (JFloat r))
      | literal_false \<Rightarrow> scalar (JBool False)
      | literal_null \<Rightarrow> scalar JNull
      | literal_true \<Rightarrow> scalar (JBool True)
      | value_integer \<Rightarrow> scalar (JInt (v_integer lx))
      | value_string \<Rightarrow> scalar (JString (token_buffer lx))
      | value_unsigned \<Rightarrow> scalar (JInt (v_unsigned lx))
      | _ \<Rightarrow> Inl JsonParseError)"

text \<open>After a value inside an array or object; the flag is \<^verbatim>\<open>skip_to_state_evaluation\<close>.\<close>

definition sax_after :: "(string \<Rightarrow> rat option) \<Rightarrow> lexer \<Rightarrow> bool list \<Rightarrow> dom \<Rightarrow> (bool \<times> sax_state) result" where
  "sax_after strtod lx states d =
     (let (last_token, lx) = scan strtod lx in
      if hd states then
        if last_token = value_separator then
          (let (last_token, lx) = scan strtod lx in Inr (False, last_token, lx, states, d))
        else if last_token = end_array then Inr (True, last_token, lx, tl states, dom_end d)
        else Inl JsonParseError
      else
        if last_token = value_separator then
          (let (last_token, lx) = scan strtod lx in
           rbind (sax_member strtod last_token lx d) (\<lambda>(last_token, lx, d).
             Inr (False, last_token, lx, states, d)))
        else if last_token = end_object then Inr (True, last_token, lx, tl states, dom_end d)
        else Inl JsonParseError)"

text \<open>The variant of the loop: the input left, and whether the last token is one that took input.\<close>

definition sax_variant :: "token_type \<Rightarrow> lexer \<Rightarrow> nat" where
  "sax_variant t lx = 2 * avail lx + (if live t then 1 else 0)"

lemma sax_variant_scan: "scan sd lx = (t, lx') \<Longrightarrow> live t0 \<Longrightarrow> sax_variant t lx' < sax_variant t0 lx"
  using avail_scan [of sd lx t lx'] by (auto simp: sax_variant_def)

lemma sax_variant_avail: "avail lx' < avail lx \<Longrightarrow> sax_variant t' lx' < sax_variant t lx"
  by (auto simp: sax_variant_def)

lemma rbind_cong [fundef_cong]:
  "m = m' \<Longrightarrow> (\<And>x. m' = Inr x \<Longrightarrow> f x = g x) \<Longrightarrow> rbind m f = rbind m' g"
  by (simp add: rbind_def split: sum.split)

lemma sax_member_avail:
  assumes "sax_member sd t lx d = Inr (t', lx', d')"
  shows "avail lx' < avail lx"
proof -
  obtain t1 l1 where sc: "scan sd lx = (t1, l1)" by fastforce
  obtain t2 l2 where sc2: "scan sd l1 = (t2, l2)" by fastforce
  have "t1 = name_separator" "lx' = l2"
    using assms by (auto simp: sax_member_def rbind_Inr sc sc2 split: if_splits)
  then show ?thesis using avail_scan [OF sc] avail_scan [OF sc2] by (simp add: live_def)
qed

lemma sax_value_variant:
  assumes "sax_value sd t lx st d = Inr (ev, t', lx', st', d')"
  shows "avail lx' \<le> avail lx" and "\<not> ev \<Longrightarrow> sax_variant t' lx' < sax_variant t lx"
proof -
  obtain t1 l1 where sc: "scan sd lx = (t1, l1)" by fastforce
  note A = avail_scan [OF sc]
  have "avail lx' \<le> avail lx \<and> (\<not> ev \<longrightarrow> sax_variant t' lx' < sax_variant t lx)"
    using assms sc A sax_member_avail [of sd t1 l1 _ t' lx' d'] sax_variant_scan [OF sc, of t]
      sax_variant_avail [of lx' lx t' t]
    by (cases t) (force simp: sax_value_def rbind_Inr Let_def live_def split: if_splits option.splits)+
  then show "avail lx' \<le> avail lx" and "\<not> ev \<Longrightarrow> sax_variant t' lx' < sax_variant t lx" by blast+
qed

lemma sax_after_avail: "sax_after sd lx st d = Inr (sk, t', lx', st', d') \<Longrightarrow> avail lx' < avail lx"
proof -
  assume a: "sax_after sd lx st d = Inr (sk, t', lx', st', d')"
  obtain t1 l1 where sc: "scan sd lx = (t1, l1)" by fastforce
  obtain t2 l2 where sc2: "scan sd l1 = (t2, l2)" by fastforce
  note A = avail_scan [OF sc] and B = avail_scan [OF sc2]
  show ?thesis
    using a A B sc sc2 sax_member_avail [of sd t2 l2 _ t' lx' d']
    by (force simp: sax_after_def rbind_Inr Let_def live_def split: if_splits)
qed

function sax_loop ::
  "(string \<Rightarrow> rat option) \<Rightarrow> bool \<Rightarrow> token_type \<Rightarrow> lexer \<Rightarrow> bool list \<Rightarrow> dom \<Rightarrow> (lexer \<times> dom) result" where
  "sax_loop strtod skip last_token lx states d =
     rbind (if skip then Inr (True, last_token, lx, states, d) else sax_value strtod last_token lx states d)
       (\<lambda>(complete, last_token, lx, states, d).
          if \<not> complete then sax_loop strtod False last_token lx states d
          else if states = [] then Inr (lx, d)
          else rbind (sax_after strtod lx states d) (\<lambda>(skip, last_token, lx, states, d).
            sax_loop strtod skip last_token lx states d))"
  by auto
termination
proof (relation "measure (\<lambda>(_, _, t, lx, _, _). sax_variant t lx)", goal_cases)
  case (2 sd skip t lx st d x c y t' z l' u st' d')
  then show ?case using sax_value_variant(2) [of sd t lx st d c t' l' st' d'] by (auto split: if_splits)
next
  case (3 sd skip t lx st d x c y t1 z l1 u s1 d1 v sk w t2 r l2 q s2 d2)
  have "avail l1 \<le> avail lx"
    using 3 sax_value_variant(1) [of sd t lx st d c t1 l1 s1 d1] by (auto split: if_splits)
  moreover have "avail l2 < avail l1" using 3 sax_after_avail [of sd l1 s1 d1 sk t2 l2 s2 d2] by auto
  ultimately show ?case by (simp add: sax_variant_avail)
qed simp

declare sax_loop.simps [simp del]

text \<open>\<^verbatim>\<open>json::parse\<close>: the strict parser with exceptions and without a callback.\<close>

definition parse :: "(string \<Rightarrow> rat option) \<Rightarrow> string \<Rightarrow> json result" where
  "parse strtod s =
     (let (last_token, lx) = scan strtod (mk_lexer s) in
      rbind (sax_loop strtod False last_token lx [] \<lparr>root = JNull, ref_stack = [], object_element = None\<rparr>)
        (\<lambda>(lx, d). if fst (scan strtod lx) \<noteq> end_of_input then Inl JsonParseError else Inr (root d)))"

end
