(* ===== verification/Json_Utf8.thy ===== *)
theory Json_Utf8
  imports Json_Parser
begin

text \<open>
  UTF-8 in \<^verbatim>\<open>thirdparty/json.hpp\<close>.  The serializer checks strings with the automaton \<^verbatim>\<open>decode\<close>, the lexer
  with ranges of bytes; here the two are shown to agree, the strings the lexer accepts are shown to
  be ones the serializer prints, and the lexer to read back what the serializer wrote.
\<close>

section \<open>The automaton and the ranges\<close>

text \<open>The bytes that lead a state of the automaton back to acceptance.\<close>

definition state_ranges :: "nat \<Rightarrow> (int \<times> int) list" where
  "state_ranges s =
     (if s = 2 then [(0x80, 0xBF)] else if s = 3 then [(0x80, 0xBF), (0x80, 0xBF)]
      else if s = 4 then [(0xA0, 0xBF), (0x80, 0xBF)] else if s = 5 then [(0x80, 0x9F), (0x80, 0xBF)]
      else if s = 6 then [(0x90, 0xBF), (0x80, 0xBF), (0x80, 0xBF)]
      else if s = 7 then [(0x80, 0xBF), (0x80, 0xBF), (0x80, 0xBF)]
      else [(0x80, 0x8F), (0x80, 0xBF), (0x80, 0xBF)])"

definition lead_byte :: "nat \<Rightarrow> bool" where
  "lead_byte b \<longleftrightarrow> (let t = utf8d ! b; s = utf8d ! (256 + t) in
     (t = 1 \<longleftrightarrow> 0x80 \<le> b \<and> b \<le> 0x8F) \<and> (t = 9 \<longleftrightarrow> 0x90 \<le> b \<and> b \<le> 0x9F) \<and> (t = 7 \<longleftrightarrow> 0xA0 \<le> b \<and> b \<le> 0xBF) \<and>
     t \<le> 11 \<and> (b \<ge> 128 \<longrightarrow>
       (if s = 1 then utf8_ranges (int b) = None
        else 2 \<le> s \<and> s \<le> 8 \<and> utf8_ranges (int b) = Some (state_ranges s))))"

lemma lead_bytes: "list_all lead_byte [0..<256]"
  by code_simp

lemma lead_byteD: "b < 256 \<Longrightarrow> lead_byte b"
  using lead_bytes by (simp add: list_all_iff)

definition first_types :: "nat \<Rightarrow> nat list" where
  "first_types s =
     (if s = 2 \<or> s = 3 \<or> s = 7 then [1, 9, 7] else if s = 4 then [7] else if s = 5 then [1, 9]
      else if s = 6 then [9, 7] else [1])"

definition next_state :: "nat \<Rightarrow> nat \<Rightarrow> bool" where
  "next_state s t \<longleftrightarrow> (let s' = utf8d ! (256 + s * 16 + t) in
     if t \<in> set (first_types s)
     then (if s = 2 then s' = 0 else 2 \<le> s' \<and> s' \<le> 8 \<and> state_ranges s' = tl (state_ranges s)) else s' = 1)"

lemma next_states: "list_all (\<lambda>s. list_all (next_state s) [0..<12]) [2..<9]"
  by code_simp

lemma next_stateD: "2 \<le> s \<Longrightarrow> s \<le> 8 \<Longrightarrow> t \<le> 11 \<Longrightarrow> next_state s t"
proof -
  assume "2 \<le> s" "s \<le> 8" "t \<le> 11"
  then have "s \<in> {2..<9}" "t \<in> {0..<12}" by auto
  then show ?thesis using next_states unfolding list_all_iff set_upt by blast
qed

definition in_range :: "char \<Rightarrow> int \<times> int \<Rightarrow> bool" where
  "in_range c r \<longleftrightarrow> fst r \<le> of_char c \<and> of_char c \<le> snd r"

lemma of_char_int: "(of_char c :: int) = int (of_char c)"
  by (rule of_nat_of_char [symmetric])

lemma first_types_range:
  assumes "2 \<le> s" and "s \<le> 8"
  shows "utf8d ! of_char c \<in> set (first_types s) \<longleftrightarrow> in_range c (hd (state_ranges s))"
proof -
  let ?b = "of_char c :: nat"
  note L = lead_byteD [OF byte_lt, of c, unfolded lead_byte_def Let_def]
  have "s = 2 \<or> s = 3 \<or> s = 4 \<or> s = 5 \<or> s = 6 \<or> s = 7 \<or> s = 8" using assms by auto
  moreover have "?b \<le> n \<longleftrightarrow> (of_char c :: int) \<le> int n" "n \<le> ?b \<longleftrightarrow> int n \<le> (of_char c :: int)" for n
    by (simp_all add: of_char_int)
  ultimately show ?thesis
    using L by (elim disjE) (auto simp: first_types_def state_ranges_def in_range_def of_char_int)
qed

lemma decode_state:
  assumes "2 \<le> s" and "s \<le> 8"
  shows "in_range c (hd (state_ranges s)) \<Longrightarrow>
      (if s = 2 then fst (decode s cp (of_char c)) = 0
       else 2 \<le> fst (decode s cp (of_char c)) \<and> fst (decode s cp (of_char c)) \<le> 8 \<and>
         state_ranges (fst (decode s cp (of_char c))) = tl (state_ranges s))"
    and "\<not> in_range c (hd (state_ranges s)) \<Longrightarrow> fst (decode s cp (of_char c)) = 1"
proof -
  have f: "fst (decode s cp (of_char c)) = utf8d ! (256 + s * 16 + utf8d ! of_char c)"
    by (simp add: decode_def Let_def)
  have "utf8d ! of_char c \<le> 11" using lead_byteD [OF byte_lt, of c] by (simp add: lead_byte_def Let_def)
  note N = next_stateD [OF assms this, unfolded next_state_def Let_def first_types_range [OF assms]]
  show "in_range c (hd (state_ranges s)) \<Longrightarrow>
      (if s = 2 then fst (decode s cp (of_char c)) = 0
       else 2 \<le> fst (decode s cp (of_char c)) \<and> fst (decode s cp (of_char c)) \<le> 8 \<and>
         state_ranges (fst (decode s cp (of_char c))) = tl (state_ranges s))"
    using N unfolding f by (auto split: if_splits)
  show "\<not> in_range c (hd (state_ranges s)) \<Longrightarrow> fst (decode s cp (of_char c)) = 1"
    using N unfolding f by (auto split: if_splits)
qed

lemma decode_lead:
  assumes "(of_char c :: nat) \<ge> 128"
  shows "utf8_ranges (of_char c) =
    (if fst (decode 0 cp (of_char c)) = 1 then None else Some (state_ranges (fst (decode 0 cp (of_char c)))))"
    and "fst (decode 0 cp (of_char c)) \<noteq> 1 \<Longrightarrow> 2 \<le> fst (decode 0 cp (of_char c)) \<and> fst (decode 0 cp (of_char c)) \<le> 8"
proof -
  have f: "fst (decode 0 cp (of_char c)) = utf8d ! (256 + utf8d ! of_char c)"
    by (simp add: decode_def Let_def)
  note L = lead_byteD [OF byte_lt, of c, unfolded lead_byte_def Let_def]
  show "utf8_ranges (of_char c) =
    (if fst (decode 0 cp (of_char c)) = 1 then None else Some (state_ranges (fst (decode 0 cp (of_char c)))))"
    and "fst (decode 0 cp (of_char c)) \<noteq> 1 \<Longrightarrow> 2 \<le> fst (decode 0 cp (of_char c)) \<and> fst (decode 0 cp (of_char c)) \<le> 8"
    using L assms unfolding f of_char_int by (auto split: if_splits)
qed

section \<open>Strings the serializer prints\<close>

definition valid_utf8 :: "string \<Rightarrow> bool" where
  "valid_utf8 s \<longleftrightarrow> is_ok (dump_escaped s)"

lemma decode_codep: "fst (decode s cp b) = fst (decode s cp' b)"
  by (simp add: decode_def Let_def)

lemma is_ok_rbind_eq: "is_ok (rbind m (\<lambda>x. Inr (f x))) \<longleftrightarrow> is_ok m"
  by (auto simp: is_ok_def rbind_def split: sum.split)

lemma dump_from_ok:
  "is_ok (dump_escaped_from st cp []) \<longleftrightarrow> st = 0"
  "is_ok (dump_escaped_from st cp (c # cs)) \<longleftrightarrow>
    (let d = decode st cp (of_char c) in fst d \<noteq> 1 \<and> is_ok (dump_escaped_from (fst d) (snd d) cs))"
  by (auto simp: UTF8_ACCEPT_def UTF8_REJECT_def is_ok_rbind_eq Let_def split: prod.split)

declare dump_escaped_from.simps [simp del]

lemma dump_from_codep: "is_ok (dump_escaped_from st cp s) = is_ok (dump_escaped_from st cp' s)"
proof (induction s arbitrary: st cp cp')
  case (Cons c cs)
  then show ?case unfolding dump_from_ok Let_def using decode_codep by metis
qed (simp add: dump_from_ok)

lemma valid_utf8_from: "valid_utf8 s \<longleftrightarrow> is_ok (dump_escaped_from 0 cp s)"
  using dump_from_codep [of 0 cp s 0] by (simp add: valid_utf8_def dump_escaped_def UTF8_ACCEPT_def)

lemma valid_utf8_Nil [simp]: "valid_utf8 []"
  by (simp add: valid_utf8_from [where cp = 0] dump_from_ok)

lemma dump_from_append:
  "is_ok (dump_escaped_from st cp a) \<Longrightarrow> valid_utf8 b \<Longrightarrow> is_ok (dump_escaped_from st cp (a @ b))"
proof (induction a arbitrary: st cp)
  case Nil
  then show ?case using valid_utf8_from by (simp add: dump_from_ok(1))
next
  case (Cons c cs)
  then show ?case by (simp add: dump_from_ok(2) Let_def)
qed

lemma valid_utf8_append: "valid_utf8 a \<Longrightarrow> valid_utf8 b \<Longrightarrow> valid_utf8 (a @ b)"
  using dump_from_append [of 0 0 a b] by (simp add: valid_utf8_from [where cp = 0])

lemma valid_utf8_ascii: "(of_char c :: nat) < 128 \<Longrightarrow> valid_utf8 [c]"
  using decode_start(1) [OF byte_lt, of 0 c]
  by (simp add: valid_utf8_from [where cp = 0] dump_from_ok Let_def)

lemma dump_from_ranges:
  "2 \<le> st \<Longrightarrow> st \<le> 8 \<Longrightarrow> list_all2 in_range cs (state_ranges st) \<Longrightarrow> is_ok (dump_escaped_from st cp cs)"
proof (induction cs arbitrary: st cp)
  case Nil
  then show ?case by (simp add: state_ranges_def split: if_splits)
next
  case (Cons c cs)
  obtain r rs where r: "state_ranges st = r # rs" using Cons.prems(3) by (cases "state_ranges st") auto
  let ?d = "decode st cp (of_char c)"
  note D = decode_state(1) [OF Cons.prems(1,2), of c cp]
  have c: "in_range c (hd (state_ranges st))" "list_all2 in_range cs rs" using Cons.prems(3) r by auto
  show ?case
  proof (cases "st = 2")
    case True
    then have "cs = []" using c(2) r by (simp add: state_ranges_def)
    then show ?thesis using D [OF c(1)] True by (simp add: dump_from_ok Let_def)
  next
    case False
    then show ?thesis
      using D [OF c(1)] Cons.IH [of "fst ?d" "snd ?d"] c(2) r by (simp add: dump_from_ok Let_def)
  qed
qed

text \<open>A leading byte followed by bytes in its ranges.\<close>

definition utf8_seq :: "string \<Rightarrow> bool" where
  "utf8_seq s \<longleftrightarrow> (case s of [] \<Rightarrow> False
     | c # cs \<Rightarrow> (of_char c :: nat) \<ge> 128 \<and>
         (case utf8_ranges (of_char c) of None \<Rightarrow> False | Some rs \<Rightarrow> list_all2 in_range cs rs))"

lemma valid_utf8_seq: "utf8_seq s \<Longrightarrow> valid_utf8 s"
proof (cases s)
  case (Cons c cs)
  assume s: "utf8_seq s"
  let ?d = "decode 0 0 (of_char c)"
  have "(of_char c :: nat) \<ge> 128" using s Cons by (simp add: utf8_seq_def)
  note L = decode_lead [OF this, of 0]
  show ?thesis
    using s Cons L dump_from_ranges [of "fst ?d" cs "snd ?d"]
    by (auto simp: utf8_seq_def valid_utf8_from [where cp = 0] dump_from_ok Let_def split: if_splits)
qed (simp add: utf8_seq_def)

text \<open>Conversely, what the automaton accepts from a state on begins with bytes in the ranges.\<close>

lemma dump_from_split:
  "2 \<le> st \<Longrightarrow> st \<le> 8 \<Longrightarrow> is_ok (dump_escaped_from st cp s) \<Longrightarrow>
    \<exists>bs s'. s = bs @ s' \<and> list_all2 in_range bs (state_ranges st) \<and> valid_utf8 s'"
proof (induction s arbitrary: st cp)
  case Nil
  then show ?case by (simp add: dump_from_ok)
next
  case (Cons c cs)
  let ?d = "decode st cp (of_char c)"
  note D = decode_state [OF Cons.prems(1,2), of c cp]
  have ok: "fst ?d \<noteq> 1" "is_ok (dump_escaped_from (fst ?d) (snd ?d) cs)"
    using Cons.prems(3) by (simp_all add: dump_from_ok Let_def)
  have c: "in_range c (hd (state_ranges st))" using D(2) ok(1) by blast
  show ?case
  proof (cases "st = 2")
    case True
    then have "valid_utf8 cs" using D(1) [OF c] ok(2) valid_utf8_from by simp
    moreover have "list_all2 in_range [c] (state_ranges st)" using True c by (simp add: state_ranges_def)
    ultimately show ?thesis by (metis append_Cons append_Nil)
  next
    case False
    then have n: "2 \<le> fst ?d" "fst ?d \<le> 8" "state_ranges (fst ?d) = tl (state_ranges st)" using D(1) [OF c] by simp_all
    obtain bs s' where b: "cs = bs @ s'" "list_all2 in_range bs (tl (state_ranges st))" "valid_utf8 s'"
      using Cons.IH [OF n(1,2) ok(2)] n(3) by auto
    moreover have "state_ranges st \<noteq> []" by (simp add: state_ranges_def)
    ultimately have "list_all2 in_range (c # bs) (state_ranges st)" using c by (cases "state_ranges st") auto
    then show ?thesis using b by (metis append_Cons)
  qed
qed

lemma valid_utf8_cases:
  assumes "valid_utf8 (c # cs)"
  shows "(of_char c :: nat) < 128 \<and> valid_utf8 cs \<or>
    (\<exists>bs s'. cs = bs @ s' \<and> utf8_seq (c # bs) \<and> valid_utf8 s')"
proof (cases "(of_char c :: nat) < 128")
  case True
  then show ?thesis
    using assms decode_start(1) [OF byte_lt, of 0 c] valid_utf8_from [of cs "snd (decode 0 0 (of_char c))"]
    by (simp add: valid_utf8_from [of "c # cs" 0] dump_from_ok Let_def)
next
  case False
  let ?d = "decode 0 0 (of_char c)"
  have "fst ?d \<noteq> 1" "is_ok (dump_escaped_from (fst ?d) (snd ?d) cs)"
    using assms by (simp_all add: valid_utf8_from [where cp = 0] dump_from_ok Let_def)
  then show ?thesis
    using False decode_lead [of c 0] dump_from_split [of "fst ?d" "snd ?d" cs]
    by (auto simp: utf8_seq_def not_less split: if_splits)
qed

text \<open>The code points that \<^verbatim>\<open>\u\<close> escapes can denote are written as valid UTF-8.\<close>

lemma in_range_char_of: "0 \<le> b \<Longrightarrow> b < 256 \<Longrightarrow> in_range (char_of b) (lo, hi) \<longleftrightarrow> lo \<le> b \<and> b \<le> hi"
  by (simp add: in_range_def)

lemma nat_char_of: "0 \<le> b \<Longrightarrow> b < 256 \<Longrightarrow> (of_char (char_of b :: char) :: nat) = nat b"
proof -
  assume b: "0 \<le> b" "b < 256"
  have "int (of_char (char_of b :: char)) = b mod 256" by (simp add: of_nat_of_char)
  then show ?thesis using b by simp
qed

lemma utf8_seqI:
  assumes "128 \<le> b" and "b < 256" and "utf8_ranges b = Some rs"
    and "list_all2 (\<lambda>x r. 0 \<le> x \<and> x < 256 \<and> fst r \<le> x \<and> x \<le> snd r) bs rs"
  shows "valid_utf8 (map char_of (b # bs))"
proof -
  have "list_all2 in_range (map char_of bs) rs"
    using assms(4) by (auto simp: list_all2_map1 in_range_char_of split_paired_all elim!: list_all2_mono)
  then show ?thesis using assms(1-3) by (intro valid_utf8_seq) (simp add: utf8_seq_def nat_char_of)
qed

lemma valid_utf8_3:
  fixes h m l :: int
  assumes h: "0 \<le> h" "h \<le> 15" and m: "0 \<le> m" "m \<le> 63" "h = 0 \<Longrightarrow> 32 \<le> m" "h = 13 \<Longrightarrow> m \<le> 31" and l: "0 \<le> l" "l \<le> 63"
  shows "valid_utf8 (map char_of [0xE0 + h, 0x80 + m, 0x80 + l])"
proof -
  have "h = 0 \<or> h = 13 \<or> 1 \<le> h \<and> h \<le> 12 \<or> h \<in> {14, 15}" using h by auto
  then show ?thesis
  proof (elim disjE)
    assume "h = 0"
    then show ?thesis
      using m l by (intro utf8_seqI [where rs = "[(0xA0, 0xBF), (0x80, 0xBF)]"]) (simp_all add: utf8_ranges_def)
  next
    assume "h = 13"
    then show ?thesis
      using m l by (intro utf8_seqI [where rs = "[(0x80, 0x9F), (0x80, 0xBF)]"]) (simp_all add: utf8_ranges_def)
  next
    assume "h \<in> {14, 15}"
    then have "utf8_ranges (0xE0 + h) = Some [(0x80, 0xBF), (0x80, 0xBF)]" by (auto simp: utf8_ranges_def)
    from utf8_seqI [OF _ _ this, of "[0x80 + m, 0x80 + l]"] show ?thesis using h m l by simp
  qed (use m l in \<open>intro utf8_seqI [where rs = "[(0x80, 0xBF), (0x80, 0xBF)]"], simp_all add: utf8_ranges_def\<close>)
qed

lemma valid_utf8_4:
  fixes h m l n :: int
  assumes h: "0 \<le> h" "h \<le> 4" and m: "0 \<le> m" "m \<le> 63" "h = 0 \<Longrightarrow> 16 \<le> m" "h = 4 \<Longrightarrow> m \<le> 15"
    and l: "0 \<le> l" "l \<le> 63" "0 \<le> n" "n \<le> 63"
  shows "valid_utf8 (map char_of [0xF0 + h, 0x80 + m, 0x80 + l, 0x80 + n])"
proof -
  have "h = 0 \<or> h = 4 \<or> 1 \<le> h \<and> h \<le> 3" using h by linarith
  then show ?thesis
  proof (elim disjE)
    assume "h = 0"
    then show ?thesis
      using m l by (intro utf8_seqI [where rs = "[(0x90, 0xBF), (0x80, 0xBF), (0x80, 0xBF)]"]) (simp_all add: utf8_ranges_def)
  next
    assume "h = 4"
    then show ?thesis
      using m l by (intro utf8_seqI [where rs = "[(0x80, 0x8F), (0x80, 0xBF), (0x80, 0xBF)]"]) (simp_all add: utf8_ranges_def)
  qed (use m l in \<open>intro utf8_seqI [where rs = "[(0x80, 0xBF), (0x80, 0xBF), (0x80, 0xBF)]"], simp_all add: utf8_ranges_def\<close>)
qed

lemma div_split: "(x :: int) div 64 = x div 4096 * 64 + x div 64 mod 64"
  using div_mult_mod_eq [of "x div 64" 64] zdiv_zmult2_eq [of 64 x 64] by simp

lemma valid_utf8_bytes:
  assumes "0 \<le> cp" and "cp \<le> 0x10FFFF" and "\<not> (0xD800 \<le> cp \<and> cp \<le> 0xDFFF)"
  shows "valid_utf8 (map char_of (utf8_bytes cp))"
proof -
  have m: "0 \<le> x mod 64" "x mod 64 \<le> 63" for x :: int by simp_all
  consider "cp < 0x80" | "0x80 \<le> cp" "cp \<le> 0x7FF" | "0x7FF < cp" "cp \<le> 0xFFFF" | "0xFFFF < cp" by linarith
  then show ?thesis
  proof cases
    case 1
    then show ?thesis using valid_utf8_ascii assms(1) by (simp add: utf8_bytes_def nat_char_of)
  next
    case 2
    then have b: "2 \<le> cp div 64" "cp div 64 \<le> 31" by linarith+
    have "valid_utf8 (map char_of [0xC0 + cp div 64, 0x80 + cp mod 64])"
      using b m by (intro utf8_seqI [where rs = "[(0x80, 0xBF)]"]) (simp_all add: utf8_ranges_def)
    then show ?thesis using 2 by (simp add: utf8_bytes_def)
  next
    case 3
    have m13: "cp div 64 mod 64 \<le> 31" if "cp div 4096 = 13"
    proof -
      have "cp \<le> 0xDFFF" using that by linarith
      then have "cp < 0xD800" using assms(3) by linarith
      then have "cp div 64 < 864" by linarith
      then show ?thesis using div_split [of cp] that by linarith
    qed
    have "32 \<le> cp div 64 mod 64" if "cp div 4096 = 0" using div_split [of cp] that 3(1) by linarith
    then have "valid_utf8 (map char_of [0xE0 + cp div 4096, 0x80 + cp div 64 mod 64, 0x80 + cp mod 64])"
      using 3 m13 m by (intro valid_utf8_3) linarith+
    then show ?thesis using 3 by (simp add: utf8_bytes_def)
  next
    case 4
    have e: "cp div 4096 = cp div 262144 * 64 + cp div 4096 mod 64"
      using div_split [of "cp div 64"] zdiv_zmult2_eq [of 64 cp 64] zdiv_zmult2_eq [of 4096 cp 64]
        zdiv_zmult2_eq [of 64 cp 4096] by simp
    have "16 \<le> cp div 4096 mod 64" if "cp div 262144 = 0" using e that 4 by linarith
    moreover have "cp div 4096 mod 64 \<le> 15" if "cp div 262144 = 4" using e that assms(2) by linarith
    ultimately have "valid_utf8 (map char_of [0xF0 + cp div 262144, 0x80 + cp div 4096 mod 64,
        0x80 + cp div 64 mod 64, 0x80 + cp mod 64])"
      using 4 assms(2) m by (intro valid_utf8_4) linarith+
    then show ?thesis using 4 by (simp add: utf8_bytes_def)
  qed
qed

end
