(* ===== verification/Json_Strings.thy ===== *)
theory Json_Strings
  imports Json_Utf8
begin

text \<open>
  The string scanner of \<^verbatim>\<open>thirdparty/json.hpp\<close>: what it accepts is valid UTF-8, and it reads back what the
  serializer printed.
\<close>

section \<open>The scanner returns valid UTF-8\<close>

lemma token_buffer_get [simp]: "token_buffer (get lx) = token_buffer lx" "token_buffer (unget lx) = token_buffer lx"
  by (auto simp: get_def unget_def Let_def split: list.split)

lemma token_buffer_add [simp]: "token_buffer (add c lx) = token_buffer lx @ [char_of c]"
  by (simp add: add_def)

lemma token_buffer_adds [simp]: "token_buffer (fold add bs lx) = token_buffer lx @ map char_of bs"
  by (induction bs arbitrary: lx) simp_all

lemma codepoint_from_range:
  "codepoint_from fs cp lx = (r, lx') \<Longrightarrow>
    token_buffer lx' = token_buffer lx \<and> (r = -1 \<or> cp \<le> r \<and> r \<le> cp + 15 * (\<Sum>f\<leftarrow>fs. 2 ^ f))"
proof (induction fs cp lx rule: codepoint_from.induct)
  case (2 f fs cp lx)
  let ?c = "current (get lx)"
  note IH = "2.IH" [OF refl refl]
  have step: ?case if "0 \<le> v" "v \<le> 15" "codepoint_from fs (cp + v * 2 ^ f) (get lx) = (r, lx') \<Longrightarrow>
      token_buffer lx' = token_buffer (get lx) \<and>
      (r = -1 \<or> cp + v * 2 ^ f \<le> r \<and> r \<le> cp + v * 2 ^ f + 15 * (\<Sum>f\<leftarrow>fs. 2 ^ f))"
    "codepoint_from fs (cp + v * 2 ^ f) (get lx) = (r, lx')" for v :: int
  proof -
    have le: "0 \<le> v * 2 ^ f" "v * 2 ^ f \<le> 15 * 2 ^ f" using that(1,2) by simp_all
    have "token_buffer lx' = token_buffer lx" using that(3) [OF that(4)] by simp
    moreover have "r = -1 \<or> cp \<le> r \<and> r \<le> cp + 15 * (\<Sum>f\<leftarrow>f # fs. 2 ^ f)"
      using that(3) [OF that(4)] le unfolding list.map sum_list.Cons distrib_left by linarith
    ultimately show ?thesis by blast
  qed
  consider "0x30 \<le> ?c \<and> ?c \<le> 0x39" | "\<not> (0x30 \<le> ?c \<and> ?c \<le> 0x39)" "0x41 \<le> ?c \<and> ?c \<le> 0x46"
    | "\<not> (0x30 \<le> ?c \<and> ?c \<le> 0x39)" "\<not> (0x41 \<le> ?c \<and> ?c \<le> 0x46)" "0x61 \<le> ?c \<and> ?c \<le> 0x66"
    | "\<not> (0x30 \<le> ?c \<and> ?c \<le> 0x39)" "\<not> (0x41 \<le> ?c \<and> ?c \<le> 0x46)" "\<not> (0x61 \<le> ?c \<and> ?c \<le> 0x66)" by blast
  then show ?case
  proof cases
    case 1
    show ?thesis by (rule step [of "?c - 0x30"]) (use 1 "2.prems" IH(1) in \<open>auto simp: Let_def\<close>)
  next
    case 2
    show ?thesis by (rule step [of "?c - 0x37"]) (use 2 "2.prems" IH(2) in \<open>auto simp: Let_def\<close>)
  next
    case 3
    show ?thesis by (rule step [of "?c - 0x57"]) (use 3 "2.prems" IH(3) in \<open>auto simp: Let_def\<close>)
  next
    case 4
    then show ?thesis using "2.prems" by (auto simp: Let_def split: if_splits)
  qed
qed simp

lemma get_codepoint_range:
  assumes "get_codepoint lx = (r, lx')" and "r \<noteq> -1"
  shows "0 \<le> r" and "r \<le> 0xFFFF"
  using codepoint_from_range [OF assms(1) [unfolded get_codepoint_def]] assms(2) by auto

lemma get_codepoint_buffer: "get_codepoint lx = (r, lx') \<Longrightarrow> token_buffer lx' = token_buffer lx"
  using codepoint_from_range [of "[12, 8, 4, 0]" 0 lx r lx'] by (simp add: get_codepoint_def)

lemma scan_unicode_valid:
  assumes "scan_unicode lx = (True, lx')"
  shows "\<exists>w. valid_utf8 w \<and> token_buffer lx' = token_buffer lx @ w"
proof -
  obtain c1 l1 where g: "get_codepoint lx = (c1, l1)" by fastforce
  obtain c2 l2 where h: "get_codepoint (get (get l1)) = (c2, l2)" by fastforce
  note R1 = get_codepoint_range [OF g] and R2 = get_codepoint_range [OF h]
  consider "c1 \<noteq> -1" "0xD800 \<le> c1" "c1 \<le> 0xDBFF" "c2 \<noteq> -1" "0xDC00 \<le> c2" "c2 \<le> 0xDFFF"
      "lx' = fold add (utf8_bytes (c1 * 1024 + c2 - 0x35FDC00)) l2"
    | "c1 \<noteq> -1" "\<not> (0xD800 \<le> c1 \<and> c1 \<le> 0xDFFF)" "lx' = fold add (utf8_bytes c1) l1"
    using assms by (auto simp: scan_unicode_def g h Let_def split: if_splits)
  then show ?thesis
  proof cases
    case 1
    then have "valid_utf8 (map char_of (utf8_bytes (c1 * 1024 + c2 - 0x35FDC00)))"
      by (intro valid_utf8_bytes) linarith+
    then show ?thesis using 1(7) get_codepoint_buffer [OF g] get_codepoint_buffer [OF h] by auto
  next
    case 2
    then have "valid_utf8 (map char_of (utf8_bytes c1))" using R1 by (intro valid_utf8_bytes) linarith+
    then show ?thesis using 2(3) get_codepoint_buffer [OF g] by auto
  qed
qed

lemma scan_escape_valid:
  assumes "scan_escape lx = (True, lx')"
  shows "\<exists>w. valid_utf8 w \<and> token_buffer lx' = token_buffer lx @ w"
proof -
  have one: "0 \<le> b \<Longrightarrow> b < 128 \<Longrightarrow> valid_utf8 [char_of b]" for b :: int
    using valid_utf8_ascii by (simp add: nat_char_of)
  show ?thesis
    using assms scan_unicode_valid [of lx lx'] one [of "0x22"] one [of "0x5C"] one [of "0x2F"] one [of 8] one [of 12]
      one [of 10] one [of 13] one [of 9]
    by (auto simp: scan_escape_def Let_def split: if_splits)
qed

lemma bytes_in_range_buffer:
  "bytes_in_range rs lx = (True, lx') \<Longrightarrow> \<forall>r\<in>set rs. 0 \<le> fst r \<and> snd r < 256 \<Longrightarrow>
    \<exists>bs. list_all2 in_range bs rs \<and> token_buffer lx' = token_buffer lx @ bs"
proof (induction rs lx rule: bytes_in_range.induct)
  case (2 lo hi rs lx)
  let ?l = "get lx"
  have c: "lo \<le> current ?l" "current ?l \<le> hi" "bytes_in_range rs (add (current ?l) ?l) = (True, lx')"
    using 2(2) by (auto simp: Let_def split: if_splits)
  then obtain bs where "list_all2 in_range bs rs" "token_buffer lx' = token_buffer lx @ char_of (current ?l) # bs"
    using "2.IH" [OF refl] 2(3) by auto
  moreover have "in_range (char_of (current ?l)) (lo, hi)" using c 2(3) by (simp add: in_range_char_of)
  ultimately show ?case by (metis list_all2_Cons)
qed simp

lemma utf8_ranges_bounds: "utf8_ranges c = Some rs \<Longrightarrow> 0xC2 \<le> c \<and> c \<le> 0xF4 \<and> (\<forall>r\<in>set rs. 0 \<le> fst r \<and> snd r < 256)"
  by (auto simp: utf8_ranges_def split: if_splits)

lemma next_byte_in_range_valid:
  assumes "utf8_ranges (current lx) = Some rs" and "next_byte_in_range rs lx = (True, lx')"
  shows "\<exists>w. valid_utf8 w \<and> token_buffer lx' = token_buffer lx @ w"
proof -
  note B = utf8_ranges_bounds [OF assms(1)]
  obtain bs where bs: "list_all2 in_range bs rs" "token_buffer lx' = token_buffer lx @ char_of (current lx) # bs"
    using bytes_in_range_buffer [OF assms(2) [unfolded next_byte_in_range_def]] B by auto
  moreover have "128 \<le> nat (current lx)" using B by linarith
  ultimately have "utf8_seq (char_of (current lx) # bs)"
    using B assms(1) by (simp add: utf8_seq_def nat_char_of)
  then show ?thesis using bs(2) valid_utf8_seq by blast
qed

lemma scan_string_loop_valid:
  "scan_string_loop lx = (value_string, lx') \<Longrightarrow> valid_utf8 (token_buffer lx) \<Longrightarrow> valid_utf8 (token_buffer lx')"
proof (induction lx rule: scan_string_loop.induct)
  case (1 lx)
  let ?l = "get lx"
  note IH = "1.IH" [OF refl refl]
  have app: "valid_utf8 (token_buffer lx @ w)" if "valid_utf8 w" for w
    using valid_utf8_append [OF "1.prems"(2) that] .
  consider "lx' = ?l"
    | l2 where "current ?l \<noteq> EOF" "current ?l = 0x5C" "scan_escape (get ?l) = (True, l2)" "scan_string_loop l2 = (value_string, lx')"
    | "current ?l \<noteq> EOF" "current ?l \<noteq> 0x22" "current ?l \<noteq> 0x5C" "\<not> current ?l \<le> 0x1F" "current ?l \<le> 0x7F"
      "scan_string_loop (add (current ?l) ?l) = (value_string, lx')"
    | rs l2 where "current ?l \<noteq> EOF" "current ?l \<noteq> 0x22" "current ?l \<noteq> 0x5C" "\<not> current ?l \<le> 0x1F" "\<not> current ?l \<le> 0x7F"
      "utf8_ranges (current ?l) = Some rs" "next_byte_in_range rs ?l = (True, l2)" "scan_string_loop l2 = (value_string, lx')"
    using "1.prems"(1) by (subst (asm) scan_string_loop.simps) (auto simp: Let_def split: if_splits prod.splits option.splits)
  then show ?case
  proof cases
    case 1
    then show ?thesis using "1.prems"(2) by simp
  next
    case 2
    then show ?thesis using IH(1) [of True l2] scan_escape_valid [OF 2(3)] app by auto
  next
    case 3
    have "valid_utf8 [char_of (current ?l)]" using 3 by (intro valid_utf8_ascii) (simp add: nat_char_of)
    then show ?thesis using IH(2) 3 app by simp
  next
    case 4
    then show ?thesis using IH(3) [of rs True l2] next_byte_in_range_valid [OF 4(6,7)] app by auto
  qed
qed

lemma scan_string_valid: "scan_string lx = (value_string, lx') \<Longrightarrow> valid_utf8 (token_buffer lx')"
  using scan_string_loop_valid [of "reset_token lx" lx'] by (simp add: scan_string_def reset_token_def)

section \<open>Where a lexer stands\<close>

text \<open>The lexer has been started and \<open>s\<close> is what it reads next.\<close>

definition lex_at :: "lexer \<Rightarrow> string \<Rightarrow> bool" where
  "lex_at lx s \<longleftrightarrow> pending lx = s \<and> chars_read_total lx > 0 \<and>
     (next_unget lx \<longrightarrow> (if current lx = EOF then ia lx = [] else 0 \<le> current lx \<and> current lx < 256))"

lemma of_char_not_EOF [simp]: "(of_char c :: int) \<noteq> EOF"
proof -
  have "0 \<le> int (of_char c)" by simp
  then show ?thesis unfolding of_char_int EOF_def by linarith
qed

lemma get_char:
  assumes "lex_at lx (c # s)"
  shows "lex_at (get lx) s" and "current (get lx) = of_char c"
proof -
  have "lex_at (get lx) s \<and> current (get lx) = of_char c"
  proof (cases "next_unget lx \<and> current lx \<noteq> EOF")
    case True
    then have e: "char_of (current lx) = c" "ia lx = s" "0 \<le> current lx" "current lx < 256"
      using assms by (auto simp: lex_at_def pending_def)
    have "current lx = of_char (char_of (current lx) :: char)" using e(3,4) by (simp only: of_char_of) simp
    then show ?thesis using True e by (simp add: get_def Let_def lex_at_def pending_def)
  next
    case False
    then have "ia lx = c # s" "\<not> next_unget lx" using assms by (auto simp: lex_at_def pending_def)
    then show ?thesis by (simp add: get_def Let_def lex_at_def pending_def)
  qed
  then show "lex_at (get lx) s" and "current (get lx) = of_char c" by blast+
qed

lemma get_end:
  assumes "lex_at lx []"
  shows "lex_at (get lx) []" and "current (get lx) = EOF"
proof -
  have e: "ia lx = []" "next_unget lx \<Longrightarrow> current lx = EOF"
    using assms by (auto simp: lex_at_def pending_def split: if_splits)
  then show "lex_at (get lx) []" and "current (get lx) = EOF"
    by (cases "next_unget lx"; simp add: get_def Let_def lex_at_def pending_def)+
qed

lemma unget_get: "lex_at lx s \<Longrightarrow> lex_at (unget (get lx)) s"
proof -
  assume l: "lex_at lx s"
  then have "0 < chars_read_total lx" by (simp add: lex_at_def)
  then have n: "0 < chars_read_total (get lx) - 1" by (auto simp: get_def Let_def split: list.split)
  show ?thesis
  proof (cases s)
    case Nil
    then show ?thesis using get_end [of lx] l n by (auto simp: lex_at_def unget_def pending_def)
  next
    case (Cons c s')
    have "0 \<le> int (of_char c)" "int (of_char c) < 256" using byte_lt [of c] by simp_all
    then show ?thesis
      using get_char [of lx c s'] l Cons n by (auto simp: lex_at_def unget_def pending_def of_char_int [symmetric])
  qed
qed

lemma lex_at_more [simp]:
  "lex_at (add c lx) s = lex_at lx s" "lex_at (reset_token lx) s = lex_at lx s"
  "lex_at (lx\<lparr>v_integer := i\<rparr>) s = lex_at lx s" "lex_at (lx\<lparr>v_unsigned := i\<rparr>) s = lex_at lx s"
  by (simp_all add: lex_at_def add_def reset_token_def pending_def)

lemma lex_at_adds [simp]: "lex_at (fold add bs lx) s = lex_at lx s"
  by (induction bs arbitrary: lx) simp_all

section \<open>Scanning a printed string\<close>

lemma bytes_in_range_read:
  "list_all2 in_range bs rs \<Longrightarrow> lex_at lx (bs @ s) \<Longrightarrow>
    \<exists>lx'. bytes_in_range rs lx = (True, lx') \<and> lex_at lx' s \<and> token_buffer lx' = token_buffer lx @ bs"
proof (induction rs arbitrary: bs lx)
  case (Cons r rs)
  obtain b bs' where bs: "bs = b # bs'" "in_range b r" "list_all2 in_range bs' rs" using Cons.prems(1) by (cases bs) auto
  have g: "lex_at (get lx) (bs' @ s)" "current (get lx) = of_char b" using get_char [of lx b] Cons.prems(2) bs by simp_all
  obtain lx' where "bytes_in_range rs (add (of_char b) (get lx)) = (True, lx')" "lex_at lx' s"
    "token_buffer lx' = token_buffer (add (of_char b) (get lx)) @ bs'"
    using Cons.IH [OF bs(3), of "add (of_char b) (get lx)"] g(1) by auto
  then show ?case using bs g(2) by (cases r) (auto simp: in_range_def Let_def)
qed simp

lemma hex_digit: "n < 16 \<Longrightarrow> (of_char (hex n) :: int) = (if n < 10 then 0x30 + int n else 0x57 + int n)"
  by (auto simp: hex_def of_char_int)

lemma codepoint_from_hex:
  assumes "n < 16" and "lex_at lx (hex n # s)"
  shows "\<exists>lx'. lex_at lx' s \<and> token_buffer lx' = token_buffer lx \<and>
    codepoint_from (f # fs) cp lx = codepoint_from fs (cp + int n * 2 ^ f) lx'"
  using get_char [OF assms(2)] hex_digit [OF assms(1)] assms(1)
  by (intro exI [of _ "get lx"]) (auto simp: Let_def)

lemma hex_0: "hex 0 = CHR ''0''"
  by code_simp

lemma scan_unicode_control:
  assumes "n < 32" and "lex_at lx ([CHR ''0'', CHR ''0'', hex (n div 16), hex (n mod 16)] @ s)"
  shows "\<exists>lx'. scan_unicode lx = (True, lx') \<and> lex_at lx' s \<and> token_buffer lx' = token_buffer lx @ [char_of n]"
proof -
  have n: "n div 16 < 16" using assms(1) by linarith
  obtain l1 where l1: "lex_at l1 ([CHR ''0'', hex (n div 16), hex (n mod 16)] @ s)" "token_buffer l1 = token_buffer lx"
    "get_codepoint lx = codepoint_from [8, 4, 0] 0 l1"
    using codepoint_from_hex [of 0 lx _ 12 "[8, 4, 0]" 0] assms(2)
    by (auto simp: hex_0 get_codepoint_def simp del: codepoint_from.simps)
  obtain l2 where l2: "lex_at l2 ([hex (n div 16), hex (n mod 16)] @ s)" "token_buffer l2 = token_buffer l1"
    "codepoint_from [8, 4, 0] 0 l1 = codepoint_from [4, 0] 0 l2"
    using codepoint_from_hex [of 0 l1 _ 8 "[4, 0]" 0] l1(1) by (auto simp: hex_0 simp del: codepoint_from.simps)
  obtain l3 where l3: "lex_at l3 (hex (n mod 16) # s)" "token_buffer l3 = token_buffer l2"
    "codepoint_from [4, 0] 0 l2 = codepoint_from [0] (int (n div 16) * 16) l3"
    using codepoint_from_hex [of "n div 16" l2 "hex (n mod 16) # s" 4 "[0]" 0] l2(1) n
    by (auto simp del: codepoint_from.simps)
  obtain l4 where l4: "lex_at l4 s" "token_buffer l4 = token_buffer l3"
    "codepoint_from [0] (int (n div 16) * 16) l3 = (int (n div 16) * 16 + int (n mod 16), l4)"
    using codepoint_from_hex [of "n mod 16" l3 s 0 "[]" "int (n div 16) * 16"] l3(1) by auto
  have "int (n div 16) * 16 + int (n mod 16) = int n"
    using div_mult_mod_eq [of n 16] by (metis of_nat_add of_nat_mult of_nat_numeral)
  then have "get_codepoint lx = (int n, l4)"
    using l1(3) l2(3) l3(3) l4(3) by (simp del: codepoint_from.simps)
  moreover have "char_of (int n) = (char_of n :: char)" by (simp add: char_of_def bit_of_nat_iff_bit)
  moreover have "token_buffer l4 = token_buffer lx" using l1(2) l2(2) l3(2) l4(2) by simp
  ultimately show ?thesis
    using l4(1) assms(1) by (auto simp: scan_unicode_def utf8_bytes_def)
qed

text \<open>One turn of the loop, for each kind of character.\<close>

lemma scan_loop_end:
  "lex_at lx (CHR 0x22 # s) \<Longrightarrow>
    \<exists>lx'. scan_string_loop lx = (value_string, lx') \<and> lex_at lx' s \<and> token_buffer lx' = token_buffer lx"
  using get_char [of lx "CHR 0x22" s] by (subst scan_string_loop.simps) (auto simp: EOF_def)

lemma scan_loop_plain:
  assumes "lex_at lx (c # s)" and "0x20 \<le> (of_char c :: int)" "(of_char c :: int) \<le> 0x7F" "c \<noteq> CHR 0x22" "c \<noteq> CHR 0x5C"
  shows "\<exists>lx'. scan_string_loop lx = scan_string_loop lx' \<and> lex_at lx' s \<and> token_buffer lx' = token_buffer lx @ [c]"
proof -
  have "(of_char c :: int) \<noteq> 0x22" "(of_char c :: int) \<noteq> 0x5C"
    using assms(4,5) of_char_special(6,7) [of c] unfolding of_char_int by linarith+
  then have "scan_string_loop lx = scan_string_loop (add (of_char c) (get lx))"
    using get_char(2) [OF assms(1)] assms(2,3) by (subst scan_string_loop.simps) (simp add: Let_def)
  then show ?thesis using get_char(1) [OF assms(1)] by (intro exI [of _ "add (of_char c) (get lx)"]) simp
qed

lemma scan_loop_escape:
  assumes "lex_at lx (CHR 0x5C # e # s)" and "scan_escape (get (get lx)) = (True, lx')"
  shows "scan_string_loop lx = scan_string_loop lx'"
proof -
  have "current (get lx) = 0x5C" using get_char(2) [OF assms(1)] by simp
  then show ?thesis using assms(2) by (subst scan_string_loop.simps) (simp add: Let_def EOF_def)
qed

lemma scan_loop_seq:
  assumes "utf8_seq w" and "lex_at lx (w @ s)"
  shows "\<exists>lx'. scan_string_loop lx = scan_string_loop lx' \<and> lex_at lx' s \<and> token_buffer lx' = token_buffer lx @ w"
proof -
  obtain c bs rs where w: "w = c # bs" "(of_char c :: nat) \<ge> 128" "utf8_ranges (of_char c) = Some rs" "list_all2 in_range bs rs"
    using assms(1) by (auto simp: utf8_seq_def split: list.splits option.splits)
  let ?l = "add (of_char c) (get lx)"
  have g: "lex_at (get lx) (bs @ s)" "current (get lx) = of_char c" using get_char [of lx c] assms(2) w(1) by simp_all
  obtain lx' where lx': "bytes_in_range rs ?l = (True, lx')" "lex_at lx' s" "token_buffer lx' = token_buffer ?l @ bs"
    using bytes_in_range_read [OF w(4), of ?l s] g(1) by auto
  have "128 \<le> (of_char c :: int)" using w(2) unfolding of_char_int by linarith
  then have "scan_string_loop lx = scan_string_loop lx'"
    using g(2) w(3) lx'(1) by (subst scan_string_loop.simps) (simp add: Let_def next_byte_in_range_def)
  then show ?thesis using lx' w(1) by auto
qed

lemma scan_loop_esc_char:
  assumes "lex_at lx (esc_char c @ s)" and "(of_char c :: nat) < 128"
  shows "\<exists>lx'. scan_string_loop lx = scan_string_loop lx' \<and> lex_at lx' s \<and> token_buffer lx' = token_buffer lx @ [c]"
proof -
  have esc: ?thesis if "esc_char c = [CHR 0x5C, e]"
    "\<And>l. current l = of_char e \<Longrightarrow> scan_escape l = (True, add (of_char c) l)" for e
  proof -
    have l: "lex_at lx (CHR 0x5C # e # s)" using assms(1) that(1) by simp
    note g = get_char [OF l] and h = get_char [OF get_char(1) [OF l]]
    have "scan_escape (get (get lx)) = (True, add (of_char c) (get (get lx)))" using that(2) h(2) .
    then show ?thesis using scan_loop_escape [OF l] h(1) by auto
  qed
  consider "c = CHR 0x08" | "c = CHR 0x09" | "c = CHR 0x0A" | "c = CHR 0x0C" | "c = CHR 0x0D" | "c = CHR 0x22" | "c = CHR 0x5C"
    | "c \<notin> {CHR 0x08, CHR 0x09, CHR 0x0A, CHR 0x0C, CHR 0x0D, CHR 0x22, CHR 0x5C}" "(of_char c :: nat) < 32"
    | "c \<notin> {CHR 0x08, CHR 0x09, CHR 0x0A, CHR 0x0C, CHR 0x0D, CHR 0x22, CHR 0x5C}" "(of_char c :: nat) \<ge> 32" by force
  then show ?thesis
  proof cases
    case 8
    let ?n = "of_char c :: nat"
    have l: "lex_at lx (CHR 0x5C # CHR ''u'' # [CHR ''0'', CHR ''0'', hex (?n div 16), hex (?n mod 16)] @ s)"
      using assms(1) 8 by (simp add: esc_char_def esc_codepoint_def of_char_special)
    note h = get_char [OF get_char(1) [OF l]]
    obtain lx' where "scan_unicode (get (get lx)) = (True, lx')" "lex_at lx' s" "token_buffer lx' = token_buffer lx @ [c]"
      using scan_unicode_control [OF 8(2) h(1)] by auto
    then show ?thesis using scan_loop_escape [OF l, of lx'] h(2) by (auto simp: scan_escape_def)
  next
    case 9
    then have "esc_char c = [c]" by (simp add: esc_char_def esc_codepoint_def of_char_special)
    moreover have "0x20 \<le> (of_char c :: int)" "(of_char c :: int) \<le> 0x7F"
      using 9(2) assms(2) unfolding of_char_int by linarith+
    ultimately show ?thesis using scan_loop_plain [of lx c s] assms(1) 9(1) by simp
  next
    case 1
    show ?thesis by (rule esc [of "CHR ''b''"]) (simp_all add: 1 esc_char_def esc_codepoint_def scan_escape_def)
  next
    case 2
    show ?thesis by (rule esc [of "CHR ''t''"]) (simp_all add: 2 esc_char_def esc_codepoint_def scan_escape_def)
  next
    case 3
    show ?thesis by (rule esc [of "CHR ''n''"]) (simp_all add: 3 esc_char_def esc_codepoint_def scan_escape_def)
  next
    case 4
    show ?thesis by (rule esc [of "CHR ''f''"]) (simp_all add: 4 esc_char_def esc_codepoint_def scan_escape_def)
  next
    case 5
    show ?thesis by (rule esc [of "CHR ''r''"]) (simp_all add: 5 esc_char_def esc_codepoint_def scan_escape_def)
  next
    case 6
    show ?thesis by (rule esc [of "CHR 0x22"]) (simp_all add: 6 esc_char_def esc_codepoint_def scan_escape_def)
  next
    case 7
    show ?thesis by (rule esc [of "CHR 0x5C"]) (simp_all add: 7 esc_char_def esc_codepoint_def scan_escape_def)
  qed
qed

lemma esc_char_high: "(of_char c :: nat) \<ge> 128 \<Longrightarrow> esc_char c = [c]"
  by (simp add: esc_char_def esc_codepoint_high)

lemma utf8_seq_high:
  assumes "utf8_seq w" and "c \<in> set w"
  shows "(of_char c :: nat) \<ge> 128"
proof -
  obtain d bs rs where w: "w = d # bs" "(of_char d :: nat) \<ge> 128" "utf8_ranges (of_char d) = Some rs" "list_all2 in_range bs rs"
    using assms(1) by (auto simp: utf8_seq_def split: list.splits option.splits)
  have "\<forall>r\<in>set rs. 128 \<le> fst r" using w(3) by (auto simp: utf8_ranges_def split: if_splits)
  moreover have "\<forall>b\<in>set bs. \<exists>r\<in>set rs. in_range b r" using w(4) by (induction rule: list_all2_induct) auto
  ultimately have "128 \<le> (of_char b :: int)" if "b \<in> set bs" for b
    using that by (force simp: in_range_def)
  then have "(of_char b :: nat) \<ge> 128" if "b \<in> set bs" for b
    using that unfolding of_char_int by fastforce
  then show ?thesis using w(1,2) assms(2) by auto
qed

lemma esc_utf8_seq: "utf8_seq w \<Longrightarrow> concat (map esc_char w) = w"
proof -
  assume "utf8_seq w"
  then have "map esc_char w = map (\<lambda>c. [c]) w" using utf8_seq_high esc_char_high by (intro map_cong) auto
  from arg_cong [OF this, of concat] show ?thesis by simp
qed

lemma scan_string_loop_printed:
  "valid_utf8 w \<Longrightarrow> lex_at lx (concat (map esc_char w) @ CHR 0x22 # s) \<Longrightarrow>
    \<exists>lx'. scan_string_loop lx = (value_string, lx') \<and> lex_at lx' s \<and> token_buffer lx' = token_buffer lx @ w"
proof (induction w arbitrary: lx rule: length_induct)
  case (1 w)
  show ?case
  proof (cases w)
    case Nil
    then show ?thesis using scan_loop_end 1(3) by auto
  next
    case (Cons c cs)
    consider "(of_char c :: nat) < 128" "valid_utf8 cs"
      | bs s' where "cs = bs @ s'" "utf8_seq (c # bs)" "valid_utf8 s'"
      using valid_utf8_cases 1(2) Cons by blast
    then show ?thesis
    proof cases
      case ascii: 1
      obtain l1 where l1: "scan_string_loop lx = scan_string_loop l1" "lex_at l1 (concat (map esc_char cs) @ CHR 0x22 # s)"
        "token_buffer l1 = token_buffer lx @ [c]"
        using scan_loop_esc_char [of lx c "concat (map esc_char cs) @ CHR 0x22 # s"] 1(3) Cons ascii(1) by auto
      then show ?thesis using 1(1) [rule_format, of cs l1] Cons ascii(2) by auto
    next
      case 2
      have "concat (map esc_char w) = (c # bs) @ concat (map esc_char s')"
        using esc_utf8_seq [OF 2(2)] by (simp add: Cons 2(1) flip: append_assoc)
      then obtain l1 where l1: "scan_string_loop lx = scan_string_loop l1" "lex_at l1 (concat (map esc_char s') @ CHR 0x22 # s)"
        "token_buffer l1 = token_buffer lx @ (c # bs)"
        using scan_loop_seq [OF 2(2), of lx "concat (map esc_char s') @ CHR 0x22 # s"] 1(3) by auto
      then show ?thesis using 1(1) [rule_format, of s' l1] Cons 2(1,3) by auto
    qed
  qed
qed

lemma scan_string_printed:
  assumes "dump_escaped w = Inr out" and "lex_at lx (out @ CHR 0x22 # s)"
  shows "\<exists>lx'. scan_string lx = (value_string, lx') \<and> lex_at lx' s \<and> token_buffer lx' = w"
  using scan_string_loop_printed [of w "reset_token lx" s] dump_escaped_eq [OF assms(1)] assms
  by (simp add: scan_string_def valid_utf8_def) (simp add: reset_token_def)

end
