(* ===== verification/Json_Grammar.thy ===== *)
theory Json_Grammar
  imports Json_Parser
begin

text \<open>
  What the parser of \<^verbatim>\<open>thirdparty/json.hpp\<close> accepts.  The first part relates the builder's pointers to a
  value with a hole (a list of frames); the second gives the grammar of JSON over the tokens of the
  lexer as inductive relations and shows that the loop with its explicit stack computes exactly it.
\<close>

section \<open>Values with a hole\<close>

text \<open>The containers around the place of the next value, the innermost first: the elements before the
  hole, or the members and the key of the hole.\<close>

datatype frame = InArray "json list" | InObject "(string \<times> json) list" string

fun plug1 :: "frame \<Rightarrow> json \<Rightarrow> json" where
  "plug1 (InArray vs) j = JArray (vs @ [j])"
| "plug1 (InObject m k) j = JObject (obj_put k j m)"

fun plug :: "frame list \<Rightarrow> json \<Rightarrow> json" where
  "plug [] j = j"
| "plug (f # fs) j = plug fs (plug1 f j)"

fun step_of :: "frame \<Rightarrow> dom_step" where
  "step_of (InArray vs) = Idx (length vs)"
| "step_of (InObject m k) = Key k"

fun frame_path :: "frame list \<Rightarrow> dom_path" where
  "frame_path [] = []"
| "frame_path (f # fs) = frame_path fs @ [step_of f]"

fun opens :: "frame list \<Rightarrow> dom_path list" where
  "opens [] = [[]]"
| "opens (f # fs) = frame_path (f # fs) # opens fs"

fun frame_ok :: "frame \<Rightarrow> bool" where
  "frame_ok (InArray _) = True"
| "frame_ok (InObject m _) = sorted_wrt str_less (map fst m)"

abbreviation frames_ok :: "frame list \<Rightarrow> bool" where
  "frames_ok \<equiv> list_all frame_ok"

lemma sorted_keys_distinct: "sorted_wrt str_less ks \<Longrightarrow> distinct ks"
  by (induction ks) auto

lemma replace_put:
  "sorted_wrt str_less (map fst m) \<Longrightarrow>
   map (\<lambda>(k', v). (k', if k' = k then w else v)) (obj_put k j m) = obj_put k w m"
proof (induction k j m rule: obj_put.induct)
  case (2 k v k' v' m)
  have "map (\<lambda>(k', v). (k', if k' = k then w else v)) m = m" if "k = k' \<or> str_less k k'"
    using that 2(2) by (intro map_idI) (auto dest: str_less_trans split: prod.splits)
  then show ?case using 2 by auto
qed simp

lemma sub_at_plug: "frames_ok fs \<Longrightarrow> sub_at (frame_path fs @ p) (plug fs c) = sub_at p c"
proof (induction fs arbitrary: p c)
  case (Cons f fs)
  then show ?case by (cases f) (simp_all add: obj_get_put)
qed simp

lemma put_at_plug: "frames_ok fs \<Longrightarrow> put_at (frame_path fs @ p) w (plug fs c) = plug fs (put_at p w c)"
proof (induction fs arbitrary: p c)
  case (Cons f fs)
  have "map (\<lambda>(k', v). (k', if k' = k then put_at p w v else v)) (obj_put k c m) = obj_put k (put_at p w c) m"
    if "f = InObject m k" for m k
  proof -
    have s: "sorted_wrt str_less (map fst m)" using Cons.prems that by simp
    have "v = c" if a: "(k, v) \<in> set (obj_put k c m)" for v
    proof -
      have "distinct (map fst (obj_put k c m))"
        using obj_put_sorted [OF s, of k c] by (rule sorted_keys_distinct)
      then show "v = c" using a obj_get_put [of k k c m] by (simp add: obj_get_def map_of_eq_Some_iff)
    qed
    from this [THEN arg_cong, of _ "put_at p w"]
    have "map (\<lambda>(k', v). (k', if k' = k then put_at p w v else v)) (obj_put k c m)
        = map (\<lambda>(k', v). (k', if k' = k then put_at p w c else v)) (obj_put k c m)"
      by (intro map_cong) auto
    then show ?thesis using replace_put [OF s, of k "put_at p w c" c] by simp
  qed
  then show ?case using Cons by (cases f) simp_all
qed simp

section \<open>The builder on values with a hole\<close>

definition slot_ok :: "dom \<Rightarrow> frame list \<Rightarrow> bool" where
  "slot_ok d gs \<longleftrightarrow> frames_ok gs \<and>
     (case gs of
        [] \<Rightarrow> ref_stack d = []
      | InArray vs # fs \<Rightarrow> root d = plug fs (JArray vs) \<and> ref_stack d = opens fs
      | InObject m k # fs \<Rightarrow> root d = plug fs (JObject (obj_touch k m)) \<and> ref_stack d = opens fs \<and>
          object_element d = Some (frame_path gs))"

definition filled :: "dom \<Rightarrow> frame list \<Rightarrow> json \<Rightarrow> bool" where
  "filled d gs v \<longleftrightarrow> frames_ok gs \<and> root d = plug gs v \<and>
     ref_stack d = (case gs of [] \<Rightarrow> [] | f # fs \<Rightarrow> opens fs)"

definition open_at :: "dom \<Rightarrow> json \<Rightarrow> frame list \<Rightarrow> bool" where
  "open_at d c gs \<longleftrightarrow> frames_ok gs \<and> root d = plug gs c \<and> ref_stack d = opens gs"

lemma opens_Cons: "\<exists>ps. opens fs = frame_path fs # ps"
  by (cases fs) auto

lemma obj_get_touch: "obj_get k (obj_touch k m) \<noteq> None"
  by (simp add: obj_touch_def obj_get_put split: option.split)

lemma obj_put_id: "sorted_wrt str_less (map fst m) \<Longrightarrow> obj_get k m = Some v \<Longrightarrow> obj_put k v m = m"
proof (induction k v m rule: obj_put.induct)
  case (2 k v k' v' m)
  have False if "k \<noteq> k'" "str_less k k'"
  proof -
    have "(k, v) \<in> set m" using 2(3) that(1) by (auto simp: obj_get_def dest: map_of_SomeD)
    then have "str_less k' k" using 2(2) by auto
    then show False using str_less_trans [OF _ that(2)] by fastforce
  qed
  moreover have "obj_put k v m = m" if "k \<noteq> k'" "\<not> str_less k k'"
    using 2 that by (simp add: obj_get_def)
  ultimately show ?case using 2(3) by (auto simp: obj_get_def)
qed (simp add: obj_get_def)

lemma obj_touch_is_put: "sorted_wrt str_less (map fst m) \<Longrightarrow> \<exists>w. obj_touch k m = obj_put k w m"
  by (auto simp: obj_touch_def obj_put_id [symmetric] split: option.split) (metis obj_put_id)

lemma put_key:
  assumes "sorted_wrt str_less (map fst m)"
  shows "map (\<lambda>(k', v). (k', if k' = k then w else v)) (obj_touch k m) = obj_put k w m"
proof -
  obtain u where "obj_touch k m = obj_put k u m" using obj_touch_is_put [OF assms] by blast
  then show ?thesis by (simp add: replace_put [OF assms])
qed

lemma handle_value_slot:
  assumes "slot_ok d gs"
  shows "\<exists>d'. handle_value v d = Inr (frame_path gs, d') \<and> filled d' gs v"
proof (cases gs)
  case Nil
  then show ?thesis using assms by (simp add: slot_ok_def filled_def handle_value_def)
next
  case (Cons f fs)
  obtain ps where ps: "opens fs = frame_path fs # ps" using opens_Cons by blast
  have ok: "frames_ok fs" "frame_ok f" using assms Cons by (simp_all add: slot_ok_def)
  note sub = sub_at_plug [OF ok(1), of "[]", simplified] and put = put_at_plug [OF ok(1), of "[]", simplified]
  show ?thesis
  proof (cases f)
    case (InArray vs)
    then show ?thesis
      using assms Cons ps ok by (simp add: slot_ok_def filled_def handle_value_def sub put)
  next
    case (InObject m k)
    obtain w where w: "obj_get k (obj_touch k m) = Some w" using obj_get_touch by fastforce
    have s: "sorted_wrt str_less (map fst m)" using ok(2) InObject by simp
    show ?thesis
      using assms Cons ps ok InObject w
      by (simp add: slot_ok_def filled_def handle_value_def sub sub_at_plug [OF ok(1)] put_at_plug [OF ok(1)]
          put_key [OF s, of k v] cong: if_cong)
  qed
qed

lemma dom_scalar_slot: "slot_ok d gs \<Longrightarrow> \<exists>d'. dom_scalar v d = Inr d' \<and> filled d' gs v"
  using handle_value_slot [of d gs v] by (auto simp: dom_scalar_def rbind_def)

lemma dom_start_slot: "slot_ok d gs \<Longrightarrow> \<exists>d'. dom_start v d = Inr d' \<and> open_at d' v gs"
  using handle_value_slot [of d gs v]
  by (auto simp: dom_start_def rbind_def filled_def open_at_def split: list.split)

lemma dom_end_open: "open_at d c gs \<Longrightarrow> filled (dom_end d) gs c"
  by (cases gs) (auto simp: open_at_def filled_def dom_end_def)

lemma open_array_slot: "open_at d (JArray vs) gs \<longleftrightarrow> slot_ok d (InArray vs # gs)"
  by (simp add: open_at_def slot_ok_def)

lemma filled_array: "filled d (InArray vs # gs) v \<longleftrightarrow> open_at d (JArray (vs @ [v])) gs"
  by (simp add: open_at_def filled_def)

lemma filled_object:
  "filled d (InObject m k # gs) v \<Longrightarrow> open_at d (JObject (obj_put k v m)) gs"
  by (simp add: open_at_def filled_def)

lemma dom_key_open:
  assumes "open_at d (JObject m) gs" and "sorted_wrt str_less (map fst m)"
  shows "\<exists>d'. dom_key k d = Inr d' \<and> slot_ok d' (InObject m k # gs)"
proof -
  obtain ps where ps: "opens gs = frame_path gs # ps" using opens_Cons by blast
  have ok: "frames_ok gs" using assms(1) by (simp add: open_at_def)
  show ?thesis
    using assms ps
    by (simp add: dom_key_def open_at_def slot_ok_def sub_at_plug [OF ok, of "[]", simplified]
        put_at_plug [OF ok, of "[]", simplified])
qed

section \<open>The grammar\<close>

fun scalar_of :: "token_type \<Rightarrow> lexer \<Rightarrow> json option" where
  "scalar_of literal_true lx = Some (JBool True)"
| "scalar_of literal_false lx = Some (JBool False)"
| "scalar_of literal_null lx = Some JNull"
| "scalar_of value_string lx = Some (JString (token_buffer lx))"
| "scalar_of value_unsigned lx = Some (JInt (v_unsigned lx))"
| "scalar_of value_integer lx = Some (JInt (v_integer lx))"
| "scalar_of value_float lx = map_option JFloat (v_float lx)"
| "scalar_of _ lx = None"

definition put_all :: "(string \<times> json) list \<Rightarrow> (string \<times> json) list \<Rightarrow> (string \<times> json) list" where
  "put_all ms m = fold (\<lambda>(k, v). obj_put k v) ms m"

text \<open>\<open>json_value sd t lx j lx'\<close>: the token \<open>t\<close>, just read by \<open>lx\<close>, begins a text of the value \<open>j\<close>, whose
  last token leaves the lexer \<open>lx'\<close>.  The elements and the members are read up to and including the
  closing bracket.\<close>

inductive json_value :: "(string \<Rightarrow> rat option) \<Rightarrow> token_type \<Rightarrow> lexer \<Rightarrow> json \<Rightarrow> lexer \<Rightarrow> bool"
  and json_elems :: "(string \<Rightarrow> rat option) \<Rightarrow> token_type \<Rightarrow> lexer \<Rightarrow> json list \<Rightarrow> lexer \<Rightarrow> bool"
  and json_members :: "(string \<Rightarrow> rat option) \<Rightarrow> token_type \<Rightarrow> lexer \<Rightarrow> (string \<times> json) list \<Rightarrow> lexer \<Rightarrow> bool"
  for sd where
  scalar: "scalar_of t lx = Some j \<Longrightarrow> json_value sd t lx j lx"
| empty_array: "scan sd lx = (end_array, lx') \<Longrightarrow> json_value sd begin_array lx (JArray []) lx'"
| elements: "scan sd lx = (t, lx1) \<Longrightarrow> json_elems sd t lx1 vs lx' \<Longrightarrow> json_value sd begin_array lx (JArray vs) lx'"
| empty_object: "scan sd lx = (end_object, lx') \<Longrightarrow> json_value sd begin_object lx (JObject []) lx'"
| members: "scan sd lx = (t, lx1) \<Longrightarrow> json_members sd t lx1 ms lx' \<Longrightarrow>
    json_value sd begin_object lx (JObject (put_all ms [])) lx'"
| last_elem: "json_value sd t lx v lx1 \<Longrightarrow> scan sd lx1 = (end_array, lx') \<Longrightarrow> json_elems sd t lx [v] lx'"
| more_elems: "json_value sd t lx v lx1 \<Longrightarrow> scan sd lx1 = (value_separator, lx2) \<Longrightarrow> scan sd lx2 = (t', lx3) \<Longrightarrow>
    json_elems sd t' lx3 vs lx' \<Longrightarrow> json_elems sd t lx (v # vs) lx'"
| last_member: "scan sd lx = (name_separator, lx1) \<Longrightarrow> scan sd lx1 = (t, lx2) \<Longrightarrow> json_value sd t lx2 v lx3 \<Longrightarrow>
    scan sd lx3 = (end_object, lx') \<Longrightarrow> json_members sd value_string lx [(token_buffer lx, v)] lx'"
| more_members: "scan sd lx = (name_separator, lx1) \<Longrightarrow> scan sd lx1 = (t, lx2) \<Longrightarrow> json_value sd t lx2 v lx3 \<Longrightarrow>
    scan sd lx3 = (value_separator, lx4) \<Longrightarrow> scan sd lx4 = (t', lx5) \<Longrightarrow> json_members sd t' lx5 ms lx' \<Longrightarrow>
    json_members sd value_string lx ((token_buffer lx, v) # ms) lx'"

inductive_cases json_value_endE [elim!]: "json_value sd end_array lx j lx'" "json_value sd end_object lx j lx'"
inductive_cases json_elems_endE [elim!]: "json_elems sd end_array lx vs lx'"
inductive_cases json_membersE: "json_members sd t lx ms lx'"

lemma json_elems_start: "json_elems sd t lx vs lx' \<Longrightarrow> t \<noteq> end_array"
  by auto

lemma json_members_start: "json_members sd t lx ms lx' \<Longrightarrow> t = value_string"
  by (erule json_membersE) auto

lemma json_value_avail:
  "json_value sd t lx j lx' \<Longrightarrow> avail lx' \<le> avail lx"
  "json_elems sd t lx vs lx' \<Longrightarrow> avail lx' \<le> avail lx"
  "json_members sd t lx ms lx' \<Longrightarrow> avail lx' \<le> avail lx"
proof (induction rule: json_value_json_elems_json_members.inducts)
qed (fastforce dest: avail_scan(1))+

section \<open>The loop follows the grammar\<close>

text \<open>What the loop does after a complete value.\<close>

definition sax_rest :: "(string \<Rightarrow> rat option) \<Rightarrow> lexer \<Rightarrow> bool list \<Rightarrow> dom \<Rightarrow> (lexer \<times> dom) result" where
  "sax_rest sd lx st d =
     (if st = [] then Inr (lx, d)
      else rbind (sax_after sd lx st d) (\<lambda>(skip, t, lx, st, d). sax_loop sd skip t lx st d))"

lemma sax_loop_skip: "sax_loop sd True t lx st d = sax_rest sd lx st d"
  by (subst sax_loop.simps) (simp add: sax_rest_def rbind_def)

lemma sax_loop_value:
  "sax_loop sd False t lx st d =
     rbind (sax_value sd t lx st d) (\<lambda>(complete, t, lx, st, d).
       if complete then sax_rest sd lx st d else sax_loop sd False t lx st d)"
  by (subst sax_loop.simps) (auto simp: sax_rest_def rbind_def split: sum.split prod.split)

definition sax_members :: "(string \<Rightarrow> rat option) \<Rightarrow> token_type \<Rightarrow> lexer \<Rightarrow> bool list \<Rightarrow> dom \<Rightarrow> (lexer \<times> dom) result" where
  "sax_members sd t lx st d =
     rbind (sax_member sd t lx d) (\<lambda>(t, lx, d). sax_loop sd False t lx (False # st) d)"

lemma sax_loop_scalar:
  assumes "scalar_of t lx = Some j" and "slot_ok d gs"
  shows "\<exists>d'. filled d' gs j \<and> sax_loop sd False t lx st d = sax_rest sd lx st d'"
proof -
  obtain d' where d': "dom_scalar j d = Inr d'" "filled d' gs j" using dom_scalar_slot [OF assms(2)] by blast
  have "sax_value sd t lx st d = Inr (True, t, lx, st, d')"
    using assms(1) d'(1) by (cases t) (auto simp: sax_value_def rbind_def)
  then show ?thesis using d'(2) by (subst sax_loop_value) (auto simp: rbind_def)
qed

lemma sax_loop_array:
  assumes "slot_ok d gs" and "scan sd lx = (t, lx1)"
  shows "\<exists>d1. open_at d1 (JArray []) gs \<and> sax_loop sd False begin_array lx st d =
    (if t = end_array then sax_rest sd lx1 st (dom_end d1) else sax_loop sd False t lx1 (True # st) d1)"
proof -
  obtain d1 where "dom_start (JArray []) d = Inr d1" "open_at d1 (JArray []) gs"
    using dom_start_slot [OF assms(1)] by blast
  then show ?thesis by (subst sax_loop_value) (auto simp: sax_value_def rbind_def assms(2))
qed

lemma sax_loop_object:
  assumes "slot_ok d gs" and "scan sd lx = (t, lx1)"
  shows "\<exists>d1. open_at d1 (JObject []) gs \<and> sax_loop sd False begin_object lx st d =
    (if t = end_object then sax_rest sd lx1 st (dom_end d1) else sax_members sd t lx1 st d1)"
proof -
  obtain d1 where "dom_start (JObject []) d = Inr d1" "open_at d1 (JObject []) gs"
    using dom_start_slot [OF assms(1)] by blast
  then show ?thesis
    by (subst sax_loop_value) (auto simp: sax_value_def sax_members_def rbind_def assms(2) split: sum.split)
qed

lemma sax_rest_array:
  assumes "scan sd lx = (t, lx1)"
  shows "sax_rest sd lx (True # st) d =
    (if t = value_separator then (let (t, lx2) = scan sd lx1 in sax_loop sd False t lx2 (True # st) d)
     else if t = end_array then sax_rest sd lx1 st (dom_end d) else Inl JsonParseError)"
  unfolding sax_rest_def [of sd lx]
  by (simp add: sax_after_def assms rbind_def Let_def sax_loop_skip split: prod.split)

lemma sax_rest_object:
  assumes "scan sd lx = (t, lx1)"
  shows "sax_rest sd lx (False # st) d =
    (if t = value_separator then (let (t, lx2) = scan sd lx1 in sax_members sd t lx2 st d)
     else if t = end_object then sax_rest sd lx1 st (dom_end d) else Inl JsonParseError)"
  unfolding sax_rest_def [of sd lx]
  by (auto simp: sax_after_def sax_members_def assms rbind_def Let_def sax_loop_skip split: prod.split sum.split)

lemma sax_members_key:
  assumes "open_at d (JObject m) gs" and "sorted_wrt str_less (map fst m)"
    and "scan sd lx = (t1, lx1)" and "scan sd lx1 = (t, lx2)"
  shows "\<exists>d'. slot_ok d' (InObject m (token_buffer lx) # gs) \<and> sax_members sd value_string lx st d =
    (if t1 = name_separator then sax_loop sd False t lx2 (False # st) d' else Inl JsonParseError)"
proof -
  obtain d' where "dom_key (token_buffer lx) d = Inr d'" "slot_ok d' (InObject m (token_buffer lx) # gs)"
    using dom_key_open [OF assms(1,2)] by blast
  then show ?thesis by (auto simp: sax_members_def sax_member_def assms(3,4) rbind_def)
qed

lemma put_all_Cons [simp]: "put_all ((k, v) # ms) m = put_all ms (obj_put k v m)" "put_all [] m = m"
  by (simp_all add: put_all_def)

lemma grammar_complete:
  "json_value sd t lx j lx' \<Longrightarrow> slot_ok d gs \<Longrightarrow>
    \<exists>d'. filled d' gs j \<and> sax_loop sd False t lx st d = sax_rest sd lx' st d'"
  "json_elems sd t lx vs lx' \<Longrightarrow> open_at d (JArray us) gs \<Longrightarrow>
    \<exists>d'. filled d' gs (JArray (us @ vs)) \<and> sax_loop sd False t lx (True # st) d = sax_rest sd lx' st d'"
  "json_members sd t lx ms lx' \<Longrightarrow> open_at d (JObject m) gs \<Longrightarrow> sorted_wrt str_less (map fst m) \<Longrightarrow>
    \<exists>d'. filled d' gs (JObject (put_all ms m)) \<and> sax_members sd t lx st d = sax_rest sd lx' st d'"
proof (induction arbitrary: d gs st and d gs st us and d gs st m
    rule: json_value_json_elems_json_members.inducts)
  case (scalar t lx j)
  then show ?case by (rule sax_loop_scalar)
next
  case (empty_array lx lx')
  then show ?case using sax_loop_array [of d gs sd lx end_array lx' st] dom_end_open by auto
next
  case (elements lx t lx1 vs lx')
  obtain d1 where d1: "open_at d1 (JArray []) gs"
    "sax_loop sd False begin_array lx st d = sax_loop sd False t lx1 (True # st) d1"
    using sax_loop_array [OF elements(4) elements(1), of st] json_elems_start [OF elements(2)] by auto
  show ?case using elements(3) [OF d1(1), of st] d1(2) by simp
next
  case (empty_object lx lx')
  then show ?case using sax_loop_object [of d gs sd lx end_object lx' st] dom_end_open by auto
next
  case (members lx t lx1 ms lx')
  obtain d1 where d1: "open_at d1 (JObject []) gs"
    "sax_loop sd False begin_object lx st d = sax_members sd t lx1 st d1"
    using sax_loop_object [OF members(4) members(1), of st] json_members_start [OF members(2)] by auto
  show ?case using members(3) [OF d1(1), of st] d1(2) by simp
next
  case (last_elem t lx v lx1 lx')
  from last_elem(2) [of d "InArray us # gs" "True # st"] last_elem(4)
  obtain d' where "open_at d' (JArray (us @ [v])) gs"
    "sax_loop sd False t lx (True # st) d = sax_rest sd lx1 (True # st) d'"
    by (auto simp: open_array_slot filled_array)
  then show ?case using dom_end_open by (auto simp: sax_rest_array [OF last_elem(3)])
next
  case (more_elems t lx v lx1 lx2 t' lx3 vs lx')
  from more_elems(2) [of d "InArray us # gs" "True # st"] more_elems(7)
  obtain d' where d': "open_at d' (JArray (us @ [v])) gs"
    "sax_loop sd False t lx (True # st) d = sax_rest sd lx1 (True # st) d'"
    by (auto simp: open_array_slot filled_array)
  show ?case
    using more_elems(6) [OF d'(1), of st] d'(2) more_elems(4)
    by (simp add: sax_rest_array [OF more_elems(3)])
next
  case (last_member lx lx1 t lx2 v lx3 lx')
  obtain d1 where d1: "slot_ok d1 (InObject m (token_buffer lx) # gs)"
    "sax_members sd value_string lx st d = sax_loop sd False t lx2 (False # st) d1"
    using sax_members_key [OF last_member(6,7) last_member(1,2), of st] by auto
  from last_member(4) [OF d1(1), of "False # st"]
  obtain d' where "open_at d' (JObject (obj_put (token_buffer lx) v m)) gs"
    "sax_members sd value_string lx st d = sax_rest sd lx3 (False # st) d'"
    using d1(2) by (auto dest: filled_object)
  then show ?case using dom_end_open by (auto simp: sax_rest_object [OF last_member(5)])
next
  case (more_members lx lx1 t lx2 v lx3 lx4 t' lx5 ms lx')
  obtain d1 where d1: "slot_ok d1 (InObject m (token_buffer lx) # gs)"
    "sax_members sd value_string lx st d = sax_loop sd False t lx2 (False # st) d1"
    using sax_members_key [OF more_members(9,10) more_members(1,2), of st] by auto
  from more_members(4) [OF d1(1), of "False # st"]
  obtain d' where d': "open_at d' (JObject (obj_put (token_buffer lx) v m)) gs"
    "sax_members sd value_string lx st d = sax_rest sd lx3 (False # st) d'"
    using d1(2) by (auto dest: filled_object)
  show ?case
    using more_members(8) [OF d'(1) obj_put_sorted [OF more_members(10)], of st] d'(2) more_members(6)
    by (simp add: sax_rest_object [OF more_members(5)])
qed

text \<open>A parse error or a number out of range, never a pointer that leads nowhere.\<close>

definition rejects :: "'a result \<Rightarrow> bool" where
  "rejects r \<longleftrightarrow> r = Inl JsonParseError \<or> r = Inl JsonOutOfRange"

definition value_or_error :: "(string \<Rightarrow> rat option) \<Rightarrow> token_type \<Rightarrow> lexer \<Rightarrow> bool" where
  "value_or_error sd t lx \<longleftrightarrow> (\<exists>j lx'. json_value sd t lx j lx') \<or>
     (\<forall>d gs st. slot_ok d gs \<longrightarrow> rejects (sax_loop sd False t lx st d))"

definition elems_or_error :: "(string \<Rightarrow> rat option) \<Rightarrow> token_type \<Rightarrow> lexer \<Rightarrow> bool" where
  "elems_or_error sd t lx \<longleftrightarrow> (\<exists>vs lx'. json_elems sd t lx vs lx') \<or>
     (\<forall>d us gs st. open_at d (JArray us) gs \<longrightarrow> rejects (sax_loop sd False t lx (True # st) d))"

definition members_or_error :: "(string \<Rightarrow> rat option) \<Rightarrow> token_type \<Rightarrow> lexer \<Rightarrow> bool" where
  "members_or_error sd t lx \<longleftrightarrow> (\<exists>ms lx'. json_members sd t lx ms lx') \<or>
     (\<forall>d m gs st. open_at d (JObject m) gs \<longrightarrow> sorted_wrt str_less (map fst m) \<longrightarrow>
        rejects (sax_members sd t lx st d))"

lemma rejects_rbind: "rejects m \<Longrightarrow> rejects (rbind m f)"
  by (auto simp: rejects_def rbind_def)

lemma rejects_Inl [simp]: "rejects (Inl JsonParseError)" "rejects (Inl JsonOutOfRange)"
  by (simp_all add: rejects_def)

lemma elems_step:
  assumes v: "value_or_error sd t lx"
    and less: "\<And>t' lx'. avail lx' < avail lx \<Longrightarrow> elems_or_error sd t' lx'"
  shows "elems_or_error sd t lx"
proof (cases "\<exists>j lx'. json_value sd t lx j lx'")
  case False
  then show ?thesis using v by (auto simp: value_or_error_def elems_or_error_def open_array_slot)
next
  case True
  then obtain j lx1 where j: "json_value sd t lx j lx1" by blast
  obtain t2 lx2 where s2: "scan sd lx1 = (t2, lx2)" by fastforce
  obtain t3 lx3 where s3: "scan sd lx2 = (t3, lx3)" by fastforce
  have le: "avail lx3 < avail lx" if "t2 = value_separator"
    using json_value_avail(1) [OF j] avail_scan [OF s2] avail_scan [OF s3] that by (simp add: live_def)
  have run: "\<exists>d'. open_at d' (JArray (us @ [j])) gs \<and>
      sax_loop sd False t lx (True # st) d = sax_rest sd lx1 (True # st) d'"
    if "open_at d (JArray us) gs" for d us gs st
    using grammar_complete(1) [OF j, of d "InArray us # gs" "True # st"] that
    by (auto simp: open_array_slot filled_array)
  consider "t2 = end_array" | "t2 = value_separator" "\<exists>vs lx'. json_elems sd t3 lx3 vs lx'"
    | "t2 = value_separator" "\<nexists>vs lx'. json_elems sd t3 lx3 vs lx'" | "t2 \<noteq> end_array" "t2 \<noteq> value_separator" by blast
  then show ?thesis
  proof cases
    case 1
    then show ?thesis using last_elem [OF j] s2 by (auto simp: elems_or_error_def)
  next
    case 2
    then show ?thesis using more_elems [OF j _ s3] s2 by (auto simp: elems_or_error_def)
  next
    case 3
    then have "elems_or_error sd t3 lx3" using less le by blast
    with 3 have err: "open_at d (JArray us) gs \<Longrightarrow> rejects (sax_loop sd False t3 lx3 (True # st) d)" for d us gs st
      unfolding elems_or_error_def by blast
    show ?thesis
      unfolding elems_or_error_def
    proof (intro disjI2 allI impI)
      fix d us gs st
      assume "open_at d (JArray us) gs"
      from run [OF this, of st] err show "rejects (sax_loop sd False t lx (True # st) d)"
        using 3(1) s3 by (auto simp: sax_rest_array [OF s2])
    qed
  next
    case 4
    then show ?thesis unfolding elems_or_error_def using run by (fastforce simp: sax_rest_array [OF s2])
  qed
qed

lemma members_step:
  assumes less: "\<And>t' lx'. avail lx' < avail lx \<Longrightarrow> value_or_error sd t' lx' \<and> members_or_error sd t' lx'"
  shows "members_or_error sd t lx"
proof -
  obtain t1 lx1 where s1: "scan sd lx = (t1, lx1)" by fastforce
  obtain t2 lx2 where s2: "scan sd lx1 = (t2, lx2)" by fastforce
  have le2: "avail lx2 < avail lx" if "t1 = name_separator"
    using avail_scan [OF s1] avail_scan [OF s2] that by (simp add: live_def)
  consider "t \<noteq> value_string" | "t = value_string" "t1 \<noteq> name_separator"
    | "t = value_string" "t1 = name_separator" "\<nexists>j lx'. json_value sd t2 lx2 j lx'"
    | j lx3 where "t = value_string" "t1 = name_separator" "json_value sd t2 lx2 j lx3" by blast
  then show ?thesis
  proof cases
    case 1
    then show ?thesis by (simp add: members_or_error_def sax_members_def sax_member_def rbind_def)
  next
    case 2
    then show ?thesis
      unfolding members_or_error_def using sax_members_key [OF _ _ s1 s2] rejects_Inl(1) by metis
  next
    case 3
    then have "slot_ok d gs \<Longrightarrow> rejects (sax_loop sd False t2 lx2 st d)" for d gs st
      using less [OF le2, of t2] unfolding value_or_error_def by blast
    with 3 show ?thesis unfolding members_or_error_def using sax_members_key [OF _ _ s1 s2] by metis
  next
    case 4
    note j = 4(3)
    obtain t4 lx4 where s4: "scan sd lx3 = (t4, lx4)" by fastforce
    obtain t5 lx5 where s5: "scan sd lx4 = (t5, lx5)" by fastforce
    have run: "\<exists>d'. open_at d' (JObject (obj_put (token_buffer lx) j m)) gs \<and>
        sax_members sd t lx st d = sax_rest sd lx3 (False # st) d'"
      if o: "open_at d (JObject m) gs" "sorted_wrt str_less (map fst m)" for d m gs st
    proof -
      obtain d1 where "slot_ok d1 (InObject m (token_buffer lx) # gs)"
        "sax_members sd t lx st d = sax_loop sd False t2 lx2 (False # st) d1"
        using sax_members_key [OF o s1 s2, of st] 4(1,2) by auto
      with grammar_complete(1) [OF j this(1), of "False # st"] show ?thesis by (auto dest: filled_object)
    qed
    have le5: "avail lx5 < avail lx"
      using le2 4(2) json_value_avail(1) [OF j] avail_scan(1) [OF s4] avail_scan(1) [OF s5] by linarith
    consider "t4 = end_object" | "t4 = value_separator" "\<exists>ms lx'. json_members sd t5 lx5 ms lx'"
      | "t4 = value_separator" "\<nexists>ms lx'. json_members sd t5 lx5 ms lx'"
      | "t4 \<noteq> end_object" "t4 \<noteq> value_separator" by blast
    then show ?thesis
    proof cases
      case 1
      then show ?thesis
        using last_member [OF _ s2 j] s1 s4 4(1,2) unfolding members_or_error_def by blast
    next
      case 2
      then show ?thesis
        using more_members [OF _ s2 j _ s5] s1 s4 4(1,2) unfolding members_or_error_def by blast
    next
      case 3
      then have err: "open_at d (JObject m) gs \<Longrightarrow> sorted_wrt str_less (map fst m) \<Longrightarrow>
          rejects (sax_members sd t5 lx5 st d)" for d m gs st
        using less [OF le5, of t5] unfolding members_or_error_def by blast
      show ?thesis
        unfolding members_or_error_def
      proof (intro disjI2 allI impI)
        fix d m gs st
        assume o: "open_at d (JObject m) gs" "sorted_wrt str_less (map fst m)"
        from run [OF o, of st] err [OF _ obj_put_sorted [OF o(2)]]
        show "rejects (sax_members sd t lx st d)" using 3(1) s5 by (auto simp: sax_rest_object [OF s4])
      qed
    next
      case 4
      show ?thesis
        unfolding members_or_error_def
      proof (intro disjI2 allI impI)
        fix d m gs st
        assume o: "open_at d (JObject m) gs" "sorted_wrt str_less (map fst m)"
        from run [OF o, of st] show "rejects (sax_members sd t lx st d)"
          using 4 by (auto simp: sax_rest_object [OF s4])
      qed
    qed
  qed
qed

lemma value_step:
  assumes less: "\<And>t' lx'. sax_variant t' lx' < sax_variant t lx \<Longrightarrow>
      elems_or_error sd t' lx' \<and> members_or_error sd t' lx'"
  shows "value_or_error sd t lx"
proof -
  obtain t1 lx1 where s1: "scan sd lx = (t1, lx1)" by fastforce
  consider j where "scalar_of t lx = Some j" | "t = begin_array" | "t = begin_object"
    | "scalar_of t lx = None" "t \<noteq> begin_array" "t \<noteq> begin_object" by (cases "scalar_of t lx") blast+
  then show ?thesis
  proof cases
    case 1
    show ?thesis unfolding value_or_error_def using scalar [OF 1] by blast
  next
    case 2
    have le: "sax_variant t1 lx1 < sax_variant t lx" using sax_variant_scan [OF s1] 2 by (simp add: live_def)
    show ?thesis
    proof (cases "t1 = end_array \<or> (\<exists>vs lx'. json_elems sd t1 lx1 vs lx')")
      case True
      then show ?thesis using empty_array [of sd lx lx1] elements [OF s1] s1 2 unfolding value_or_error_def by blast
    next
      case False
      then have "open_at d (JArray us) gs \<Longrightarrow> rejects (sax_loop sd False t1 lx1 (True # st) d)" for d us gs st
        using less [OF le] unfolding elems_or_error_def by blast
      then show ?thesis
        unfolding value_or_error_def using sax_loop_array [OF _ s1] 2 False by metis
    qed
  next
    case 3
    have le: "sax_variant t1 lx1 < sax_variant t lx" using sax_variant_scan [OF s1] 3 by (simp add: live_def)
    show ?thesis
    proof (cases "t1 = end_object \<or> (\<exists>ms lx'. json_members sd t1 lx1 ms lx')")
      case True
      then show ?thesis using empty_object [of sd lx lx1] members [OF s1] s1 3 unfolding value_or_error_def by blast
    next
      case False
      then have "open_at d (JObject m) gs \<Longrightarrow> sorted_wrt str_less (map fst m) \<Longrightarrow>
          rejects (sax_members sd t1 lx1 st d)" for d m gs st
        using less [OF le] unfolding members_or_error_def by blast
      then have "open_at d (JObject []) gs \<Longrightarrow> rejects (sax_members sd t1 lx1 st d)" for d gs st by simp
      then show ?thesis
        unfolding value_or_error_def using sax_loop_object [OF _ s1] 3 False by metis
    qed
  next
    case 4
    then have "rejects (sax_value sd t lx st d)" for st d
      by (cases t) (auto simp: sax_value_def split: option.split)
    then show ?thesis
      unfolding value_or_error_def by (subst sax_loop_value) (auto intro: rejects_rbind)
  qed
qed

lemma grammar_or_error:
  "value_or_error sd t lx \<and> elems_or_error sd t lx \<and> members_or_error sd t lx"
proof (induction "sax_variant t lx" arbitrary: t lx rule: less_induct)
  case less
  then have "value_or_error sd t lx" by (intro value_step) blast
  moreover have "avail lx' < avail lx \<Longrightarrow> value_or_error sd t' lx' \<and> elems_or_error sd t' lx' \<and> members_or_error sd t' lx'"
    for t' lx' using less sax_variant_avail by blast
  ultimately show ?case using elems_step members_step by blast
qed

section \<open>The parser\<close>

definition empty_dom :: dom where
  "empty_dom = \<lparr>root = JNull, ref_stack = [], object_element = None\<rparr>"

lemma empty_dom_slot: "slot_ok empty_dom []"
  by (simp add: slot_ok_def empty_dom_def)

text \<open>A text of one value, up to the end of the input.\<close>

definition json_text :: "(string \<Rightarrow> rat option) \<Rightarrow> string \<Rightarrow> json \<Rightarrow> bool" where
  "json_text sd s j \<longleftrightarrow> (\<exists>t lx lx'. scan sd (mk_lexer s) = (t, lx) \<and> json_value sd t lx j lx' \<and>
     fst (scan sd lx') = end_of_input)"

lemma parse_value:
  assumes "scan sd (mk_lexer s) = (t, lx)" and "json_value sd t lx j lx'"
  shows "parse sd s = (if fst (scan sd lx') = end_of_input then Inr j else Inl JsonParseError)"
proof -
  obtain d where "filled d [] j" "sax_loop sd False t lx [] empty_dom = Inr (lx', d)"
    using grammar_complete(1) [OF assms(2) empty_dom_slot, of "[]"] by (auto simp: sax_rest_def)
  then show ?thesis by (simp add: parse_def assms(1) empty_dom_def [symmetric] rbind_def filled_def)
qed

lemma parse_grammar: "(parse sd s = Inr j \<longleftrightarrow> json_text sd s j) \<and> (is_ok (parse sd s) \<or> rejects (parse sd s))"
proof -
  obtain t lx where s: "scan sd (mk_lexer s) = (t, lx)" by fastforce
  show ?thesis
  proof (cases "\<exists>j lx'. json_value sd t lx j lx'")
    case True
    then obtain i lx' where i: "json_value sd t lx i lx'" by blast
    show ?thesis
    proof (cases "fst (scan sd lx') = end_of_input")
      case True
      then have "parse sd s = Inr i" using parse_value [OF s i] by simp
      moreover have "json_text sd s i" using s i True by (auto simp: json_text_def)
      moreover have "json_text sd s k \<Longrightarrow> parse sd s = Inr k" for k
        using parse_value by (auto simp: json_text_def)
      ultimately have "parse sd s = Inr j \<longleftrightarrow> json_text sd s j" by (metis Inr_inject)
      then show ?thesis using \<open>parse sd s = Inr i\<close> by (simp add: is_ok_def)
    next
      case False
      then have "parse sd s = Inl JsonParseError" using parse_value [OF s i] by simp
      then show ?thesis using parse_value by (fastforce simp: json_text_def)
    qed
  next
    case False
    then have "rejects (sax_loop sd False t lx [] empty_dom)"
      using grammar_or_error [of sd t lx] empty_dom_slot unfolding value_or_error_def by blast
    then have "rejects (parse sd s)"
      by (auto simp: parse_def s empty_dom_def [symmetric] rejects_def rbind_def)
    moreover have "\<not> json_text sd s j" using False s by (auto simp: json_text_def)
    ultimately show ?thesis by (auto simp: rejects_def)
  qed
qed

section \<open>Properties\<close>

text \<open>C23: The parser implements the grammar.  The loop with its explicit stack of open containers and its
  pointers into the value under construction returns a value exactly when the tokens of the text form
  that value by the recursive grammar and nothing follows but the end of the input; a later member
  replaces an earlier one with the same key.  In every other case it throws, and only
  \<^verbatim>\<open>parse_error\<close> or \<^verbatim>\<open>out_of_range\<close>: it never follows a null or dangling pointer.\<close>

theorem parser_implements_grammar:
  "(parse sd s = Inr j \<longleftrightarrow>
      (\<exists>t lx lx'. scan sd (mk_lexer s) = (t, lx) \<and> json_value sd t lx j lx' \<and> fst (scan sd lx') = end_of_input)) \<and>
   (\<exists>r. parse sd s = Inr r \<or> parse sd s = Inl JsonParseError \<or> parse sd s = Inl JsonOutOfRange)"
  using parse_grammar [of sd s j] by (cases "parse sd s") (auto simp: json_text_def rejects_def is_ok_def)

text \<open>The null byte ends the input: whatever follows it is not looked at.\<close>

lemma scan_null:
  assumes "current lx = 0"
  shows "scan_token sd lx = (end_of_input, lx)"
  using assms by (simp add: scan_token_def)

end
