(* ===== verification/Json_Roundtrip.thy ===== *)
theory Json_Roundtrip
  imports Json_Strings Json_Grammar
begin

text \<open>
  \<^verbatim>\<open>parse\<close> and \<^verbatim>\<open>dump\<close> of \<^verbatim>\<open>thirdparty/json.hpp\<close> together: the parser reads back every value the
  serializer prints, and every value the parser returns can be printed.
\<close>

section \<open>The first character of a token\<close>

definition tok_at :: "lexer \<Rightarrow> string \<Rightarrow> bool" where
  "tok_at lx s \<longleftrightarrow> s \<noteq> [] \<and> lex_at lx (tl s) \<and> current lx = of_char (hd s)"

definition token_start :: "string \<Rightarrow> bool" where
  "token_start s \<longleftrightarrow> s \<noteq> [] \<and> \<not> is_ws (of_char (hd s)) \<and> (of_char (hd s) :: int) \<noteq> 0xEF"

lemma scan_start:
  assumes "lex_at lx s" and "token_start s"
  shows "\<exists>l1. scan sd lx = scan_token sd l1 \<and> tok_at l1 s"
proof -
  obtain c s' where s: "s = c # s'" using assms(2) by (cases s) (auto simp: token_start_def)
  note g = get_char [of lx c s', OF assms(1) [unfolded s]]
  have "skip_ws lx = get lx" using g(2) assms(2) s by (subst skip_ws.simps) (simp add: token_start_def)
  moreover have "chars_read_total lx \<noteq> 0" using assms(1) by (simp add: lex_at_def)
  ultimately show ?thesis using g s by (intro exI [of _ "get lx"]) (simp add: scan_def tok_at_def)
qed

lemma scan_first:
  assumes "token_start s"
  shows "\<exists>l1. scan sd (mk_lexer s) = scan_token sd l1 \<and> tok_at l1 s"
proof -
  obtain c s' where s: "s = c # s'" using assms by (cases s) (auto simp: token_start_def)
  let ?l = "unget (get (mk_lexer s))"
  have "of_char c \<noteq> (0xEF :: int)" using assms s by (simp add: token_start_def)
  then have b: "skip_bom (mk_lexer s) = (True, ?l)" by (simp add: skip_bom_def s get_def mk_lexer_def)
  have cu: "current (get ?l) = of_char c" and at: "lex_at (get ?l) s'"
    by (simp_all add: s get_def mk_lexer_def unget_def lex_at_def pending_def)
  have "skip_ws ?l = get ?l" using cu assms s by (subst skip_ws.simps) (simp add: token_start_def)
  then have "scan sd (mk_lexer s) = scan_token sd (get ?l)" using b by (simp add: scan_def mk_lexer_def)
  then show ?thesis using cu at s by (intro exI [of _ "get ?l"]) (simp add: tok_at_def)
qed

lemma scan_char:
  assumes "lex_at lx (c # s)" and "(of_char c :: int, t) \<in> {(0x5B, begin_array), (0x5D, end_array), (0x7B, begin_object),
    (0x7D, end_object), (0x3A, name_separator), (0x2C, value_separator)}"
  shows "\<exists>lx'. scan sd lx = (t, lx') \<and> lex_at lx' s"
proof -
  have "token_start (c # s)" using assms(2) by (auto simp: token_start_def)
  from scan_start [OF assms(1) this] obtain l1 where l1: "scan sd lx = scan_token sd l1" "lex_at l1 s" "current l1 = of_char c"
    by (auto simp: tok_at_def)
  then have "scan_token sd l1 = (t, l1)" using assms(2) by (auto simp: scan_token_def)
  then show ?thesis using l1 by auto
qed

lemma scan_end:
  assumes "lex_at lx []"
  shows "fst (scan sd lx) = end_of_input"
proof -
  have "skip_ws lx = get lx" using get_end [OF assms] by (subst skip_ws.simps) (simp add: EOF_def)
  moreover have "chars_read_total lx \<noteq> 0" using assms by (simp add: lex_at_def)
  ultimately show ?thesis using get_end [OF assms] by (simp add: scan_def scan_token_def EOF_def)
qed

section \<open>Literals and numbers\<close>

lemma literal_from_read: "lex_at lx (cs @ s) \<Longrightarrow> \<exists>lx'. literal_from cs t lx = (t, lx') \<and> lex_at lx' s"
proof (induction cs arbitrary: lx)
  case (Cons c cs)
  then show ?case using get_char [of lx c "cs @ s"] by auto
qed simp

text \<open>What may follow a number: nothing that would continue it.\<close>

definition num_end :: "string \<Rightarrow> bool" where
  "num_end s \<longleftrightarrow> (case s of [] \<Rightarrow> True
     | c # _ \<Rightarrow> \<not> is_digit (of_char c) \<and> \<not> is_exp (of_char c) \<and> (of_char c :: int) \<noteq> 0x2E)"

definition digits :: "string \<Rightarrow> bool" where
  "digits s \<longleftrightarrow> (\<forall>c\<in>set s. is_digit (of_char c))"

lemma num_end_current: "num_end s \<Longrightarrow> lex_at lx s \<Longrightarrow>
   \<not> is_digit (current (get lx)) \<and> \<not> is_exp (current (get lx)) \<and> current (get lx) \<noteq> 0x2E"
  using get_char [of lx] get_end [of lx] by (cases s) (auto simp: num_end_def EOF_def)

lemma scan_any1:
  "digits ds \<Longrightarrow> num_end s \<Longrightarrow> lex_at lx (ds @ s) \<Longrightarrow>
    \<exists>lx'. scan_number_from scan_number_any1 ty lx = (Some ty, lx') \<and> lex_at lx' s \<and> token_buffer lx' = token_buffer lx @ ds"
proof (induction ds arbitrary: lx)
  case Nil
  then show ?case
    using num_end_current [of s lx] unget_get [of lx s] by (subst scan_number_from.simps) (auto simp: Let_def)
next
  case (Cons d ds)
  then have g: "lex_at (get lx) (ds @ s)" "current (get lx) = of_char d" using get_char [of lx d "ds @ s"] by simp_all
  have "scan_number_from scan_number_any1 ty lx = scan_number_from scan_number_any1 ty (add (of_char d) (get lx))"
    using g(2) Cons.prems(1) by (subst scan_number_from.simps) (simp add: digits_def)
  then show ?case using Cons.IH [of "add (of_char d) (get lx)"] Cons.prems(1,2) g(1) by (simp add: digits_def)
qed

lemma scan_zero:
  "num_end s \<Longrightarrow> lex_at lx s \<Longrightarrow>
    \<exists>lx'. scan_number_from scan_number_zero ty lx = (Some ty, lx') \<and> lex_at lx' s \<and> token_buffer lx' = token_buffer lx"
  using num_end_current [of s lx] unget_get [of lx s] by (subst scan_number_from.simps) (auto simp: Let_def)

lemma of_char_digit: "d < 10 \<Longrightarrow> (of_char (digit d) :: int) = 48 + int d"
  by (simp add: digit_def of_char_int)

lemma dec_int_snoc: "dec_int (s @ [c]) = dec_int s * 10 + (of_char c - 48)"
  by (simp add: dec_int_def)

lemma nat_str_props: "digits (nat_str n) \<and> dec_int (nat_str n) = int n \<and> nat_str n \<noteq> [] \<and>
    ((of_char (hd (nat_str n)) :: int) = 48 \<longleftrightarrow> n = 0)"
proof (induction n rule: nat_str.induct)
  case (1 n)
  show ?case
  proof (cases "n < 10")
    case True
    then show ?thesis
      using True of_char_digit [OF True] by (simp add: nat_str.simps [of n] digits_def dec_int_def)
  next
    case False
    have "int n = int (n div 10) * 10 + int (n mod 10)"
      using div_mult_mod_eq [of n 10] by (metis of_nat_add of_nat_mult of_nat_numeral)
    then show ?thesis
      using False 1 of_char_digit [of "n mod 10"] nat_str.simps [of n]
      by (auto simp: digits_def dec_int_snoc)
  qed
qed

lemma scan_token_digit: "is_digit (current lx) \<or> current lx = 0x2D \<Longrightarrow> scan_token sd lx = scan_number sd lx"
  by (auto simp: scan_token_def)

lemma token_buffer_reset [simp]: "token_buffer (reset_token lx) = []" "current (reset_token lx) = current lx"
  by (simp_all add: reset_token_def)

text \<open>The digits of a number, after its sign if it has one.\<close>

lemma scan_digits:
  assumes "digits (d # ds)" and "(of_char d :: int) = 48 \<Longrightarrow> ds = []" and "num_end s" and "lex_at lx (ds @ s)"
  shows "\<exists>lx'. scan_number_from (if (of_char d :: int) = 48 then scan_number_zero else scan_number_any1) ty lx =
      (Some ty, lx') \<and> lex_at lx' s \<and> token_buffer lx' = token_buffer lx @ ds"
  using scan_any1 [of ds s lx ty] scan_zero [of s lx ty] assms by (auto simp: digits_def)

lemma nat_str_zero: "(of_char (hd (nat_str n)) :: int) = 48 \<Longrightarrow> tl (nat_str n) = []"
  using nat_str_props [of n] by (simp add: nat_str.simps [of 0])

lemma scan_printed_nat:
  assumes "int n < 2 ^ 64" and "num_end s" and "tok_at lx (nat_str n @ s)"
  shows "\<exists>lx'. scan_token sd lx = (value_unsigned, lx') \<and> v_unsigned lx' = int n \<and> lex_at lx' s"
proof -
  obtain d ds where d: "nat_str n = d # ds" using nat_str_nonempty [of n] by (cases "nat_str n") auto
  note P = nat_str_props [of n, unfolded d]
  have cur: "current lx = of_char d" "is_digit (current lx)" and at: "lex_at lx (ds @ s)"
    using assms(3) P by (simp_all add: tok_at_def d digits_def)
  let ?l = "add (of_char d) (reset_token lx)"
  obtain lx' where "scan_number_from (if (of_char d :: int) = 48 then scan_number_zero else scan_number_any1) value_unsigned ?l =
      (Some value_unsigned, lx')" "lex_at lx' s" "token_buffer lx' = nat_str n"
    using scan_digits [of d ds s ?l value_unsigned] P nat_str_zero [of n] d assms(2) at by auto
  moreover have "strtoull (nat_str n) = Some (int n)" using P assms(1) by (simp add: strtoull_def d)
  moreover have "current lx \<noteq> 0x2D" using cur(2) by auto
  ultimately have "scan_number sd lx = (value_unsigned, lx'\<lparr>v_unsigned := int n\<rparr>)"
    using cur(1) by (auto simp: scan_number_def scan_number_done_def Let_def)
  then show ?thesis using scan_token_digit [of lx sd] cur(2) \<open>lex_at lx' s\<close> by simp
qed

lemma scan_printed_neg:
  assumes "0 < n" and "int n \<le> 2 ^ 63" and "num_end s" and "tok_at lx (''-'' @ nat_str n @ s)"
  shows "\<exists>lx'. scan_token sd lx = (value_integer, lx') \<and> v_integer lx' = - int n \<and> lex_at lx' s"
proof -
  obtain d ds where d: "nat_str n = d # ds" using nat_str_nonempty [of n] by (cases "nat_str n") auto
  note P = nat_str_props [of n, unfolded d]
  have cur: "current lx = 0x2D" and at: "lex_at lx (d # ds @ s)"
    using assms(4) by (simp_all add: tok_at_def d)
  let ?m = "add 0x2D (reset_token lx)"
  let ?l = "add (of_char d) (get ?m)"
  have g: "lex_at (get ?m) (ds @ s)" "current (get ?m) = of_char d" using get_char [of ?m d "ds @ s"] at by simp_all
  have ne: "(of_char d :: int) \<noteq> 48" using P assms(1) by simp
  have "scan_number_from scan_number_minus value_unsigned ?m = scan_number_from scan_number_any1 value_integer ?l"
    using g(2) ne P by (subst scan_number_from.simps) (simp add: digits_def)
  moreover have "char_of (45 :: int) = CHR ''-''" by code_simp
  moreover obtain lx' where "scan_number_from scan_number_any1 value_integer ?l = (Some value_integer, lx')"
      "lex_at lx' s" "token_buffer lx' = ''-'' @ nat_str n"
    using scan_digits [of d ds s ?l value_integer] P ne assms(3) g(1) d calculation(2) by auto
  moreover have "strtoll (''-'' @ nat_str n) = Some (- int n)" using P assms(2) by (simp add: strtoll_def d)
  ultimately have "scan_number sd lx = (value_integer, lx'\<lparr>v_integer := - int n\<rparr>)"
    using cur by (auto simp: scan_number_def scan_number_done_def Let_def)
  then show ?thesis using scan_token_digit [of lx sd] cur \<open>lex_at lx' s\<close> by simp
qed

lemma scan_printed_int:
  assumes "- (2 ^ 63) \<le> i" and "i < 2 ^ 64" and "num_end s" and "tok_at lx (dump_integer i @ s)"
  shows "\<exists>t lx'. scan_token sd lx = (t, lx') \<and> scalar_of t lx' = Some (JInt i) \<and> lex_at lx' s"
proof (cases "i < 0")
  case True
  have "0 < nat (- i)" "int (nat (- i)) \<le> 2 ^ 63" using True assms(1) by simp_all
  from scan_printed_neg [OF this assms(3), of lx sd] assms(4) True show ?thesis
    by (fastforce simp: dump_integer_eq int_str_def)
next
  case False
  have "int (nat i) < 2 ^ 64" using False assms(2) by simp
  from scan_printed_nat [OF this assms(3), of lx sd] assms(4) False show ?thesis
    by (fastforce simp: dump_integer_eq int_str_def)
qed

section \<open>Values that can be printed\<close>

fun valid_json :: "json \<Rightarrow> bool" where
  "valid_json (JString s) \<longleftrightarrow> valid_utf8 s"
| "valid_json (JArray vs) \<longleftrightarrow> (\<forall>v \<in> set vs. valid_json v)"
| "valid_json (JObject m) \<longleftrightarrow> (\<forall>(k, v) \<in> set m. valid_utf8 k \<and> valid_json v)"
| "valid_json _ \<longleftrightarrow> True"

lemma dump_string_valid: "valid_utf8 s \<Longrightarrow> is_ok (dump_string s)"
  by (simp add: dump_string_def valid_utf8_def is_ok_rbind_eq)

lemma dump_valid: "valid_json j \<Longrightarrow> is_ok (dump fp j)"
proof (induction fp j rule: dump.induct)
  case (1 fp m)
  have "is_ok (rmap (\<lambda>(k, v). rbind (dump_string k) (\<lambda>ks. rbind (dump fp v) (\<lambda>vs. Inr (ks @ '':'' @ vs)))) m)"
    if "m \<noteq> []"
  proof (rule rmap_ok)
    fix x assume x: "x \<in> set m"
    obtain k v where kv: "x = (k, v)" by fastforce
    have a: "valid_utf8 k" "valid_json v" using "1.prems" x kv by auto
    have "is_ok (dump fp v)" using "1.IH" [OF that x kv [symmetric] a(2)] .
    then show "is_ok (case x of (k, v) \<Rightarrow> rbind (dump_string k) (\<lambda>ks. rbind (dump fp v) (\<lambda>vs. Inr (ks @ '':'' @ vs))))"
      using dump_string_valid [OF a(1)] by (simp add: kv is_ok_rbind)
  qed
  then show ?case by (auto intro!: is_ok_rbind)
next
  case (2 fp vs)
  have "is_ok (rmap (dump fp) vs)" if "vs \<noteq> []"
    by (rule rmap_ok) (use 2 that in auto)
  then show ?case by (auto intro!: is_ok_rbind)
qed (auto simp: dump_string_valid)

lemma ascii_valid: "ascii s \<Longrightarrow> valid_utf8 s"
  using dump_escaped_from_ascii [of s 0] by (simp add: ascii_def valid_utf8_from [where cp = 0])

lemma obj_put_valid:
  assumes "valid_json (JObject m)" and "valid_utf8 k" and "valid_json v"
  shows "valid_json (JObject (obj_put k v m))"
proof -
  have "valid_utf8 k' \<and> valid_json v'" if kv: "(k', v') \<in> set (obj_put k v m)" for k' v'
  proof -
    have "k' \<in> set (map fst (obj_put k v m))" using kv by force
    then have "k' = k \<or> k' \<in> set (map fst m)" unfolding obj_put_keys by blast
    then show ?thesis using assms obj_put_vals [OF kv] by auto
  qed
  then show ?thesis by auto
qed

lemma literal_from_token: "fst (literal_from cs t lx) = t \<or> fst (literal_from cs t lx) = parse_error"
proof (induction cs arbitrary: lx)
  case (Cons c cs)
  show ?case using Cons.IH [of "get lx"] by (simp add: Let_def)
qed simp

lemma scan_number_token: "fst (scan_number sd lx) \<noteq> value_string"
proof -
  have "fst (scan_number_done sd ty l1) \<noteq> value_string" for ty l1
    by (cases "ty = value_unsigned"; cases "ty = value_integer") (simp_all add: scan_number_done_def split: option.split)
  then show ?thesis
    unfolding scan_number_def Let_def by (simp split: prod.split option.split)
qed

lemma scan_valid:
  assumes "scan sd lx = (value_string, lx')"
  shows "valid_utf8 (token_buffer lx')"
proof -
  obtain l1 where l1: "scan_token sd l1 = (value_string, lx')"
    using assms by (auto simp: scan_def split: prod.splits if_splits)
  have "fst (scan_literal w t l1) \<noteq> value_string" if "t \<noteq> value_string" for w t
    using literal_from_token [of "tl w" t l1] that by (auto simp: scan_literal_def)
  then have "fst (scan_literal ''true'' literal_true l1) \<noteq> value_string" "fst (scan_literal ''false'' literal_false l1) \<noteq> value_string"
    "fst (scan_literal ''null'' literal_null l1) \<noteq> value_string" by simp_all
  then have "scan_string l1 = (value_string, lx')"
    using l1 scan_number_token [of sd l1] by (auto simp: scan_token_def Let_def split: if_splits)
  then show ?thesis by (rule scan_string_valid)
qed

definition members_valid :: "(string \<times> json) list \<Rightarrow> bool" where
  "members_valid m \<longleftrightarrow> (\<forall>(k, v) \<in> set m. valid_utf8 k \<and> valid_json v \<and> json_wf v)"

lemma put_all_valid:
  "members_valid ms \<Longrightarrow> members_valid m \<Longrightarrow> members_valid (put_all ms m)"
proof (induction ms arbitrary: m)
  case (Cons a ms)
  obtain k v where a: "a = (k, v)" by fastforce
  have "members_valid (obj_put k v m)"
    unfolding members_valid_def
  proof (clarify)
    fix k' v'
    assume kv: "(k', v') \<in> set (obj_put k v m)"
    then have "k' \<in> set (map fst (obj_put k v m))" by force
    then have "k' = k \<or> k' \<in> set (map fst m)" unfolding obj_put_keys by blast
    then have "valid_utf8 k'" using Cons.prems a by (auto simp: members_valid_def)
    moreover have "valid_json v' \<and> json_wf v'"
      using obj_put_vals [OF kv] Cons.prems a by (auto simp: members_valid_def)
    ultimately show "valid_utf8 k' \<and> valid_json v' \<and> json_wf v'" by blast
  qed
  then show ?case using Cons a by (simp add: members_valid_def)
qed simp

lemma put_all_wf: "sorted_wrt str_less (map fst m) \<Longrightarrow> sorted_wrt str_less (map fst (put_all ms m))"
  by (induction ms arbitrary: m) (auto simp: obj_put_sorted)

lemma json_value_valid:
  "json_value sd t lx j lx' \<Longrightarrow> (t = value_string \<Longrightarrow> valid_utf8 (token_buffer lx)) \<Longrightarrow> valid_json j \<and> json_wf j"
  "json_elems sd t lx vs lx' \<Longrightarrow> (t = value_string \<Longrightarrow> valid_utf8 (token_buffer lx)) \<Longrightarrow> \<forall>v\<in>set vs. valid_json v \<and> json_wf v"
  "json_members sd t lx ms lx' \<Longrightarrow> (t = value_string \<Longrightarrow> valid_utf8 (token_buffer lx)) \<Longrightarrow> members_valid ms"
proof (induction rule: json_value_json_elems_json_members.inducts)
  case (scalar t lx j)
  then show ?case by (cases t) auto
next
  case (members lx t lx1 ms lx')
  have "members_valid ms" using members(1,3) scan_valid by blast
  then have "members_valid (put_all ms [])" by (rule put_all_valid) (simp add: members_valid_def)
  then show ?case using put_all_wf [of "[]" ms] by (auto simp: members_valid_def)
qed (auto simp: members_valid_def dest: scan_valid)

lemma parse_valid:
  assumes "parse sd s = Inr j"
  shows "valid_json j" and "json_wf j"
proof -
  obtain t lx lx' where "scan sd (mk_lexer s) = (t, lx)" "json_value sd t lx j lx'"
    using assms parse_grammar [of sd s j] by (auto simp: json_text_def)
  then show "valid_json j" and "json_wf j" using json_value_valid(1) scan_valid by blast+
qed

section \<open>Printed values\<close>

text \<open>The values the parser reads back exactly: no floating-point numbers, and integers that fit
  \<^verbatim>\<open>int64_t\<close> or \<^verbatim>\<open>uint64_t\<close>, as those of a \<^verbatim>\<open>basic_json\<close> do.\<close>

fun exact_json :: "json \<Rightarrow> bool" where
  "exact_json (JInt i) \<longleftrightarrow> - (2 ^ 63) \<le> i \<and> i < 2 ^ 64"
| "exact_json (JFloat _) \<longleftrightarrow> False"
| "exact_json (JArray vs) \<longleftrightarrow> (\<forall>v \<in> set vs. exact_json v)"
| "exact_json (JObject m) \<longleftrightarrow> (\<forall>(k, v) \<in> set m. exact_json v)"
| "exact_json _ \<longleftrightarrow> True"

definition reads_back :: "(string \<Rightarrow> rat option) \<Rightarrow> (rat \<Rightarrow> string) \<Rightarrow> json \<Rightarrow> bool" where
  "reads_back sd fp j \<longleftrightarrow> (\<forall>ts s lx. dump fp j = Inr ts \<longrightarrow> num_end s \<longrightarrow> tok_at lx (ts @ s) \<longrightarrow>
     (\<exists>t l1 lx'. scan_token sd lx = (t, l1) \<and> json_value sd t l1 j lx' \<and> lex_at lx' s))"

lemma dump_start: "dump fp j = Inr ts \<Longrightarrow> exact_json j \<Longrightarrow> token_start ts"
proof -
  assume d: "dump fp j = Inr ts" "exact_json j"
  have n: "token_start (nat_str n)" for n
    using nat_str_props [of n] by (cases "nat_str n") (auto simp: token_start_def digits_def)
  have i: "token_start (dump_integer i)" for i
    using n by (simp add: dump_integer_eq int_str_def) (simp add: token_start_def)
  show ?thesis
    using d i by (cases j) (auto simp: dump_string_def rbind_Inr token_start_def split: if_splits)
qed

lemma token_start_append: "token_start a \<Longrightarrow> token_start (a @ b)"
  by (simp add: token_start_def)

lemma scan_printed:
  assumes "reads_back sd fp j" and "exact_json j" and "dump fp j = Inr ts" and "num_end s" and "lex_at lx (ts @ s)"
  shows "\<exists>t l1 lx'. scan sd lx = (t, l1) \<and> json_value sd t l1 j lx' \<and> lex_at lx' s"
proof -
  obtain l0 where "scan sd lx = scan_token sd l0" "tok_at l0 (ts @ s)"
    using scan_start [OF assms(5) token_start_append [OF dump_start [OF assms(3,2)]], of sd] by blast
  then show ?thesis using assms(1,3,4) unfolding reads_back_def by fastforce
qed

lemma num_end_char [simp]: "num_end (CHR '','' # s)" "num_end (CHR '']'' # s)" "num_end (CHR ''}'' # s)" "num_end []"
  by (simp_all add: num_end_def)

lemma elems_read_back:
  assumes "\<And>v. v \<in> set vs \<Longrightarrow> reads_back sd fp v \<and> exact_json v" and "vs \<noteq> []" and "rmap (dump fp) vs = Inr ps"
    and "lex_at lx (join ps @ CHR '']'' # s)"
  shows "\<exists>t l1 lx'. scan sd lx = (t, l1) \<and> json_elems sd t l1 vs lx' \<and> lex_at lx' s"
  using assms
proof (induction vs arbitrary: ps lx)
  case (Cons v vs)
  obtain p qs where p: "dump fp v = Inr p" "rmap (dump fp) vs = Inr qs" "ps = p # qs"
    using Cons.prems(3) by (auto simp: rbind_Inr)
  have v: "reads_back sd fp v" "exact_json v" using Cons.prems(1) by auto
  show ?case
  proof (cases "vs = []")
    case True
    then have "qs = []" using p(2) by simp
    then obtain t l1 l2 where t: "scan sd lx = (t, l1)" "json_value sd t l1 v l2" "lex_at l2 (CHR '']'' # s)"
      using scan_printed [OF v p(1), of "CHR '']'' # s" lx] Cons.prems(4) p(3) by auto
    obtain lx' where "scan sd l2 = (end_array, lx')" "lex_at lx' s" using scan_char [OF t(3)] by auto
    then show ?thesis using last_elem [OF t(2)] t(1) True by blast
  next
    case False
    then obtain q qs' where q: "qs = q # qs'" using p(2) by (cases vs) (auto simp: rbind_Inr)
    obtain t l1 l2 where t: "scan sd lx = (t, l1)" "json_value sd t l1 v l2" "lex_at l2 (CHR '','' # join qs @ CHR '']'' # s)"
      using scan_printed [OF v p(1), of "CHR '','' # join qs @ CHR '']'' # s" lx] Cons.prems(4) p(3) q by auto
    obtain l3 where l3: "scan sd l2 = (value_separator, l3)" "lex_at l3 (join qs @ CHR '']'' # s)"
      using scan_char [OF t(3)] by auto
    obtain t' l4 lx' where "scan sd l3 = (t', l4)" "json_elems sd t' l4 vs lx'" "lex_at lx' s"
      using Cons.IH [OF _ False p(2) l3(2)] Cons.prems(1) by auto
    then show ?thesis using more_elems [OF t(2) l3(1)] t(1) by blast
  qed
qed simp

text \<open>A key, its colon and its value.\<close>

lemma member_read_back:
  assumes "reads_back sd fp v" and "exact_json v" and "dump_string k = Inr ks" and "dump fp v = Inr p" and "num_end s"
    and "lex_at lx (ks @ '':'' @ p @ s)"
  shows "\<exists>l1 l2 t l3 l4. scan sd lx = (value_string, l1) \<and> token_buffer l1 = k \<and> scan sd l1 = (name_separator, l2) \<and>
    scan sd l2 = (t, l3) \<and> json_value sd t l3 v l4 \<and> lex_at l4 s"
proof -
  obtain out where out: "dump_escaped k = Inr out" "ks = CHR 0x22 # out @ [CHR 0x22]"
    using assms(3) by (auto simp: dump_string_def rbind_Inr)
  let ?r = "'':'' @ p @ s"
  have "token_start (ks @ ?r)" using out(2) by (simp add: token_start_def)
  from scan_start [OF assms(6) this] obtain l0 where l0: "scan sd lx = scan_token sd l0"
    "lex_at l0 (out @ CHR 0x22 # ?r)" "current l0 = 0x22" by (auto simp: tok_at_def out(2))
  obtain l1 where l1: "scan_string l0 = (value_string, l1)" "lex_at l1 ?r" "token_buffer l1 = k"
    using scan_string_printed [OF out(1) l0(2)] by blast
  obtain l2 where l2: "scan sd l1 = (name_separator, l2)" "lex_at l2 (p @ s)" using scan_char [of l1 "CHR '':''" "p @ s" name_separator] l1(2) by auto
  obtain t l3 l4 where "scan sd l2 = (t, l3)" "json_value sd t l3 v l4" "lex_at l4 s"
    using scan_printed [OF assms(1,2,4,5) l2(2)] by blast
  moreover have "scan sd lx = (value_string, l1)" using l0(1,3) l1(1) by (simp add: scan_token_def)
  ultimately show ?thesis using l1(3) l2(1) by blast
qed

definition dump_member :: "(rat \<Rightarrow> string) \<Rightarrow> string \<times> json \<Rightarrow> string result" where
  "dump_member fp = (\<lambda>(k, v). rbind (dump_string k) (\<lambda>ks. rbind (dump fp v) (\<lambda>vs. Inr (ks @ '':'' @ vs))))"

lemma members_read_back:
  assumes "\<And>k v. (k, v) \<in> set m \<Longrightarrow> reads_back sd fp v \<and> exact_json v" and "m \<noteq> []" and "rmap (dump_member fp) m = Inr ps"
    and "lex_at lx (join ps @ CHR ''}'' # s)"
  shows "\<exists>t l1 lx'. scan sd lx = (t, l1) \<and> json_members sd t l1 m lx' \<and> lex_at lx' s"
  using assms
proof (induction m arbitrary: ps lx)
  case (Cons kv m)
  obtain k v where kv: "kv = (k, v)" by fastforce
  obtain ks p qs where p: "dump_string k = Inr ks" "dump fp v = Inr p" "rmap (dump_member fp) m = Inr qs" "ps = (ks @ '':'' @ p) # qs"
    using Cons.prems(3) kv by (auto simp: rbind_Inr dump_member_def)
  have v: "reads_back sd fp v" "exact_json v" using Cons.prems(1) kv by auto
  show ?case
  proof (cases "m = []")
    case True
    then have "lex_at lx (ks @ '':'' @ p @ CHR ''}'' # s)" using Cons.prems(4) p(3,4) by simp
    from member_read_back [OF v p(1,2) _ this] obtain l1 l2 t l3 l4 where t: "scan sd lx = (value_string, l1)" "token_buffer l1 = k"
      "scan sd l1 = (name_separator, l2)" "scan sd l2 = (t, l3)" "json_value sd t l3 v l4" "lex_at l4 (CHR ''}'' # s)" by auto
    obtain lx' where "scan sd l4 = (end_object, lx')" "lex_at lx' s" using scan_char [OF t(6)] by auto
    then show ?thesis using last_member [OF t(3-5)] t(1,2) True kv by blast
  next
    case False
    then obtain q qs' where q: "qs = q # qs'" using p(3) by (cases m) (auto simp: rbind_Inr)
    have "lex_at lx (ks @ '':'' @ p @ CHR '','' # join qs @ CHR ''}'' # s)" using Cons.prems(4) p(4) q by simp
    from member_read_back [OF v p(1,2) _ this] obtain l1 l2 t l3 l4 where t: "scan sd lx = (value_string, l1)" "token_buffer l1 = k"
      "scan sd l1 = (name_separator, l2)" "scan sd l2 = (t, l3)" "json_value sd t l3 v l4"
      "lex_at l4 (CHR '','' # join qs @ CHR ''}'' # s)" by auto
    obtain l5 where l5: "scan sd l4 = (value_separator, l5)" "lex_at l5 (join qs @ CHR ''}'' # s)"
      using scan_char [OF t(6)] by auto
    obtain t' l6 lx' where "scan sd l5 = (t', l6)" "json_members sd t' l6 m lx'" "lex_at lx' s"
      using Cons.IH [OF _ False p(3) l5(2)] Cons.prems(1) by (meson list.set_intros(2))
    then show ?thesis using more_members [OF t(3-5) l5(1)] t(1,2) kv by blast
  qed
qed simp

lemma put_last:
  "(\<forall>k'\<in>set (map fst m). str_less k' k) \<Longrightarrow> obj_put k v m = m @ [(k, v)]"
proof (induction m)
  case (Cons a m)
  then show ?case using str_less_trans [of "fst a" k "fst a"] by (cases a) auto
qed simp

lemma put_all_sorted:
  "sorted_wrt str_less (map fst (us @ m)) \<Longrightarrow> put_all m us = us @ m"
proof (induction m arbitrary: us)
  case (Cons a m)
  obtain k v where a: "a = (k, v)" by fastforce
  have "obj_put k v us = us @ [(k, v)]" using Cons.prems a by (intro put_last) (auto simp: sorted_wrt_append)
  then show ?case using Cons.IH [of "us @ [(k, v)]"] Cons.prems a by simp
qed simp

lemma dump_object: "dump fp (JObject m) =
    (if m = [] then Inr ''{}'' else rbind (rmap (dump_member fp) m) (\<lambda>ps. Inr (''{'' @ join ps @ ''}'')))"
  by (simp add: dump_member_def)

lemma tok_literal:
  assumes "tok_at lx (c # cs @ s)"
  shows "\<exists>lx'. scan_literal (c # cs) t lx = (t, lx') \<and> lex_at lx' s"
  using literal_from_read [of lx cs s t] assms by (simp add: scan_literal_def tok_at_def)

lemma reads_back_scalar:
  "(\<And>s lx. num_end s \<Longrightarrow> tok_at lx (ts @ s) \<Longrightarrow>
      \<exists>t lx'. scan_token sd lx = (t, lx') \<and> scalar_of t lx' = Some j \<and> lex_at lx' s) \<Longrightarrow>
   dump fp j = Inr ts \<Longrightarrow> reads_back sd fp j"
  unfolding reads_back_def using scalar by fastforce

lemma reads_back_string: "reads_back sd fp (JString w)"
  unfolding reads_back_def
proof (intro allI impI)
  fix ts s lx
  assume a: "dump fp (JString w) = Inr ts" "num_end s" "tok_at lx (ts @ s)"
  obtain out where out: "dump_escaped w = Inr out" "ts = CHR 0x22 # out @ [CHR 0x22]"
    using a(1) by (auto simp: dump_string_def rbind_Inr)
  have at: "lex_at lx (out @ CHR 0x22 # s)" "current lx = 0x22" using a(3) out(2) by (simp_all add: tok_at_def)
  obtain lx' where l: "scan_string lx = (value_string, lx')" "lex_at lx' s" "token_buffer lx' = w"
    using scan_string_printed [OF out(1) at(1)] by blast
  then have "scan_token sd lx = (value_string, lx')" using at(2) by (simp add: scan_token_def)
  then show "\<exists>t l1 lx'. scan_token sd lx = (t, l1) \<and> json_value sd t l1 (JString w) lx' \<and> lex_at lx' s"
    using l scalar [of value_string lx' "JString w" sd] by auto
qed

lemma reads_back_array:
  assumes "\<And>v. v \<in> set vs \<Longrightarrow> reads_back sd fp v \<and> exact_json v"
  shows "reads_back sd fp (JArray vs)"
  unfolding reads_back_def
proof (intro allI impI)
  fix ts s lx
  assume a: "dump fp (JArray vs) = Inr ts" "num_end s" "tok_at lx (ts @ s)"
  show "\<exists>t l1 lx'. scan_token sd lx = (t, l1) \<and> json_value sd t l1 (JArray vs) lx' \<and> lex_at lx' s"
  proof (cases "vs = []")
    case True
    then have "scan_token sd lx = (begin_array, lx)" "lex_at lx (CHR '']'' # s)"
      using a(1,3) by (auto simp: tok_at_def scan_token_def)
    then show ?thesis using scan_char [of lx "CHR '']''" s end_array sd] empty_array [of sd lx] True by auto
  next
    case False
    then obtain ps where ps: "rmap (dump fp) vs = Inr ps" "ts = CHR ''['' # join ps @ '']''"
      using a(1) by (auto simp: rbind_Inr)
    then have "scan_token sd lx = (begin_array, lx)" "lex_at lx (join ps @ CHR '']'' # s)"
      using a(3) by (simp_all add: tok_at_def scan_token_def)
    then show ?thesis using elems_read_back [OF assms False ps(1)] elements by blast
  qed
qed

lemma reads_back_object:
  assumes "\<And>k v. (k, v) \<in> set m \<Longrightarrow> reads_back sd fp v \<and> exact_json v" and "sorted_wrt str_less (map fst m)"
  shows "reads_back sd fp (JObject m)"
  unfolding reads_back_def
proof (intro allI impI)
  fix ts s lx
  assume a: "dump fp (JObject m) = Inr ts" "num_end s" "tok_at lx (ts @ s)"
  show "\<exists>t l1 lx'. scan_token sd lx = (t, l1) \<and> json_value sd t l1 (JObject m) lx' \<and> lex_at lx' s"
  proof (cases "m = []")
    case True
    then have "scan_token sd lx = (begin_object, lx)" "lex_at lx (CHR ''}'' # s)"
      using a(1,3) by (auto simp: tok_at_def scan_token_def)
    then show ?thesis using scan_char [of lx "CHR ''}''" s end_object sd] empty_object [of sd lx] True by auto
  next
    case False
    then obtain ps where ps: "rmap (dump_member fp) m = Inr ps" "ts = CHR ''{'' # join ps @ ''}''"
      using a(1) by (auto simp: rbind_Inr dump_object simp del: dump.simps)
    then have l: "scan_token sd lx = (begin_object, lx)" "lex_at lx (join ps @ CHR ''}'' # s)"
      using a(3) by (simp_all add: tok_at_def scan_token_def)
    have "put_all m [] = m" using put_all_sorted [of "[]" m] assms(2) by simp
    moreover obtain t l1 lx' where "scan sd lx = (t, l1)" "json_members sd t l1 m lx'" "lex_at lx' s"
      using members_read_back [OF _ False ps(1) l(2), of sd] assms(1) by blast
    ultimately show ?thesis using members [of sd lx t l1 m lx'] l(1) by auto
  qed
qed

lemma reads_back_word:
  assumes "dump fp j = Inr (c # cs)" and "\<And>lx. scalar_of t lx = Some j"
    and "\<And>lx. current lx = of_char c \<Longrightarrow> scan_token sd lx = scan_literal (c # cs) t lx"
  shows "reads_back sd fp j"
proof (rule reads_back_scalar [OF _ assms(1)])
  fix s lx
  assume a: "tok_at lx ((c # cs) @ s)"
  then have "current lx = of_char c" by (simp add: tok_at_def)
  moreover have "tok_at lx (c # cs @ s)" using a by simp
  ultimately show "\<exists>t lx'. scan_token sd lx = (t, lx') \<and> scalar_of t lx' = Some j \<and> lex_at lx' s"
    using tok_literal [of lx c cs s t] assms(2,3) by auto
qed

lemma reads_back_literal: "reads_back sd fp JNull" "reads_back sd fp (JBool b)"
proof -
  show "reads_back sd fp JNull"
    by (rule reads_back_word [of fp JNull "CHR ''n''" "''ull''" literal_null]) (simp_all add: scan_token_def)
  have "reads_back sd fp (JBool True)"
    by (rule reads_back_word [of fp _ "CHR ''t''" "''rue''" literal_true]) (simp_all add: scan_token_def)
  moreover have "reads_back sd fp (JBool False)"
    by (rule reads_back_word [of fp _ "CHR ''f''" "''alse''" literal_false]) (simp_all add: scan_token_def)
  ultimately show "reads_back sd fp (JBool b)" by (cases b) simp_all
qed

lemma printed_reads_back: "exact_json j \<Longrightarrow> json_wf j \<Longrightarrow> reads_back sd fp j"
proof (induction j)
  case (JInt i)
  then show ?case by (intro reads_back_scalar [of "dump_integer i"]) (auto intro: scan_printed_int)
next
  case (JArray vs)
  then show ?case by (intro reads_back_array) auto
next
  case (JObject m)
  have "(k, v) \<in> set m \<Longrightarrow> reads_back sd fp v \<and> exact_json v" for k v
    using JObject.IH [of "(k, v)" v] JObject.prems by auto
  then show ?case using JObject.prems(2) by (intro reads_back_object) auto
qed (auto intro: reads_back_literal reads_back_string)

lemma parse_dump:
  assumes "exact_json j" and "json_wf j" and "dump fp j = Inr ts"
  shows "parse sd ts = Inr j"
proof -
  obtain l0 where l0: "scan sd (mk_lexer ts) = scan_token sd l0" "tok_at l0 ts"
    using scan_first [OF dump_start [OF assms(3,1)]] by blast
  obtain t l1 lx' where "scan_token sd l0 = (t, l1)" "json_value sd t l1 j lx'" "lex_at lx' []"
    using printed_reads_back [OF assms(1,2), of sd fp] assms(3) l0(2) unfolding reads_back_def
    by (metis append_Nil2 num_end_char(4))
  then show ?thesis using parse_value [of sd ts t l1 j lx'] l0(1) scan_end by simp
qed

section \<open>Properties\<close>

text \<open>C24: Printing and parsing are inverse: what the server prints for a value without floating-point numbers
  (with integers of 64 bits and objects with sorted keys, as those of the library are) is parsed back as
  exactly this value.\<close>

theorem json_roundtrip:
  assumes "exact_json j" and "json_wf j" and "dump fp j = Inr out"
  shows "parse sd out = Inr j"
  by (rule parse_dump [OF assms])

theorem json_roundtrip_witness:
  "\<exists>out. dump (\<lambda>_. []) (JObject [(''a'', JArray [JInt (-7), JNull]), (''b'', JString [CHR 0x22, CHR 0x0A, CHR 0x01])]) = Inr out \<and>
     parse (\<lambda>_. None) out = Inr (JObject [(''a'', JArray [JInt (-7), JNull]), (''b'', JString [CHR 0x22, CHR 0x0A, CHR 0x01])])"
proof -
  let ?j = "JObject [(''a'', JArray [JInt (-7), JNull]), (''b'', JString [CHR 0x22, CHR 0x0A, CHR 0x01])]"
  have "is_ok (dump (\<lambda>_. []) ?j)" by (rule dump_valid) (simp add: ascii_valid ascii_def)
  then obtain out where out: "dump (\<lambda>_. []) ?j = Inr out" by (auto simp: is_ok_def split: sum.splits)
  have "exact_json ?j" "json_wf ?j" by (simp_all del: One_nat_def)
  from json_roundtrip [OF this out, of "\<lambda>_. None"] out show ?thesis by blast
qed

text \<open>C25: Every value that comes out of the parser can be printed again: its strings and keys are valid UTF-8
  (the ones written as \<^verbatim>\<open>\u\<close> escapes included), so the serializer does not throw on them, and the keys of
  its objects are sorted.\<close>

theorem parsed_values_print:
  assumes "parse sd s = Inr j"
  shows "is_ok (dump fp j) \<and> json_wf j"
  using parse_valid [OF assms] dump_valid by blast

theorem parsed_values_print_witness:
  \<open>is_ok (dump (\<lambda>_. []) (JArray [JString [CHR 0xF0, CHR 0x9F, CHR 0x98, CHR 0x80]]))\<close>
proof -
  have \<open>parse (\<lambda>_. None) (''["'' @ [CHR 0x5C] @ ''uD83D'' @ [CHR 0x5C] @ ''uDE00"]'') =
      Inr (JArray [JString [CHR 0xF0, CHR 0x9F, CHR 0x98, CHR 0x80]])\<close> by code_simp
  from parsed_values_print [OF this] show ?thesis by blast
qed

end
