(* ===== verification/Chat_Service.thy ===== *)
theory Chat_Service
  imports Server Sessions Database Json_Roundtrip WebSocket
begin

text \<open>
  \<^verbatim>\<open>src/ChatService\<close> and \<^verbatim>\<open>src/Protocol.h\<close>: accounts, log-in and log-out, chat messages, heartbeats and
  history.  The service is part of the application state of the network model: the database, the two
  DAOs' connections to it, the session manager and the clock.  What is outside the program is the
  record \<open>chat_env\<close>: the MySQL library, SHA-1 and base64 of OpenSSL, the files on disk, \<^verbatim>\<open>strtod\<close>
  and the printing of floating-point numbers, and the bytes an uninitialised local array holds.
\<close>

section \<open>Protocol\<close>

definition MSG_TYPE_REGISTER :: string where "MSG_TYPE_REGISTER = ''register''"
definition MSG_TYPE_LOGIN :: string where "MSG_TYPE_LOGIN = ''login''"
definition MSG_TYPE_LOGOUT :: string where "MSG_TYPE_LOGOUT = ''logout''"
definition MSG_TYPE_CHAT :: string where "MSG_TYPE_CHAT = ''chat''"
definition MSG_TYPE_HEARTBEAT :: string where "MSG_TYPE_HEARTBEAT = ''heartbeat''"
definition MSG_TYPE_GET_HISTORY :: string where "MSG_TYPE_GET_HISTORY = ''get_history''"
definition MSG_TYPE_REGISTER_RESP :: string where "MSG_TYPE_REGISTER_RESP = ''register_resp''"
definition MSG_TYPE_LOGIN_RESP :: string where "MSG_TYPE_LOGIN_RESP = ''login_resp''"
definition MSG_TYPE_LOGOUT_RESP :: string where "MSG_TYPE_LOGOUT_RESP = ''logout_resp''"
definition MSG_TYPE_BROADCAST :: string where "MSG_TYPE_BROADCAST = ''broadcast''"
definition MSG_TYPE_HISTORY :: string where "MSG_TYPE_HISTORY = ''history''"
definition MSG_TYPE_ERROR :: string where "MSG_TYPE_ERROR = ''error''"
definition MSG_TYPE_HEARTBEAT_RESP :: string where "MSG_TYPE_HEARTBEAT_RESP = ''heartbeat_resp''"
definition FIELD_MSG_TYPE :: string where "FIELD_MSG_TYPE = ''msgType''"
definition FIELD_USERNAME :: string where "FIELD_USERNAME = ''username''"
definition FIELD_PASSWORD :: string where "FIELD_PASSWORD = ''password''"
definition FIELD_CONTENT :: string where "FIELD_CONTENT = ''content''"
definition FIELD_SUCCESS :: string where "FIELD_SUCCESS = ''success''"
definition FIELD_ERROR :: string where "FIELD_ERROR = ''error''"
definition FIELD_SENDER :: string where "FIELD_SENDER = ''sender''"
definition FIELD_TIMESTAMP :: string where "FIELD_TIMESTAMP = ''timestamp''"
definition FIELD_SERVER_TIME :: string where "FIELD_SERVER_TIME = ''serverTime''"
definition FIELD_ONLINE_USERS :: string where "FIELD_ONLINE_USERS = ''onlineUsers''"
definition FIELD_MESSAGES :: string where "FIELD_MESSAGES = ''messages''"
definition FIELD_LIMIT :: string where "FIELD_LIMIT = ''limit''"

section \<open>State\<close>

record 'd chat_env =
  api :: "'d mysql_api"
  strtod :: "string \<Rightarrow> rat option"
  ftoa :: "rat \<Rightarrow> string"
  sha1 :: "string \<Rightarrow> string"
  base64 :: "string \<Rightarrow> string"
  files :: "string \<Rightarrow> string option"
  uninit :: "nat \<Rightarrow> u8"

record conn_state =
  isWebSocket :: bool
  handshakeComplete :: bool
  username :: string

record 'd chat_state =
  db :: 'd
  userDb :: db_connection
  messageDb :: db_connection
  sessionMgr :: session_manager
  clk :: "nat \<Rightarrow> int"                 \<comment> \<open>the readings of the clock, in microseconds\<close>
  ticks :: nat
  connectionStates :: "cid \<Rightarrow> conn_state option"

type_synonym 'd cnet = "'d chat_state snet"

definition chat :: "'d cnet \<Rightarrow> 'd chat_state" where
  "chat net = app (usr net)"

definition upd_chat :: "('d chat_state \<Rightarrow> 'd chat_state) \<Rightarrow> 'd cnet \<Rightarrow> 'd cnet" where
  "upd_chat f = upd_usr (\<lambda>s. s\<lparr>app := f (app s)\<rparr>)"

definition upd_sessions :: "(session_manager \<Rightarrow> session_manager) \<Rightarrow> 'd cnet \<Rightarrow> 'd cnet" where
  "upd_sessions f = upd_chat (\<lambda>a. a\<lparr>sessionMgr := f (sessionMgr a)\<rparr>)"

definition read_clock :: "'d cnet \<Rightarrow> int \<times> 'd cnet" where
  "read_clock net = (clk (chat net) (ticks (chat net)), upd_chat (\<lambda>a. a\<lparr>ticks := ticks a + 1\<rparr>) net)"

text \<open>A call of a DAO, which may change the database.\<close>

definition with_db :: "('d \<Rightarrow> ('a \<times> 'd) result) \<Rightarrow> 'd cnet \<Rightarrow> ('a \<times> 'd cnet) result" where
  "with_db f net = rbind (f (db (chat net))) (\<lambda>(x, d). Inr (x, upd_chat (\<lambda>a. a\<lparr>db := d\<rparr>) net))"

definition mkChatService :: "'d chat_env \<Rightarrow> 'd \<Rightarrow> (nat \<Rightarrow> int) \<Rightarrow> 'd chat_state" where
  "mkChatService env d ck =
     \<lparr>db = d, userDb = mkDbConnection (api env) d, messageDb = mkDbConnection (api env) d,
      sessionMgr = mkSessionManager, clk = ck, ticks = 0, connectionStates = Map.empty\<rparr>"

section \<open>Responses\<close>

text \<open>\<^verbatim>\<open>json j; j[k1] = v1; j[k2] = v2; ...\<close>\<close>

fun assign_all :: "json \<Rightarrow> (string \<times> json) list \<Rightarrow> json result" where
  "assign_all j [] = Inr j"
| "assign_all j ((k, v) # kvs) = rbind (index_assign j k v) (\<lambda>j. assign_all j kvs)"

definition dump_object :: "'d chat_env \<Rightarrow> (string \<times> json) list \<Rightarrow> string result" where
  "dump_object env kvs = rbind (assign_all JNull kvs) (dump (ftoa env))"

definition sendResponse :: "cid \<Rightarrow> string \<Rightarrow> 'd cnet \<Rightarrow> 'd cnet" where
  "sendResponse c js net = send c (encodeFrame js) net"

definition createResponse :: "'d chat_env \<Rightarrow> string \<Rightarrow> bool \<Rightarrow> string \<Rightarrow> string result" where
  "createResponse env msgType success err =
     dump_object env ([(FIELD_MSG_TYPE, JString msgType), (FIELD_SUCCESS, JBool success)] @
       (if err \<noteq> [] then [(FIELD_ERROR, JString err)] else []))"

definition respond :: "'d chat_env \<Rightarrow> cid \<Rightarrow> string \<Rightarrow> bool \<Rightarrow> string \<Rightarrow> 'd cnet \<Rightarrow> 'd cnet result" where
  "respond env c msgType success err net =
     rbind (createResponse env msgType success err) (\<lambda>js. Inr (sendResponse c js net))"

section \<open>Handlers\<close>

definition handleRegister ::
  "'d chat_env \<Rightarrow> string \<Rightarrow> string \<Rightarrow> cid \<Rightarrow> string \<Rightarrow> 'd cnet \<Rightarrow> 'd cnet result" where
  "handleRegister env uname pwd c connectionUsername net =
     (if uname = [] \<or> pwd = [] then
        respond env c MSG_TYPE_REGISTER_RESP False ''Username and password cannot be empty'' net
      else rbind (with_db (userExists (api env) (userDb (chat net)) uname) net) (\<lambda>(exists, net).
        if exists then respond env c MSG_TYPE_REGISTER_RESP False ''Username already exists'' net
        else rbind (with_db (\<lambda>d. Inr (insertUser (api env) (userDb (chat net)) uname pwd d)) net) (\<lambda>(success, net).
          if success then respond env c MSG_TYPE_REGISTER_RESP True [] net
          else respond env c MSG_TYPE_REGISTER_RESP False ''Registration failed'' net)))"

definition handleLogin :: "'d chat_env \<Rightarrow> string \<Rightarrow> string \<Rightarrow> cid \<Rightarrow> 'd cnet \<Rightarrow> 'd cnet result" where
  "handleLogin env uname pwd c net =
     (if uname = [] \<or> pwd = [] then
        respond env c MSG_TYPE_LOGIN_RESP False ''Username and password cannot be empty'' net
      else rbind (with_db (verifyUser (api env) (userDb (chat net)) uname pwd) net) (\<lambda>(ok, net).
        if \<not> ok then respond env c MSG_TYPE_LOGIN_RESP False ''Invalid username or password'' net
        else if isOnline uname (sessionMgr (chat net)) then
          respond env c MSG_TYPE_LOGIN_RESP False ''User already logged in'' net
        else rbind (with_db (getUserByUsername (api env) (userDb (chat net)) uname) net) (\<lambda>(user, net).
          let (t, net) = read_clock net;
              net = upd_sessions (addSession t uname c) net
          in rbind (dump_object env
                [(FIELD_MSG_TYPE, JString MSG_TYPE_LOGIN_RESP), (FIELD_SUCCESS, JBool True),
                 (FIELD_ONLINE_USERS, JArray (map JString (getOnlineUsers (sessionMgr (chat net)))))])
               (\<lambda>js. Inr (sendResponse c js net)))))"

definition handleLogout :: "'d chat_env \<Rightarrow> string \<Rightarrow> cid \<Rightarrow> 'd cnet \<Rightarrow> 'd cnet result" where
  "handleLogout env uname c net =
     (let net = upd_sessions (removeSession uname) net
      in rbind (dump_object env [(FIELD_MSG_TYPE, JString MSG_TYPE_LOGOUT_RESP), (FIELD_SUCCESS, JBool True)])
           (\<lambda>js. Inr (shutdown c (sendResponse c js net))))"

definition handleChat :: "'d chat_env \<Rightarrow> string \<Rightarrow> string \<Rightarrow> 'd cnet \<Rightarrow> 'd cnet result" where
  "handleChat env sender text net =
     (if text = [] \<or> \<not> isOnline sender (sessionMgr (chat net)) then Inr net
      else rbind (with_db (getUserByUsername (api env) (userDb (chat net)) sender) net) (\<lambda>(user, net).
        case user of
          None \<Rightarrow> Inr net
        | Some u \<Rightarrow>
            rbind (with_db (\<lambda>d. Inr (saveMessage (api env) (messageDb (chat net)) (user_id u) text d)) net) (\<lambda>(_, net).
              let (t, net) = read_clock net in
              rbind (dump_object env
                  [(FIELD_MSG_TYPE, JString MSG_TYPE_BROADCAST), (FIELD_SENDER, JString sender),
                   (FIELD_CONTENT, JString text), (FIELD_TIMESTAMP, JInt (t div 1000000))])
                (\<lambda>js. Inr (broadcastToAll (encodeFrame js) [] (sessionMgr (chat net)) net)))))"

definition handleHeartbeat :: "'d chat_env \<Rightarrow> string \<Rightarrow> 'd cnet \<Rightarrow> 'd cnet result" where
  "handleHeartbeat env uname net =
     (let net = (if isOnline uname (sessionMgr (chat net)) then
                   (let (t, net) = read_clock net in upd_sessions (updateHeartbeat t uname) net)
                 else net);
          (t, net) = read_clock net
      in case getConnection uname (sessionMgr (chat net)) of
           Some c \<Rightarrow>
             if connected c net then
               rbind (dump_object env [(FIELD_MSG_TYPE, JString MSG_TYPE_HEARTBEAT_RESP),
                   (FIELD_SERVER_TIME, JInt (t div 1000000))])
                 (\<lambda>js. Inr (sendResponse c js net))
             else Inr net
         | None \<Rightarrow> Inr net)"

definition message_json :: "message \<Rightarrow> json result" where
  "message_json m = assign_all JNull
     [(FIELD_SENDER, JString (msg_username m)), (FIELD_CONTENT, JString (msg_content m)),
      (FIELD_TIMESTAMP, JString (msg_timestamp m))]"

definition handleGetHistory :: "'d chat_env \<Rightarrow> cid \<Rightarrow> int \<Rightarrow> 'd cnet \<Rightarrow> 'd cnet result" where
  "handleGetHistory env c limit net =
     rbind (with_db (getRecentMessages (api env) (messageDb (chat net)) limit) net) (\<lambda>(messages, net).
       rbind (rmap message_json messages) (\<lambda>jmsgs.
       rbind (dump_object env [(FIELD_MSG_TYPE, JString MSG_TYPE_HISTORY), (FIELD_MESSAGES, JArray jmsgs)])
         (\<lambda>js. Inr (sendResponse c js net))))"

definition onDisconnect :: "string \<Rightarrow> 'd cnet \<Rightarrow> 'd cnet" where
  "onDisconnect uname net =
     (if uname \<noteq> [] \<and> isOnline uname (sessionMgr (chat net)) then upd_sessions (removeSession uname) net
      else net)"

definition keepMySQLAlive :: "'d chat_env \<Rightarrow> 'd cnet \<Rightarrow> 'd cnet result" where
  "keepMySQLAlive env net =
     rbind (with_db (\<lambda>d. Inr (heartBeat (api env) (userDb (chat net)) d)) net) (\<lambda>(ok, net).
       if \<not> ok then Inl Fatal
       else rbind (with_db (\<lambda>d. Inr (message_heartBeat (api env) (messageDb (chat net)) d)) net) (\<lambda>(ok, net).
         if \<not> ok then Inl Fatal else Inr net))"

section \<open>What the handlers leave alone\<close>

text \<open>Of the whole network state the service changes only its own part of the application state and the
  outgoing side of connections.\<close>

definition srv_rest :: "'a tcp_server \<Rightarrow> 'a tcp_server" where
  "srv_rest s = s\<lparr>app := undefined\<rparr>"

definition framed :: "'d cnet \<Rightarrow> 'd cnet \<Rightarrow> bool" where
  "framed net net' \<longleftrightarrow> curThread net' = curThread net \<and> stale net' = stale net \<and>
     (\<forall>l. threadId (evloops net' l) = threadId (evloops net l)) \<and>
     (\<forall>d. rest_of (conns net' d) = rest_of (conns net d)) \<and>
     srv_rest (usr net') = srv_rest (usr net)"

lemma framed_refl [simp]: "framed net net"
  by (simp add: framed_def)

lemma framed_trans [trans]: "framed a b \<Longrightarrow> framed b c \<Longrightarrow> framed a c"
  by (simp add: framed_def)

lemma same_rest_framed: "same_rest net net' \<Longrightarrow> framed a net' = framed a net"
  by (simp add: same_rest_def framed_def)

lemma framed_net_ops [simp]:
  "framed a (send c d net) = framed a net" "framed a (shutdown c net) = framed a net"
  "framed a (sendResponse c js net) = framed a net" "framed a (broadcastToAll m ex sm net) = framed a net"
  using same_rest_framed [of net "send c d net"] same_rest_framed [of net "shutdown c net"]
    same_rest_framed [of net "sendResponse c js net"] same_rest_framed [of net "broadcastToAll m ex sm net"]
  by (simp_all add: sendResponse_def)

lemma framed_upd_chat [simp]: "framed a (upd_chat f net) = framed a net"
  by (simp add: framed_def upd_chat_def srv_rest_def)

lemma framed_upd_sessions [simp]: "framed a (upd_sessions f net) = framed a net"
  by (simp add: upd_sessions_def)

lemma framed_read_clock [simp]: "framed a (snd (read_clock net)) = framed a net"
  by (simp add: read_clock_def)

lemma with_db_framed: "with_db f net = Inr (x, net') \<Longrightarrow> framed a net' = framed a net"
  by (auto simp: with_db_def rbind_Inr)

lemma respond_framed: "respond env c m ok e net = Inr net' \<Longrightarrow> framed a net' = framed a net"
  by (auto simp: respond_def rbind_Inr)

lemma handlers_framed:
  "handleRegister env u p c cu net = Inr net' \<Longrightarrow> framed net net'"
  "handleLogin env u p c net = Inr net' \<Longrightarrow> framed net net'"
  "handleLogout env u c net = Inr net' \<Longrightarrow> framed net net'"
  "handleChat env u t net = Inr net' \<Longrightarrow> framed net net'"
  "handleHeartbeat env u net = Inr net' \<Longrightarrow> framed net net'"
  "handleGetHistory env c n net = Inr net' \<Longrightarrow> framed net net'"
  "keepMySQLAlive env net = Inr net' \<Longrightarrow> framed net net'"
  "framed net (onDisconnect u net)"
  unfolding handleRegister_def handleLogin_def handleLogout_def handleChat_def handleHeartbeat_def
    handleGetHistory_def keepMySQLAlive_def onDisconnect_def
  by (fastforce simp: rbind_Inr with_db_framed respond_framed Let_def case_prod_unfold
      split: if_splits option.splits)+

lemma srv_rest_part: "srv_rest s = srv_rest t \<Longrightarrow> srv_part s = srv_part t \<and> srv_loop s = srv_loop t"
proof -
  assume e: "srv_rest s = srv_rest t"
  have "srv_part (srv_rest x) = srv_part x \<and> srv_loop (srv_rest x) = srv_loop x" for x :: "'a tcp_server"
    by (simp add: srv_rest_def srv_part_def)
  from this [of s] this [of t] show ?thesis by (simp add: e)
qed

lemma framedD:
  "framed net net' \<Longrightarrow> inputBuffer (conns net' d) = inputBuffer (conns net d)"
  "framed net net' \<Longrightarrow> cn_loop (conns net' d) = cn_loop (conns net d)"
  "framed net net' \<Longrightarrow> cn_name (conns net' d) = cn_name (conns net d)"
  "framed net net' \<Longrightarrow> inLoopThread l net' = inLoopThread l net"
  "framed net net' \<Longrightarrow> srv_part (usr net') = srv_part (usr net)"
  by (auto simp: framed_def rest_of_def inLoopThread_def isInLoopThread_def dest: srv_rest_part)

section \<open>Responses that can be printed\<close>

lemma assign_all_object:
  "assign_all (JObject m) kvs = Inr (JObject (fold (\<lambda>(k, v). obj_put k v) kvs m))"
  by (induction kvs arbitrary: m) (auto simp: index_assign_def rbind_def)

lemma assign_all_null:
  "kvs \<noteq> [] \<Longrightarrow> assign_all JNull kvs = Inr (JObject (fold (\<lambda>(k, v). obj_put k v) kvs []))"
  by (cases kvs) (auto simp: index_assign_def rbind_def assign_all_object)

lemma fold_put_valid:
  "list_all (\<lambda>(k, v). valid_utf8 k \<and> valid_json v) kvs \<Longrightarrow> valid_json (JObject m) \<Longrightarrow>
    valid_json (JObject (fold (\<lambda>(k, v). obj_put k v) kvs m))"
proof (induction kvs arbitrary: m)
  case (Cons p kvs)
  obtain k v where p: "p = (k, v)" by fastforce
  have "valid_json (JObject (obj_put k v m))" using Cons.prems p by (intro obj_put_valid) auto
  then show ?case using Cons.IH [of "obj_put k v m"] Cons.prems p by simp
qed simp

lemma dump_object_ok:
  assumes "kvs \<noteq> []" and "list_all (\<lambda>(k, v). valid_utf8 k \<and> valid_json v) kvs"
  shows "is_ok (dump_object env kvs)"
  using assms fold_put_valid [OF assms(2), of "[]"] dump_valid [of "JObject (fold (\<lambda>(k, v). obj_put k v) kvs [])" "ftoa env"]
  by (simp add: dump_object_def assign_all_null rbind_def)

lemmas protocol_defs =
  MSG_TYPE_REGISTER_def MSG_TYPE_LOGIN_def MSG_TYPE_LOGOUT_def MSG_TYPE_CHAT_def MSG_TYPE_HEARTBEAT_def
  MSG_TYPE_GET_HISTORY_def MSG_TYPE_REGISTER_RESP_def MSG_TYPE_LOGIN_RESP_def MSG_TYPE_LOGOUT_RESP_def
  MSG_TYPE_BROADCAST_def MSG_TYPE_HISTORY_def MSG_TYPE_ERROR_def MSG_TYPE_HEARTBEAT_RESP_def
  FIELD_MSG_TYPE_def FIELD_USERNAME_def FIELD_PASSWORD_def FIELD_CONTENT_def FIELD_SUCCESS_def
  FIELD_ERROR_def FIELD_SENDER_def FIELD_TIMESTAMP_def FIELD_SERVER_TIME_def FIELD_ONLINE_USERS_def
  FIELD_MESSAGES_def FIELD_LIMIT_def

lemma valid_protocol [simp]:
  "valid_utf8 FIELD_MSG_TYPE" "valid_utf8 FIELD_SUCCESS" "valid_utf8 FIELD_ERROR" "valid_utf8 FIELD_ONLINE_USERS" "valid_utf8 FIELD_SENDER"
  "valid_utf8 FIELD_CONTENT" "valid_utf8 FIELD_TIMESTAMP" "valid_utf8 FIELD_SERVER_TIME" "valid_utf8 FIELD_MESSAGES"
  "valid_utf8 MSG_TYPE_REGISTER_RESP" "valid_utf8 MSG_TYPE_LOGIN_RESP" "valid_utf8 MSG_TYPE_LOGOUT_RESP" "valid_utf8 MSG_TYPE_BROADCAST"
  "valid_utf8 MSG_TYPE_HISTORY" "valid_utf8 MSG_TYPE_ERROR" "valid_utf8 MSG_TYPE_HEARTBEAT_RESP"
  by (simp_all add: ascii_valid ascii_def protocol_defs)

lemma respond_total:
  assumes "valid_utf8 m" and "valid_utf8 e"
  obtains js where "createResponse env m ok e = Inr js" "respond env c m ok e net = Inr (sendResponse c js net)"
proof -
  have "is_ok (createResponse env m ok e)"
    unfolding createResponse_def using assms by (intro dump_object_ok) auto
  then show ?thesis using that by (auto simp: is_ok_def respond_def rbind_def split: sum.splits)
qed

end
