(* ===== verification/Chat_Server.thy ===== *)
theory Chat_Server
  imports Chat_Service
begin

text \<open>
  \<^verbatim>\<open>src/ChatServer\<close> and \<^verbatim>\<open>src/main\<close>: the application on top of the network library.  A connection starts
  as HTTP; a request for one of three files is answered from disk, an upgrade request turns the
  connection into a WebSocket, whose text frames carry the JSON messages of the chat.  Exceptions of
  the JSON library other than \<^verbatim>\<open>parse_error\<close> are caught nowhere and end the process.
\<close>

section \<open>The state of a connection\<close>

definition default_state :: conn_state where
  "default_state = \<lparr>isWebSocket = False, handshakeComplete = False, username = []\<rparr>"

text \<open>\<^verbatim>\<open>connectionStates_[conn]\<close> creates a missing entry.\<close>

definition touch_state :: "cid \<Rightarrow> 'd cnet \<Rightarrow> 'd cnet" where
  "touch_state c net = upd_chat (\<lambda>a. a\<lparr>connectionStates :=
     (case connectionStates a c of None \<Rightarrow> (connectionStates a)(c \<mapsto> default_state)
      | Some _ \<Rightarrow> connectionStates a)\<rparr>) net"

definition the_state :: "cid \<Rightarrow> 'd cnet \<Rightarrow> conn_state" where
  "the_state c net = (case connectionStates (chat net) c of None \<Rightarrow> default_state | Some s \<Rightarrow> s)"

definition set_state :: "cid \<Rightarrow> (conn_state \<Rightarrow> conn_state) \<Rightarrow> 'd cnet \<Rightarrow> 'd cnet" where
  "set_state c f net = upd_chat (\<lambda>a. a\<lparr>connectionStates :=
     (connectionStates a)(c \<mapsto> f (the_state c net))\<rparr>) net"

definition getCurrentUsername :: "cid \<Rightarrow> 'd cnet \<Rightarrow> string" where
  "getCurrentUsername c net =
     (case connectionStates (chat net) c of Some s \<Rightarrow> username s | None \<Rightarrow> [])"

section \<open>Connections come and go\<close>

definition onConnection :: "cid \<Rightarrow> 'd cnet \<Rightarrow> 'd cnet result" where
  "onConnection c net =
     (if connected c net then
        Inr (upd_chat (\<lambda>a. a\<lparr>connectionStates := (connectionStates a)(c \<mapsto>
          \<lparr>isWebSocket = False, handshakeComplete = False, username = []\<rparr>)\<rparr>) net)
      else
        (let net = (case connectionStates (chat net) c of
                      Some s \<Rightarrow> if username s \<noteq> [] then onDisconnect (username s) net else net
                    | None \<Rightarrow> net);
             net = upd_chat (\<lambda>a. a\<lparr>connectionStates := (connectionStates a)(c := None)\<rparr>) net
         in Inr (shutdown c net)))"

section \<open>HTTP\<close>

definition http_file :: "string \<Rightarrow> string option" where
  "http_file path =
     (if path = ''/'' \<or> path = ''/chat.html'' then Some ''/home/admin/wcztmdd/MyTestserver/web/chat.html''
      else if path = ''/bg.png'' then Some ''/home/admin/wcztmdd/MyTestserver/web/bg.png''
      else if path = ''/index.html'' then Some ''/home/admin/wcztmdd/MyTestserver/web/index.html''
      else None)"

definition content_type :: "string \<Rightarrow> string" where
  "content_type filePath =
     (if str_find filePath ''.html'' 0 \<noteq> None then ''text/html; charset=utf-8''
      else if str_find filePath ''.png'' 0 \<noteq> None then ''image/png''
      else ''text/plain'')"

definition http_404 :: "string \<Rightarrow> string" where
  "http_404 body = ''HTTP/1.1 404 Not Found'' @ crlf @ ''Content-Type: text/plain'' @ crlf @ crlf @ body"

definition http_header :: "string \<Rightarrow> nat \<Rightarrow> string" where
  "http_header contentType n =
     ''HTTP/1.1 200 OK'' @ crlf @ ''Content-Type: '' @ contentType @ crlf @
     ''Content-Length: '' @ nat_str n @ crlf @ ''Connection: close'' @ crlf @ crlf"

text \<open>The answer to a \<^verbatim>\<open>GET\<close> of \<open>path\<close>.\<close>

definition http_reply :: "'d chat_env \<Rightarrow> cid \<Rightarrow> string \<Rightarrow> 'd cnet \<Rightarrow> 'd cnet" where
  "http_reply env c path net =
     (case http_file path of
        None \<Rightarrow> shutdown c (send c (http_404 ''404 Not Found'') net)
      | Some filePath \<Rightarrow>
          (case files env filePath of
             None \<Rightarrow> shutdown c (send c (http_404 ''File not found'') net)
           | Some body \<Rightarrow>
               shutdown c (send c body (send c (http_header (content_type filePath) (length body)) net))))"

definition handleHttpRequest :: "'d chat_env \<Rightarrow> cid \<Rightarrow> string \<Rightarrow> 'd cnet \<Rightarrow> (bool \<times> 'd cnet) result" where
  "handleHttpRequest env c request net =
     (if isWebSocketUpgrade request then Inr (False, net)
      else rbind (substr request 0 3) (\<lambda>meth.
        if meth = ''GET'' then
          (case str_find request '' '' 4 of
             None \<Rightarrow> Inr (False, net)
           | Some pathEnd \<Rightarrow>
               rbind (substr request 4 (pathEnd - 4)) (\<lambda>path. Inr (True, http_reply env c path net)))
        else Inr (False, net)))"

section \<open>WebSocket messages\<close>

definition handle_json :: "'d chat_env \<Rightarrow> cid \<Rightarrow> json \<Rightarrow> 'd cnet \<Rightarrow> 'd cnet result" where
  "handle_json env c j net =
     rbind (index_read j FIELD_MSG_TYPE) (\<lambda>(v, j).
     rbind (get_string v) (\<lambda>msgType.
       if msgType = MSG_TYPE_REGISTER then
         rbind (value_str j FIELD_USERNAME []) (\<lambda>uname.
         rbind (value_str j FIELD_PASSWORD []) (\<lambda>pwd.
           handleRegister env uname pwd c (username (the_state c net)) net))
       else if msgType = MSG_TYPE_LOGIN then
         rbind (value_str j FIELD_USERNAME []) (\<lambda>uname.
         rbind (value_str j FIELD_PASSWORD []) (\<lambda>pwd.
         rbind (handleLogin env uname pwd c (set_state c (\<lambda>s. s\<lparr>username := uname\<rparr>) net)) (\<lambda>net.
           handleGetHistory env c 50 net)))
       else if msgType = MSG_TYPE_LOGOUT then
         rbind (handleLogout env (username (the_state c net)) c net) (\<lambda>net.
           Inr (set_state c (\<lambda>s. s\<lparr>username := []\<rparr>) net))
       else if msgType = MSG_TYPE_CHAT then
         rbind (value_str j FIELD_CONTENT []) (\<lambda>text.
           handleChat env (username (the_state c net)) text net)
       else if msgType = MSG_TYPE_HEARTBEAT then
         handleHeartbeat env (username (the_state c net)) net
       else if msgType = MSG_TYPE_GET_HISTORY then
         rbind (value_int j FIELD_LIMIT 50) (\<lambda>limit. handleGetHistory env c limit net)
       else Inr net))"

text \<open>The only \<^verbatim>\<open>parse_error\<close> inside the \<^verbatim>\<open>try\<close> block comes from its first statement.\<close>

definition handleWebSocketMessage :: "'d chat_env \<Rightarrow> cid \<Rightarrow> string \<Rightarrow> 'd cnet \<Rightarrow> 'd cnet result" where
  "handleWebSocketMessage env c payload net =
     (let net = touch_state c net in
      case parse (strtod env) payload of
        Inl JsonParseError \<Rightarrow>
          rbind (dump_object env [(FIELD_MSG_TYPE, JString MSG_TYPE_ERROR), (FIELD_ERROR, JString ''Invalid JSON'')])
            (\<lambda>js. Inr (send c (encodeFrame js) net))
      | Inl e \<Rightarrow> Inl e
      | Inr j \<Rightarrow> handle_json env c j net)"

lemma framed_states [simp]:
  "framed a (touch_state c net) = framed a net" "framed a (set_state c f net) = framed a net"
  by (simp_all add: touch_state_def set_state_def)

lemma framed_states_left [simp]:
  "framed (touch_state c net) b = framed net b" "framed (set_state c f net) b = framed net b"
  by (simp_all add: touch_state_def set_state_def framed_def upd_chat_def srv_rest_def)

lemma handle_json_framed: "handle_json env c j net = Inr net' \<Longrightarrow> framed net net'"
  unfolding handle_json_def
  by (auto simp: rbind_Inr split: if_splits
      dest!: handlers_framed(1) handlers_framed(2) handlers_framed(3) handlers_framed(4)
        handlers_framed(5) handlers_framed(6) intro: framed_trans)

lemma handleWebSocketMessage_framed: "handleWebSocketMessage env c payload net = Inr net' \<Longrightarrow> framed net net'"
  by (auto simp: handleWebSocketMessage_def Let_def rbind_Inr split: sum.splits crash.splits
      dest: handle_json_framed)

section \<open>Messages\<close>

definition consume :: "cid \<Rightarrow> nat \<Rightarrow> 'd cnet \<Rightarrow> 'd cnet" where
  "consume c n = upd_conn c (\<lambda>k. k\<lparr>inputBuffer := retrieve n (inputBuffer k)\<rparr>)"

lemma header_pos_ge:
  "extended_len data n 2 = Inr (Some (p, pos)) \<Longrightarrow> masking_key u data m pos = Inr (Some (key, pos')) \<Longrightarrow> 2 \<le> pos'"
  by (auto simp: extended_len_def masking_key_def rbind_def split: if_splits sum.splits)

lemma parseFrame_ret:
  assumes "parseFrame u data msg0 = Inr r" and "ret r"
  shows "\<exists>L. frameLen r = Some L \<and> 2 \<le> L" and "outOpcode r = Some 1 \<or> outOpcode r = Some 8"
proof -
  have "(\<exists>L. frameLen r = Some L \<and> 2 \<le> L) \<and> (outOpcode r = Some 1 \<or> outOpcode r = Some 8)"
  proof (cases rule: parseFrame_cases [of u data msg0])
    case (early oc)
    then show ?thesis using assms by simp
  next
    case (late p pos key pos')
    have "2 \<le> pos' + unat p" using header_pos_ge [OF late(3,4)] by simp
    moreover have "unat (word_of_nat pos' + p) = pos' + unat p" if "\<not> string_max_size < unat p"
      using total_no_wrap(2) [of pos' "unat p"] header_pos(2) [OF late(3,4,1)] that
      by (simp add: string_max_size_def)
    ultimately show ?thesis
      using assms late
      by (auto simp: parseFrame_def byte_at_def rbind_def Let_def split: if_splits sum.splits)
  qed
  then show "\<exists>L. frameLen r = Some L \<and> 2 \<le> L" "outOpcode r = Some 1 \<or> outOpcode r = Some 8" by auto
qed

text \<open>The \<^verbatim>\<open>while\<close> loop of \<^verbatim>\<open>onMessage\<close>.\<close>

function parse_frames :: "'d chat_env \<Rightarrow> cid \<Rightarrow> 'd cnet \<Rightarrow> 'd cnet result" where
  "parse_frames env c net =
     (if readableBytes (inputBuffer (conns net c)) > 0 then
        (case parseFrame (uninit env) (content (inputBuffer (conns net c))) [] of
           Inl e \<Rightarrow> Inl e
         | Inr r \<Rightarrow>
             if ret r then
               if outOpcode r = Some 1 then
                 rbind (if outMessage r \<noteq> [] then handleWebSocketMessage env c (outMessage r) net else Inr net)
                   (\<lambda>net. parse_frames env c (consume c (the (frameLen r)) net))
               else if outOpcode r = Some 8 then Inr (shutdown c net)
               else parse_frames env c (consume c (the (frameLen r)) net)
             else Inr net)
      else Inr net)"
  by auto

lemma size_sub_less: "0 < n \<Longrightarrow> n < size_sub w r \<Longrightarrow> size_sub w (r + n) < size_sub w r"
  by (auto simp: size_sub_def split: if_splits)

lemma readableBytes_retrieve: "0 < n \<Longrightarrow> 0 < readableBytes b \<Longrightarrow> readableBytes (retrieve n b) < readableBytes b"
  by (auto simp: retrieve_def retrieveAll_def readableBytes_def size_sub_less size_sub_def)

termination parse_frames
proof (relation "measure (\<lambda>(env, c, net). readableBytes (inputBuffer (conns net c)))", goal_cases)
  case (2 env c net r net')
  obtain L where L: "frameLen r = Some L" "2 \<le> L" using parseFrame_ret(1) [OF 2(2,3)] by blast
  have "framed net net'"
    using 2(5) handleWebSocketMessage_framed by (auto split: if_splits)
  then show ?case
    using L 2(1) readableBytes_retrieve by (simp add: consume_def framedD(1))
next
  case (3 env c net r)
  then show ?case using parseFrame_ret(2) [OF 3(2,3)] by simp
qed simp

declare parse_frames.simps [simp del]

definition onMessage :: "'d chat_env \<Rightarrow> cid \<Rightarrow> int \<Rightarrow> 'd cnet \<Rightarrow> 'd cnet result" where
  "onMessage env c time net =
     (let net = touch_state c net; st = the_state c net in
      if \<not> handshakeComplete st then
        rbind (retrieveAllAsString (inputBuffer (conns net c))) (\<lambda>(data, b).
          let net = upd_conn c (\<lambda>k. k\<lparr>inputBuffer := b\<rparr>) net in
          rbind (handleHttpRequest env c data net) (\<lambda>(handled, net).
            if handled then Inr net
            else if isWebSocketUpgrade data then
              (let net = set_state c (\<lambda>s. s\<lparr>isWebSocket := True\<rparr>) net in
               rbind (generateHandshakeResponse (sha1 env) (base64 env) data) (\<lambda>response.
                 Inr (set_state c (\<lambda>s. s\<lparr>handshakeComplete := True\<rparr>) (send c response net))))
            else Inr (shutdown c (send c (''HTTP/1.1 400 Bad Request'' @ crlf @ crlf @ ''Bad Request'') net))))
      else if isWebSocket st \<and> handshakeComplete st then parse_frames env c net
      else Inr net)"

definition onTimer :: "'d chat_env \<Rightarrow> 'd cnet \<Rightarrow> 'd cnet result" where
  "onTimer env = keepMySQLAlive env"

section \<open>The server\<close>

definition chat_callbacks :: "'d chat_env \<Rightarrow> 'd chat_state tcp_server callbacks" where
  "chat_callbacks env = \<lparr>connectionCallback = onConnection, messageCallback = onMessage env,
     closeCb = removeConnection, writeCompleteCallback = (\<lambda>c. Inr), highWaterMarkCallback = (\<lambda>c n. Inr)\<rparr>"

definition mkChatServer ::
  "'d chat_env \<Rightarrow> lid \<Rightarrow> string \<Rightarrow> string \<Rightarrow> cptr \<Rightarrow> int \<Rightarrow> (nat \<Rightarrow> cid \<times> cptr \<times> write_result list) \<Rightarrow>
    'd \<Rightarrow> (nat \<Rightarrow> int) \<Rightarrow> 'd chat_state tcp_server" where
  "mkChatServer env loop addr nm p afd al d ck =
     (let s = mkTcpServer loop addr nm p afd al (mkChatService env d ck)
      in s\<lparr>pool := setThreadNum 3 (pool s)\<rparr>)"

text \<open>The constructor also starts the timer that keeps the database connections alive.\<close>

definition startTimer :: "'d cnet \<Rightarrow> 'd cnet" where
  "startTimer net = upd_loop (srv_loop (usr net)) (\<lambda>l. snd (runEvery_loop (60 * 60 * 3) [] l)) net"

section \<open>Sessions and connection states\<close>

lemma chat_upd [simp]:
  "chat (upd_chat f net) = f (chat net)"
  "chat (upd_sessions g net) = (chat net)\<lparr>sessionMgr := g (sessionMgr (chat net))\<rparr>"
  "chat (upd_conn c h net) = chat net"
  by (simp_all add: chat_def upd_chat_def upd_sessions_def)

lemma chat_net [simp]:
  "chat (send c d net) = chat net" "chat (shutdown c net) = chat net" "chat (sendResponse c js net) = chat net"
  "chat (broadcastToAll m ex sm net) = chat net"
  using same_restD(1) [of net "send c d net"] same_restD(1) [of net "shutdown c net"]
    same_restD(1) [of net "sendResponse c js net"] same_restD(1) [of net "broadcastToAll m ex sm net"]
  by (simp_all add: chat_def sendResponse_def)

lemma chat_consume [simp]: "chat (consume c n net) = chat net"
  by (simp add: consume_def)

lemma clock_keeps [simp]:
  "sessionMgr (chat (snd (read_clock net))) = sessionMgr (chat net)"
  "connectionStates (chat (snd (read_clock net))) = connectionStates (chat net)"
  "db (chat (snd (read_clock net))) = db (chat net)"
  by (simp_all add: read_clock_def)

lemma with_db_keeps:
  assumes "with_db f net = Inr (x, net')"
  shows "sessionMgr (chat net') = sessionMgr (chat net)" "connectionStates (chat net') = connectionStates (chat net)"
    "userDb (chat net') = userDb (chat net)" "messageDb (chat net') = messageDb (chat net)"
  using assms by (auto simp: with_db_def rbind_Inr)

lemma respond_keeps: "respond env c m ok e net = Inr net' \<Longrightarrow> chat net' = chat net"
  by (auto simp: respond_def rbind_Inr)

lemma state_ops [simp]:
  "sessionMgr (chat (touch_state c net)) = sessionMgr (chat net)"
  "sessionMgr (chat (set_state c f net)) = sessionMgr (chat net)"
  "the_state d (set_state c f net) = (if d = c then f (the_state c net) else the_state d net)"
  "the_state d (touch_state c net) = the_state d net"
  "db (chat (touch_state c net)) = db (chat net)" "db (chat (set_state c f net)) = db (chat net)"
  "userDb (chat (touch_state c net)) = userDb (chat net)" "userDb (chat (set_state c f net)) = userDb (chat net)"
  by (auto simp: touch_state_def set_state_def the_state_def split: option.split)

text \<open>Every handler's effect on the sessions, and that none touches the table of connection states.\<close>

lemma handlers_sessions:
  "handleRegister env u p c cu net = Inr net' \<Longrightarrow> sessionMgr (chat net') = sessionMgr (chat net)"
  "handleChat env u t net = Inr net' \<Longrightarrow> sessionMgr (chat net') = sessionMgr (chat net)"
  "handleGetHistory env c n net = Inr net' \<Longrightarrow> sessionMgr (chat net') = sessionMgr (chat net)"
  "keepMySQLAlive env net = Inr net' \<Longrightarrow> sessionMgr (chat net') = sessionMgr (chat net)"
  "handleLogout env u c net = Inr net' \<Longrightarrow> sessionMgr (chat net') = removeSession u (sessionMgr (chat net))"
  unfolding handleRegister_def handleChat_def handleGetHistory_def keepMySQLAlive_def handleLogout_def
  by (fastforce simp: rbind_Inr Let_def case_prod_unfold split: if_splits option.splits
      dest: with_db_keeps(1) respond_keeps)+

lemma handleHeartbeat_sessions:
  assumes "handleHeartbeat env u net = Inr net'"
  shows "sessionMgr (chat net') = sessionMgr (chat net) \<or> (\<exists>t. sessionMgr (chat net') = updateHeartbeat t u (sessionMgr (chat net)))"
  using assms unfolding handleHeartbeat_def
  by (fastforce simp: rbind_Inr Let_def case_prod_unfold split: if_splits option.splits)

lemma handleLogin_sessions:
  assumes "handleLogin env u p c net = Inr net'"
  shows "sessionMgr (chat net') = sessionMgr (chat net) \<or>
    u \<noteq> [] \<and> \<not> isOnline u (sessionMgr (chat net)) \<and> (\<exists>t. sessionMgr (chat net') = addSession t u c (sessionMgr (chat net)))"
  using assms unfolding handleLogin_def
  by (fastforce simp: rbind_Inr Let_def case_prod_unfold split: if_splits
      dest: with_db_keeps(1) respond_keeps)

lemma handlers_states:
  "handleRegister env u p c cu net = Inr net' \<Longrightarrow> connectionStates (chat net') = connectionStates (chat net)"
  "handleLogin env u p c net = Inr net' \<Longrightarrow> connectionStates (chat net') = connectionStates (chat net)"
  "handleLogout env u c net = Inr net' \<Longrightarrow> connectionStates (chat net') = connectionStates (chat net)"
  "handleChat env u t net = Inr net' \<Longrightarrow> connectionStates (chat net') = connectionStates (chat net)"
  "handleHeartbeat env u net = Inr net' \<Longrightarrow> connectionStates (chat net') = connectionStates (chat net)"
  "handleGetHistory env c n net = Inr net' \<Longrightarrow> connectionStates (chat net') = connectionStates (chat net)"
  unfolding handleRegister_def handleLogin_def handleLogout_def handleChat_def handleHeartbeat_def
    handleGetHistory_def
  by (fastforce simp: rbind_Inr Let_def case_prod_unfold split: if_splits option.splits
      dest: with_db_keeps(2) respond_keeps)+

definition sessions_ok :: "session_manager \<Rightarrow> bool" where
  "sessions_ok m \<longleftrightarrow> sessions_wf m \<and> \<not> isOnline [] m"

lemma sessions_ok_ops:
  "sessions_ok m \<Longrightarrow> u \<noteq> [] \<Longrightarrow> sessions_ok (addSession t u c m)"
  "sessions_ok m \<Longrightarrow> sessions_ok (removeSession u m)"
  "sessions_ok m \<Longrightarrow> sessions_ok (updateHeartbeat t u m)"
  by (auto simp: sessions_ok_def smgr.inv_add smgr.inv_remove smgr.inv_touch smgr.online_add
      smgr.online_remove smgr.online_touch)

lemma handle_json_sessions:
  assumes "sessions_ok (sessionMgr (chat net))" and "handle_json env c j net = Inr net'"
  shows "sessions_ok (sessionMgr (chat net'))"
  using assms unfolding handle_json_def
  by (auto simp: rbind_Inr sessions_ok_ops split: if_splits
      dest!: handlers_sessions handleLogin_sessions handleHeartbeat_sessions)

lemma handleWebSocketMessage_sessions:
  assumes "sessions_ok (sessionMgr (chat net))" and "handleWebSocketMessage env c pl net = Inr net'"
  shows "sessions_ok (sessionMgr (chat net'))"
  using assms handle_json_sessions [of "touch_state c net" env c _ net']
  by (auto simp: handleWebSocketMessage_def Let_def rbind_Inr split: sum.splits crash.splits)

text \<open>One turn of the frame loop.\<close>

lemma parse_frames_cases:
  assumes "parse_frames env c net = Inr net'"
  obtains (stop) "net' = net"
  | (close) "net' = shutdown c net"
  | (frame) r net1 where "0 < readableBytes (inputBuffer (conns net c))"
    "parseFrame (uninit env) (content (inputBuffer (conns net c))) [] = Inr r" "ret r" "outOpcode r = Some 1"
    "(if outMessage r \<noteq> [] then handleWebSocketMessage env c (outMessage r) net else Inr net) = Inr net1"
    "parse_frames env c (consume c (the (frameLen r)) net1) = Inr net'"
  using assms parse_frames.simps [of env c net] parseFrame_ret(2)
  by (auto simp: rbind_Inr split: if_splits sum.splits) blast

lemma parse_frames_sessions:
  "sessions_ok (sessionMgr (chat net)) \<Longrightarrow> parse_frames env c net = Inr net' \<Longrightarrow> sessions_ok (sessionMgr (chat net'))"
proof (induction env c net rule: parse_frames.induct)
  case (1 env c net)
  from "1.prems"(2) show ?case
  proof (cases rule: parse_frames_cases)
    case (frame r net1)
    have "sessions_ok (sessionMgr (chat net1))"
      using frame(5) "1.prems"(1) handleWebSocketMessage_sessions by (auto split: if_splits)
    then show ?thesis using "1.IH"(1) [OF frame(1-5)] frame(6) by simp
  qed (use "1.prems"(1) in simp_all)
qed

lemma onConnection_sessions:
  "sessions_ok (sessionMgr (chat net)) \<Longrightarrow> onConnection c net = Inr net' \<Longrightarrow> sessions_ok (sessionMgr (chat net'))"
  by (auto simp: onConnection_def onDisconnect_def Let_def sessions_ok_ops split: if_splits option.splits)

lemma http_reply_chat [simp]: "chat (http_reply env c path net) = chat net"
  by (simp add: http_reply_def split: option.split)

lemma handleHttpRequest_chat: "handleHttpRequest env c rq net = Inr (b, net') \<Longrightarrow> chat net' = chat net"
  by (auto simp: handleHttpRequest_def rbind_Inr split: if_splits option.splits)

lemma onMessage_sessions:
  assumes "sessions_ok (sessionMgr (chat net))" and "onMessage env c t net = Inr net'"
  shows "sessions_ok (sessionMgr (chat net'))"
  using assms parse_frames_sessions [of "touch_state c net" env c net']
  by (auto simp: onMessage_def Let_def rbind_Inr split: if_splits dest!: handleHttpRequest_chat)

text \<open>The application runs by its three callbacks; everything else leaves its state alone.\<close>

inductive chat_reach :: "'d chat_env \<Rightarrow> 'd cnet \<Rightarrow> 'd cnet \<Rightarrow> bool" for env net0 where
  chat_init: "chat_reach env net0 net0"
| chat_connection: "chat_reach env net0 net \<Longrightarrow> onConnection c net = Inr net' \<Longrightarrow> chat_reach env net0 net'"
| chat_message: "chat_reach env net0 net \<Longrightarrow> onMessage env c t net = Inr net' \<Longrightarrow> chat_reach env net0 net'"
| chat_timer: "chat_reach env net0 net \<Longrightarrow> onTimer env net = Inr net' \<Longrightarrow> chat_reach env net0 net'"
| chat_other: "chat_reach env net0 net \<Longrightarrow> chat net' = chat net \<Longrightarrow> chat_reach env net0 net'"

lemma chat_reach_sessions:
  "chat_reach env net0 net \<Longrightarrow> sessions_ok (sessionMgr (chat net0)) \<Longrightarrow> sessions_ok (sessionMgr (chat net))"
proof (induction rule: chat_reach.induct)
  case (chat_timer net net')
  then show ?case using handlers_sessions(4) [of env net net'] by (simp add: onTimer_def)
qed (auto intro: onConnection_sessions onMessage_sessions)

section \<open>The chat as an application of the server\<close>

lemma onConnection_down:
  assumes "cn_state (conns net c) \<noteq> kConnected"
  shows "\<exists>net'. onConnection c net = Inr net' \<and> conns net' = conns net \<and> evloops net' = evloops net \<and>
    curThread net' = curThread net \<and> srv_rest (usr net') = srv_rest (usr net) \<and>
    connectionStates (chat net') c = None \<and>
    sessionMgr (chat net') = (case connectionStates (chat net) c of
        Some s \<Rightarrow> if username s \<noteq> [] \<and> isOnline (username s) (sessionMgr (chat net))
          then removeSession (username s) (sessionMgr (chat net)) else sessionMgr (chat net)
      | None \<Rightarrow> sessionMgr (chat net))"
  using assms
  by (auto simp: onConnection_def connected_def onDisconnect_def shutdown_def Let_def upd_chat_def upd_sessions_def
      srv_rest_def chat_def split: option.split)

lemma chat_app_only: "app_only (chat_callbacks env) c"
  unfolding app_only_def
proof (intro allI impI)
  fix net :: "'a cnet"
  assume "cn_state (conns net c) = kDisconnected"
  then have "cn_state (conns net c) \<noteq> kConnected" by simp
  from onConnection_down [OF this] obtain net' where n: "onConnection c net = Inr net'" "conns net' = conns net"
    "evloops net' = evloops net" "curThread net' = curThread net" "srv_rest (usr net') = srv_rest (usr net)" by blast
  then show "\<exists>net'. connectionCallback (chat_callbacks env) c net = Inr net' \<and> conns net' = conns net \<and>
      evloops net' = evloops net \<and> curThread net' = curThread net \<and> srv_loop (usr net') = srv_loop (usr net) \<and>
      srv_part (usr net') = srv_part (usr net)"
    using srv_rest_part [OF n(5)] by (intro exI [of _ net']) (simp add: chat_callbacks_def)
qed

lemma chat_keeps_server: "keeps_server (chat_callbacks env)"
proof -
  have "srv_part (usr net') = srv_part (usr net)" if "onConnection c net = Inr net'" for c and net net' :: "'a cnet"
  proof -
    have "framed net net'"
      using that by (auto simp: onConnection_def onDisconnect_def Let_def split: if_splits option.splits)
    then show ?thesis by (rule framedD(5))
  qed
  then show ?thesis by (simp add: keeps_server_def chat_callbacks_def)
qed

interpretation chat_app: server_app "chat_callbacks env" for env
  by unfold_locales (rule chat_keeps_server chat_app_only)+

section \<open>A concrete environment\<close>

definition demo_env :: "demo_db chat_env" where
  "demo_env = \<lparr>api = demo_api, strtod = (\<lambda>_. None), ftoa = (\<lambda>_. []), sha1 = (\<lambda>s. s), base64 = (\<lambda>s. s),
     files = (\<lambda>f. Some ''<html>''), uninit = (\<lambda>_. 0)\<rparr>"

definition demo_chat :: "demo_db \<Rightarrow> session_manager \<Rightarrow> demo_db cnet" where
  "demo_chat d m = demo_net (demo_conn [] [])
     (demo_server ((mkChatService demo_env d (\<lambda>i. 5000000))\<lparr>sessionMgr := m\<rparr>))"

lemma demo_env_sel [simp]:
  "api demo_env = demo_api" "strtod demo_env = (\<lambda>_. None)"
  "files demo_env f = Some ''<html>''"
  by (simp_all add: demo_env_def)

lemma demo_chat_sel [simp]:
  "sessionMgr (chat (demo_chat d m)) = m" "db (chat (demo_chat d m)) = d"
  "db_connected (userDb (chat (demo_chat d m)))" "connectionStates (chat (demo_chat d m)) = Map.empty"
  "conns (demo_chat d m) c = demo_conn [] []" "inLoopThread l (demo_chat d m)"
  by (simp_all add: demo_chat_def chat_def demo_server_def mkTcpServer_def mkChatService_def
      mkDbConnection_def demo_env_def demo_api_def)

section \<open>Logging in\<close>

lemma handleLogin_table:
  assumes "escapes (api env)" and "users_table (api env) tbl" and "db_connected (userDb (chat net))"
    and "handleLogin env u p c net = Inr net'"
  defines "s \<equiv> sessionMgr (chat net)"
  shows "getConnection v (sessionMgr (chat net')) =
    (if u \<noteq> [] \<and> p \<noteq> [] \<and> (\<exists>i. tbl (db (chat net)) u = Some (i, p)) \<and> \<not> isOnline u s \<and> v = u
     then Some c else getConnection v s)"
  using assms(4) unfolding s_def handleLogin_def
  by (auto simp: verifyUser_table [OF assms(1,2,3)] with_db_def rbind_Inr Let_def case_prod_unfold
      getConnection_simps getUserByUsername_table [OF assms(1,2)] assms(3) split: if_splits dest!: respond_keeps)

lemma handleLogin_total:
  assumes T: "escapes (api env)" "users_table (api env) tbl" "db_connected (userDb (chat net))"
    and "valid_utf8 u" and "\<And>v. isOnline v (sessionMgr (chat net)) \<Longrightarrow> valid_utf8 v"
  shows "\<exists>net'. handleLogin env u p c net = Inr net'"
proof -
  have r: "\<exists>net'. respond env c MSG_TYPE_LOGIN_RESP False e n = Inr net'" if "valid_utf8 e" for e and n :: "'a cnet"
    by (rule respond_total [of MSG_TYPE_LOGIN_RESP e env False c n]) (use that in auto)
  have lit: "valid_utf8 ''Username and password cannot be empty''" "valid_utf8 ''Invalid username or password''"
    "valid_utf8 ''User already logged in''" by (simp_all add: ascii_valid ascii_def)
  have "valid_utf8 v" if "v \<in> set (getOnlineUsers (addSession t u c (sessionMgr (chat net))))" for v t
    using that assms(4,5) by (auto simp: smgr.users_set smgr.online_add)
  then have d: "is_ok (dump_object env [(FIELD_MSG_TYPE, JString MSG_TYPE_LOGIN_RESP), (FIELD_SUCCESS, JBool True),
       (FIELD_ONLINE_USERS, JArray (map JString (getOnlineUsers (addSession t u c (sessionMgr (chat net))))))])" for t
    by (intro dump_object_ok) (auto simp: list_all_iff)
  have dn: "dump_object env [(FIELD_MSG_TYPE, JString MSG_TYPE_LOGIN_RESP), (FIELD_SUCCESS, JBool True),
       (FIELD_ONLINE_USERS, JArray (map JString (getOnlineUsers (addSession t u c (sessionMgr (chat net))))))] \<noteq> Inl x" for t x
    using d [of t] by (auto simp: is_ok_def)
  show ?thesis
    using r [OF lit(1)] r [OF lit(2)] r [OF lit(3)] T(3)
    by (auto simp: handleLogin_def verifyUser_table [OF T] getUserByUsername_table [OF T(1,2)] dn
        with_db_def rbind_def Let_def case_prod_unfold split: sum.splits)
qed

section \<open>Properties\<close>

text \<open>C3: logging in.  On a database that answers as a table of users, a log-in request opens a session
  exactly when name and password are not empty, the password is the one stored for the name and the
  user is not online already; the session belongs to the requesting connection; the sessions of all
  other users stay as they are, and so does the user's own when the user is online already.\<close>

theorem login_opens_session_iff:
  assumes "escapes (api env)" and "users_table (api env) tbl" and "db_connected (userDb (chat net))"
    and "handleLogin env u p c net = Inr net'"
  shows "(isOnline u (sessionMgr (chat net')) \<and> \<not> isOnline u (sessionMgr (chat net)) \<longleftrightarrow>
      u \<noteq> [] \<and> p \<noteq> [] \<and> (\<exists>i. tbl (db (chat net)) u = Some (i, p)) \<and> \<not> isOnline u (sessionMgr (chat net))) \<and>
    (isOnline u (sessionMgr (chat net')) \<and> \<not> isOnline u (sessionMgr (chat net)) \<longrightarrow>
      getConnection u (sessionMgr (chat net')) = Some c) \<and>
    (\<forall>v. v \<noteq> u \<or> isOnline u (sessionMgr (chat net)) \<longrightarrow>
      getConnection v (sessionMgr (chat net')) = getConnection v (sessionMgr (chat net)))"
  using handleLogin_table [OF assms] by (auto simp: smgr.online_iff)

theorem login_opens_session_iff_witness:
  "\<exists>net'. handleLogin demo_env ''bob'' ''pw'' 3
      (demo_chat [''bob'' \<mapsto> (''1'', ''pw'')] mkSessionManager) = Inr net' \<and>
     getConnection ''bob'' (sessionMgr (chat net')) = Some 3"
proof -
  let ?env = "demo_env" and ?net = "demo_chat [''bob'' \<mapsto> (''1'', ''pw'')] mkSessionManager"
  have e: "escapes (api ?env)" and t: "users_table (api ?env) (\<lambda>d. d)" and k: "db_connected (userDb (chat ?net))"
    by (simp_all add: demo_escapes demo_users_table)
  have none: "\<not> isOnline v (sessionMgr (chat ?net))" for v by (simp add: isOnline_def mkSessionManager_def)
  obtain net' where n: "handleLogin ?env ''bob'' ''pw'' 3 ?net = Inr net'"
    using handleLogin_total [OF e t k, of "''bob''" "''pw''" 3] none by (auto simp: ascii_valid ascii_def)
  show ?thesis
    using login_opens_session_iff [OF e t k n] none [of "''bob''"] n by simp
qed

text \<open>C12: in every state the chat server reaches, no user has two sessions and nobody is online under the
  empty name (the name of a connection nobody has logged in on).\<close>

theorem sessions_stay_consistent:
  assumes "chat_reach env net0 net" and "sessionMgr (chat net0) = mkSessionManager"
  shows "distinct (getOnlineUsers (sessionMgr (chat net))) \<and> \<not> isOnline [] (sessionMgr (chat net))"
proof -
  have "sessions_ok (sessionMgr (chat net0))"
    by (simp add: assms(2) sessions_ok_def sessions_wf_def mkSessionManager_def isOnline_def)
  then have "sessions_ok (sessionMgr (chat net))" using chat_reach_sessions [OF assms(1)] by simp
  then show ?thesis using smgr.users_distinct by (simp add: sessions_ok_def)
qed

theorem sessions_stay_consistent_witness:
  "\<exists>net. onConnection 2 (demo_chat Map.empty mkSessionManager) = Inr net \<and>
     \<not> isOnline [] (sessionMgr (chat net))"
proof -
  let ?n0 = "demo_chat Map.empty mkSessionManager"
  obtain net where n: "onConnection 2 ?n0 = Inr net"
    by (cases "connected 2 ?n0") (auto simp: onConnection_def Let_def)
  have "chat_reach demo_env ?n0 net" by (rule chat_connection [OF chat_init n])
  from sessions_stay_consistent [OF this] show ?thesis using n by auto
qed

end
