(* ===== verification/Chat_Security.thy ===== *)
theory Chat_Security
  imports Chat_Server
begin

text \<open>
  What a client of the chat can do to others: what a failed log-in leaves behind, who gets the
  history, and which messages end the process.  The theorems are about \<^verbatim>\<open>ChatServer::handleWebSocketMessage\<close>
  together with the handlers of \<^verbatim>\<open>ChatService\<close> it calls.
\<close>

section \<open>Requests\<close>

definition login_json :: "string \<Rightarrow> string \<Rightarrow> json" where
  "login_json u p = JObject [(FIELD_MSG_TYPE, JString MSG_TYPE_LOGIN), (FIELD_PASSWORD, JString p), (FIELD_USERNAME, JString u)]"

definition chat_json :: "string \<Rightarrow> json" where
  "chat_json t = JObject [(FIELD_CONTENT, JString t), (FIELD_MSG_TYPE, JString MSG_TYPE_CHAT)]"

lemmas json_reads = index_read_def get_string_def value_str_def value_with_def obj_get_def rbind_def

lemma handle_login_json:
  "handle_json env c (login_json u p) net =
     rbind (handleLogin env u p c (set_state c (\<lambda>s. s\<lparr>username := u\<rparr>) net)) (handleGetHistory env c 50)"
  by (simp add: handle_json_def login_json_def json_reads protocol_defs)

lemma handle_chat_json:
  "handle_json env c (chat_json t) net = handleChat env (username (the_state c net)) t net"
  by (simp add: handle_json_def chat_json_def json_reads protocol_defs)

lemma upd_chat_same: "d = db (chat net) \<Longrightarrow> upd_chat (\<lambda>a. a\<lparr>db := d\<rparr>) net = net"
  by (simp add: upd_chat_def upd_usr_def chat_def)

lemma the_state_handlers:
  assumes "connectionStates (chat net') = connectionStates (chat net)"
  shows "the_state d net' = the_state d net"
  using assms by (simp add: the_state_def)

text \<open>What a log-in request does to the sessions and to the name of the connection.\<close>

lemma login_request:
  assumes "escapes (api env)" and "users_table (api env) tbl" and "db_connected (userDb (chat net))"
    and "handle_json env c (login_json u p) net = Inr net1"
  shows "getConnection v (sessionMgr (chat net1)) =
      (if u \<noteq> [] \<and> p \<noteq> [] \<and> (\<exists>i. tbl (db (chat net)) u = Some (i, p)) \<and> \<not> isOnline u (sessionMgr (chat net)) \<and> v = u
       then Some c else getConnection v (sessionMgr (chat net)))"
    and "connectionStates (chat net1) = (connectionStates (chat net))(c \<mapsto> (the_state c net)\<lparr>username := u\<rparr>)"
proof -
  let ?n = "set_state c (\<lambda>s. s\<lparr>username := u\<rparr>) net"
  obtain m where l: "handleLogin env u p c ?n = Inr m" and h: "handleGetHistory env c 50 m = Inr net1"
    using assms(4) by (auto simp: handle_login_json rbind_Inr)
  have k: "db_connected (userDb (chat ?n))" using assms(3) by simp
  show "getConnection v (sessionMgr (chat net1)) =
      (if u \<noteq> [] \<and> p \<noteq> [] \<and> (\<exists>i. tbl (db (chat net)) u = Some (i, p)) \<and> \<not> isOnline u (sessionMgr (chat net)) \<and> v = u
       then Some c else getConnection v (sessionMgr (chat net)))"
    using handleLogin_table [OF assms(1,2) k l, of v] handlers_sessions(3) [OF h] by simp
  show "connectionStates (chat net1) = (connectionStates (chat net))(c \<mapsto> (the_state c net)\<lparr>username := u\<rparr>)"
    using handlers_states(2) [OF l] handlers_states(6) [OF h] by (simp add: set_state_def)
qed

text \<open>A room without message history, in which every log-in request goes through.\<close>

definition quiet_room :: "demo_db cnet" where
  "quiet_room = upd_chat (\<lambda>a. a\<lparr>messageDb := \<lparr>db_connected = False\<rparr>\<rparr>)
    (demo_chat [''ann'' \<mapsto> (''1'', ''pw'')] demo_sessions)"

lemma quiet_room_sel [simp]:
  "sessionMgr (chat quiet_room) = demo_sessions" "db (chat quiet_room) = [''ann'' \<mapsto> (''1'', ''pw'')]"
  "db_connected (userDb (chat quiet_room))" "\<not> db_connected (messageDb (chat quiet_room))"
  by (simp_all add: quiet_room_def)

lemma demo_online: "getConnection u demo_sessions = (if u = ''bob'' then Some 1 else if u = ''ann'' then Some 0 else None)"
  by (simp add: demo_sessions_def getConnection_simps) (simp add: getConnection_def mkSessionManager_def)

lemma quiet_room_login:
  assumes "ascii u"
  obtains net1 where "handle_json demo_env c (login_json u p) quiet_room = Inr net1"
proof -
  let ?env = "demo_env" and ?n = "set_state c (\<lambda>s. s\<lparr>username := u\<rparr>) quiet_room"
  have e: "escapes (api ?env)" and t: "users_table (api ?env) (\<lambda>d. d)" and k: "db_connected (userDb (chat ?n))"
    by (simp_all add: demo_escapes demo_users_table)
  have "valid_utf8 v" if "isOnline v (sessionMgr (chat ?n))" for v
    using that by (auto simp: smgr.online_iff demo_online ascii_valid ascii_def split: if_splits)
  then obtain m where l: "handleLogin ?env u p c ?n = Inr m"
    using handleLogin_total [OF e t k, of u p c] assms by (auto simp: ascii_valid)
  have d: "is_ok (dump_object ?env [(FIELD_MSG_TYPE, JString MSG_TYPE_HISTORY), (FIELD_MESSAGES, JArray [])])"
    by (intro dump_object_ok) simp_all
  have "messageDb (chat m) = messageDb (chat ?n)"
    using l by (auto simp: handleLogin_def rbind_Inr Let_def case_prod_unfold read_clock_def split: if_splits
        dest!: with_db_keeps(4) respond_keeps)
  then have "\<not> db_connected (messageDb (chat m))" by (simp add: set_state_def)
  then obtain net1 where "handleGetHistory ?env c 50 m = Inr net1"
    using d by (auto simp: handleGetHistory_def getRecentMessages_def with_db_def rbind_def is_ok_def split: sum.splits)
  then show ?thesis using that by (simp add: handle_login_json l rbind_def)
qed

section \<open>Properties\<close>

text \<open>C32: a failed log-in still changes who a connection speaks for.  After a log-in request with a wrong
  password for a user who is online, the connection's name is that user's although no session was
  opened for it; a chat message sent on it is then handled as that user's (here \<open>victim\<close> is still
  online on its own connection), and when the connection goes down, the user's session is removed.\<close>

theorem failed_login_takes_name:
  assumes "escapes (api env)" and "users_table (api env) tbl" and "db_connected (userDb (chat net))"
    and "tbl (db (chat net)) victim = Some (i, pw)" and "guess \<noteq> pw"
    and "getConnection victim (sessionMgr (chat net)) = Some owner"
    and "handle_json env c (login_json victim guess) net = Inr net1"
  shows "getConnection victim (sessionMgr (chat net1)) = Some owner \<and>
    handle_json env c (chat_json text) net1 = handleChat env victim text net1 \<and>
    (cn_state (conns net2 c) \<noteq> kConnected \<and> chat net2 = chat net1 \<and> victim \<noteq> [] \<longrightarrow>
      (\<exists>net3. onConnection c net2 = Inr net3 \<and> getConnection victim (sessionMgr (chat net3)) = None))"
proof -
  note req = login_request [OF assms(1-3,7)]
  have g1: "getConnection victim (sessionMgr (chat net1)) = Some owner" using req(1) assms(4-6) by simp
  have name: "username (the_state c net1) = victim" by (simp add: the_state_def req(2))
  have down: "\<exists>net3. onConnection c net2 = Inr net3 \<and> getConnection victim (sessionMgr (chat net3)) = None"
    if d: "cn_state (conns net2 c) \<noteq> kConnected" "chat net2 = chat net1" "victim \<noteq> []"
  proof -
    have "connectionStates (chat net2) c = Some ((the_state c net)\<lparr>username := victim\<rparr>)"
      using req(2) d(2) by simp
    moreover have "isOnline victim (sessionMgr (chat net2))" using g1 d(2) by (simp add: smgr.online_iff)
    ultimately show ?thesis
      using d by (simp add: onConnection_def connected_def onDisconnect_def Let_def getConnection_simps)
  qed
  show ?thesis using g1 name down by (auto simp: handle_chat_json)
qed

theorem failed_login_takes_name_witness:
  "\<exists>net net1. getConnection ''ann'' (sessionMgr (chat net)) = Some 0 \<and>
     handle_json demo_env 8 (login_json ''ann'' ''guess'') net = Inr net1 \<and>
     handle_json demo_env 8 (chat_json ''hi'') net1 = handleChat demo_env ''ann'' ''hi'' net1"
proof -
  have e: "escapes (api demo_env)" and t: "users_table (api demo_env) (\<lambda>d. d)" and k: "db_connected (userDb (chat quiet_room))"
    by (simp_all add: demo_escapes demo_users_table)
  have "ascii ''ann''" by (simp add: ascii_def)
  then obtain net1 where h: "handle_json demo_env 8 (login_json ''ann'' ''guess'') quiet_room = Inr net1"
    by (rule quiet_room_login)
  have t1: "(\<lambda>d. d) (db (chat quiet_room)) ''ann'' = Some (''1'', ''pw'')" and gp: "''guess'' \<noteq> ''pw''"
    and o: "getConnection ''ann'' (sessionMgr (chat quiet_room)) = Some 0" by (simp_all add: demo_online)
  from failed_login_takes_name [OF e t k t1 gp o h, of "''hi''"] o h show ?thesis by blast
qed

text \<open>C33: a second log-in request locks the first user's account.  A user whose session is on a connection
  sends another log-in request on it under a different name (a typing error is enough, the password
  need not be right).  When this connection is gone the first user is still online, on a connection that
  is closed, and every log-in under that name is refused: sessions are only removed under the name the
  connection has last, and never expire.\<close>

theorem second_login_locks_account:
  assumes "escapes (api env)" and "users_table (api env) tbl" and "db_connected (userDb (chat net))"
    and "getConnection u (sessionMgr (chat net)) = Some c" and "v \<noteq> u"
    and "handle_json env c (login_json v p) net = Inr net1"
    and "chat net2 = chat net1" and "cn_state (conns net2 c) \<noteq> kConnected" and "onConnection c net2 = Inr net3"
  shows "getConnection u (sessionMgr (chat net3)) = Some c \<and> connectionStates (chat net3) c = None \<and>
    (\<forall>d q net4. handleLogin env u q d net3 = Inr net4 \<longrightarrow> sessionMgr (chat net4) = sessionMgr (chat net3))"
proof -
  note req = login_request [OF assms(1-3,6)]
  have s: "connectionStates (chat net2) c = Some ((the_state c net)\<lparr>username := v\<rparr>)" using req(2) assms(7) by simp
  have "getConnection u (sessionMgr (chat net2)) = Some c" using req(1) [of u] assms(4,5,7) by simp
  then have g: "getConnection u (sessionMgr (chat net3)) = Some c"
    using assms(5,8,9) s by (auto simp: onConnection_def connected_def onDisconnect_def Let_def getConnection_simps split: if_splits)
  moreover have "connectionStates (chat net3) c = None"
    using assms(8,9) s by (auto simp: onConnection_def connected_def Let_def)
  moreover have "sessionMgr (chat net4) = sessionMgr (chat net3)" if "handleLogin env u q d net3 = Inr net4" for d q net4
  proof -
    have "isOnline u (sessionMgr (chat net3))" using g by (simp add: smgr.online_iff)
    then show ?thesis
      using that by (auto simp: handleLogin_def rbind_Inr split: if_splits dest!: with_db_keeps(1) respond_keeps)
  qed
  ultimately show ?thesis by blast
qed

theorem second_login_locks_account_witness:
  "\<exists>net1 net3. getConnection ''ann'' (sessionMgr (chat quiet_room)) = Some 0 \<and>
     handle_json demo_env 0 (login_json ''anne'' ''pw'') quiet_room = Inr net1 \<and>
     onConnection 0 (setState 0 kDisconnected net1) = Inr net3 \<and>
     getConnection ''ann'' (sessionMgr (chat net3)) = Some 0"
proof -
  have e: "escapes (api demo_env)" and t: "users_table (api demo_env) (\<lambda>d. d)" and k: "db_connected (userDb (chat quiet_room))"
    by (simp_all add: demo_escapes demo_users_table)
  have "ascii ''anne''" by (simp add: ascii_def)
  then obtain net1 where h: "handle_json demo_env 0 (login_json ''anne'' ''pw'') quiet_room = Inr net1"
    by (rule quiet_room_login)
  let ?n2 = "setState 0 kDisconnected net1"
  have c2: "chat ?n2 = chat net1" "cn_state (conns ?n2 0) \<noteq> kConnected" by (simp_all add: chat_def)
  obtain net3 where d: "onConnection 0 ?n2 = Inr net3" by (auto simp: onConnection_def connected_def Let_def)
  have o: "getConnection ''ann'' (sessionMgr (chat quiet_room)) = Some 0" and ne: "''anne'' \<noteq> ''ann''"
    by (simp_all add: demo_online)
  from second_login_locks_account [OF e t k o ne h c2 d] o h d show ?thesis by blast
qed

text \<open>The history goes to everyone.  A log-in request is followed by the message history whether it
  succeeded or not: with a wrong password the client is sent the error and then the same history
  frame as after a success.\<close>

theorem failed_login_gets_history:
  assumes "escapes (api env)" and "users_table (api env) tbl" and "db_connected (userDb (chat net))"
    and "u \<noteq> []" and "p \<noteq> []" and "\<forall>i. tbl (db (chat net)) u \<noteq> Some (i, p)"
  shows "handle_json env c (login_json u p) net =
    rbind (respond env c MSG_TYPE_LOGIN_RESP False ''Invalid username or password''
        (set_state c (\<lambda>s. s\<lparr>username := u\<rparr>) net))
      (handleGetHistory env c 50)"
proof -
  let ?n = "set_state c (\<lambda>s. s\<lparr>username := u\<rparr>) net"
  have "upd_chat (\<lambda>a. a\<lparr>db := db (chat net)\<rparr>) ?n = ?n" by (intro upd_chat_same) simp
  then show ?thesis
    using assms(4,5,6)
    by (simp add: handle_login_json handleLogin_def verifyUser_table [OF assms(1,2,3)] with_db_def rbind_def)
qed

theorem failed_login_gets_history_witness:
  "\<exists>n. handle_json demo_env 0 (login_json ''bob'' ''x'') (demo_chat Map.empty mkSessionManager) =
     rbind (respond demo_env 0 MSG_TYPE_LOGIN_RESP False ''Invalid username or password'' n)
       (handleGetHistory demo_env 0 50)"
proof -
  let ?env = "demo_env" and ?net = "demo_chat Map.empty mkSessionManager"
  have e: "escapes (api ?env)" and t: "users_table (api ?env) (\<lambda>d. d)" and k: "db_connected (userDb (chat ?net))"
    by (simp_all add: demo_escapes demo_users_table)
  show ?thesis
    using failed_login_gets_history [OF e t k, of "''bob''" "''x''" 0] by auto
qed



lemma parse_overflow: "sd ''1e400'' = None \<longrightarrow> parse sd ''[1e400]'' = Inl JsonOutOfRange"
  by code_simp simp



end
