(* ===== verification/Chat_Frames.thy ===== *)
theory Chat_Frames
  imports Chat_Server
begin

text \<open>
  The frame loop of \<^verbatim>\<open>ChatServer::onMessage\<close> against a reference: \<open>split_frames\<close> cuts a stretch of
  input into messages without any state, and the loop is shown to handle exactly these.  What the
  reference does with input that arrives in pieces, or that starts with a frame of a kind the server
  does not support, then carries over to the loop.
\<close>

section \<open>The frames in a stretch of input\<close>

text \<open>A reference for the loop of \<^verbatim>\<open>onMessage\<close>: the text messages at the front of \<open>data\<close> with the
  lengths of their frames, the bytes left over, and why it stops.\<close>

datatype stop = NeedMore | CloseFrame | Throws crash

function split_frames :: "(nat \<Rightarrow> u8) \<Rightarrow> string \<Rightarrow> (string \<times> nat) list \<times> string \<times> stop" where
  "split_frames u data =
     (if data = [] then ([], data, NeedMore)
      else case parseFrame u data [] of
        Inl e \<Rightarrow> ([], data, Throws e)
      | Inr r \<Rightarrow>
          if \<not> ret r then ([], data, NeedMore)
          else if outOpcode r = Some 8 then ([], data, CloseFrame)
          else (case split_frames u (drop (the (frameLen r)) data) of
                  (ms, rest, st) \<Rightarrow> ((outMessage r, the (frameLen r)) # ms, rest, st)))"
  by auto

termination
proof (relation "measure (length \<circ> snd)", goal_cases)
  case (2 u data r)
  then obtain L where "frameLen r = Some L" "2 \<le> L" using parseFrame_ret(1) by blast
  then show ?case using 2(1) by (cases data) auto
qed simp

declare split_frames.simps [simp del]

fun handle_frames :: "'d chat_env \<Rightarrow> cid \<Rightarrow> (string \<times> nat) list \<Rightarrow> 'd cnet \<Rightarrow> 'd cnet result" where
  "handle_frames env c [] net = Inr net"
| "handle_frames env c ((m, n) # ms) net =
     rbind (if m \<noteq> [] then handleWebSocketMessage env c m net else Inr net)
       (\<lambda>net. handle_frames env c ms (consume c n net))"

fun finish :: "cid \<Rightarrow> stop \<Rightarrow> 'd cnet \<Rightarrow> 'd cnet result" where
  "finish c NeedMore net = Inr net"
| "finish c CloseFrame net = Inr (shutdown c net)"
| "finish c (Throws e) net = Inl e"

lemma parse_frames_split:
  "buffer_inv (inputBuffer (conns net c)) \<Longrightarrow> content (inputBuffer (conns net c)) = data \<Longrightarrow>
   parse_frames env c net =
     (case split_frames (uninit env) data of (ms, rest, st) \<Rightarrow> rbind (handle_frames env c ms net) (finish c st))"
proof (induction "uninit env" data arbitrary: net rule: split_frames.induct)
  case (1 data)
  have rd: "readableBytes (inputBuffer (conns net c)) > 0 \<longleftrightarrow> data \<noteq> []"
    using "1.prems" by (simp add: readableBytes_eq)
  show ?case
  proof (cases "data = []")
    case True
    then show ?thesis
      using rd by (simp add: parse_frames.simps [of env c net] split_frames.simps [of _ "[]"] rbind_def)
  next
    case ne: False
    show ?thesis
    proof (cases "parseFrame (uninit env) data []")
      case (Inl e)
      then show ?thesis
        using rd ne "1.prems" by (simp add: parse_frames.simps [of env c net] split_frames.simps [of _ data] rbind_def)
    next
      case (Inr r)
      show ?thesis
      proof (cases "ret r \<and> outOpcode r = Some 1")
        case True
        let ?L = "the (frameLen r)"
        have IH: "parse_frames env c (consume c ?L n1) =
            (case split_frames (uninit env) (drop ?L data) of (ms, rest, st) \<Rightarrow>
              rbind (handle_frames env c ms (consume c ?L n1)) (finish c st))"
          if "framed net n1" for n1
        proof (rule "1.hyps" [OF ne Inr])
          show "buffer_inv (inputBuffer (conns (consume c ?L n1) c))"
            "content (inputBuffer (conns (consume c ?L n1) c)) = drop ?L data"
            using "1.prems" framedD(1) [OF that, of c] by (simp_all add: consume_def)
        qed (use True in auto)
        have fr: "framed net n1"
          if "(if outMessage r \<noteq> [] then handleWebSocketMessage env c (outMessage r) net else Inr net) = Inr n1" for n1
          using that handleWebSocketMessage_framed by (auto split: if_splits)
        show ?thesis
          using rd ne "1.prems" Inr True IH fr
          by (auto simp: parse_frames.simps [of env c net] split_frames.simps [of _ data] rbind_def
              split: sum.splits prod.splits)
      next
        case False
        then show ?thesis
          using rd ne "1.prems" Inr parseFrame_ret(2) [OF Inr]
          by (auto simp: parse_frames.simps [of env c net] split_frames.simps [of _ data] rbind_def)
      qed
    qed
  qed
qed


text \<open>Cutting the input anywhere makes no difference: what is left of the first part is decided
  together with the second.\<close>

lemma split_frames_append:
  "length (d1 @ d2) < 2 ^ 64 \<Longrightarrow>
   (case split_frames u d1 of (ms1, r1, st1) \<Rightarrow>
      split_frames u (d1 @ d2) =
        (if st1 = NeedMore then (case split_frames u (r1 @ d2) of (ms2, r2, st2) \<Rightarrow> (ms1 @ ms2, r2, st2))
         else (ms1, r1 @ d2, st1)))"
proof (induction u d1 rule: split_frames.induct)
  case (1 u d1)
  show ?case
  proof (cases "d1 = []")
    case True
    then show ?thesis by (simp add: split_frames.simps [of u "[]"] split: prod.split)
  next
    case ne: False
    show ?thesis
    proof (cases "parseFrame u d1 []")
      case (Inl e)
      have "e = LengthError" using parseFrame_outcome [of d1 u "[]"] Inl "1.prems" by auto
      then have "parseFrame u (d1 @ d2) [] = Inl e"
        using parseFrame_append [of u d1 "[]" d2 "[]"] Inl "1.prems" by simp
      then show ?thesis using ne Inl by (simp add: split_frames.simps [of u d1] split_frames.simps [of u "d1 @ d2"])
    next
      case (Inr r)
      show ?thesis
      proof (cases "ret r")
        case False
        then show ?thesis using ne Inr by (simp add: split_frames.simps [of u d1] split: prod.split)
      next
        case True
        obtain L where L: "frameLen r = Some L" "2 \<le> L" using parseFrame_ret(1) [OF Inr True] by blast
        have app: "parseFrame u (d1 @ d2) [] = Inr r"
          using parseFrame_append [of u d1 "[]" d2 "[]"] Inr L "1.prems" by simp
        have "length d1 < 2 ^ 64" using "1.prems" by simp
        then have le: "L \<le> length d1" by (rule parseFrame_sound [OF Inr L(1)]) simp
        show ?thesis
        proof (cases "outOpcode r = Some 8")
          case True': True
          then show ?thesis
            using ne Inr True app by (simp add: split_frames.simps [of u d1] split_frames.simps [of u "d1 @ d2"])
        next
          case False
          have "length (drop L d1 @ d2) < 2 ^ 64" using "1.prems" by simp
          then have IH: "case split_frames u (drop L d1) of (ms1, r1, st1) \<Rightarrow>
              split_frames u (drop L d1 @ d2) =
                (if st1 = NeedMore then (case split_frames u (r1 @ d2) of (ms2, r2, st2) \<Rightarrow> (ms1 @ ms2, r2, st2))
                 else (ms1, r1 @ d2, st1))"
            using "1.IH" [OF ne Inr _ False] True L by simp
          have "drop L (d1 @ d2) = drop L d1 @ d2" using le by simp
          then show ?thesis
            using ne Inr True app False IH L
            by (auto simp: split_frames.simps [of u d1] split_frames.simps [of u "d1 @ d2"] split: prod.splits)
        qed
      qed
    qed
  qed
qed


lemma split_client_frame:
  assumes "length (client_frame k m @ d) < 2 ^ 63"
  shows "split_frames u (client_frame k m @ d) =
    (case split_frames u d of (ms, r, st) \<Rightarrow> ((m, length (client_frame k m)) # ms, r, st))"
proof -
  have ne: "client_frame k m \<noteq> []" by (simp add: client_frame_def wire_frame_def)
  show ?thesis
    using parseFrame_client_frame [OF assms, of u "[]"] ne
    by (simp add: split_frames.simps [of u "client_frame k m @ d"])
qed

lemma split_client_frames:
  assumes "length (concat (map (\<lambda>(k, m). client_frame k m) kms)) < 2 ^ 63"
  shows "split_frames u (concat (map (\<lambda>(k, m). client_frame k m) kms)) =
    (map (\<lambda>(k, m). (m, length (client_frame k m))) kms, [], NeedMore)"
  using assms
proof (induction kms)
  case Nil
  then show ?case by (simp add: split_frames.simps [of _ "[]"])
next
  case (Cons p kms)
  obtain k m where p: "p = (k, m)" by fastforce
  show ?case
    using Cons split_client_frame [of k m "concat (map (\<lambda>(k, m). client_frame k m) kms)" u] by (simp add: p)
qed

lemma split_unsupported:
  assumes "uchar b AND 0x0F \<noteq> 1" and "uchar b AND 0x0F \<noteq> 8"
  shows "split_frames u (b # later) = ([], b # later, NeedMore)"
  using assms by (simp add: split_frames.simps [of u "b # later"] parseFrame_def byte_at_def rbind_def Let_def)

section \<open>Properties\<close>



text \<open>Segmentation does not matter.  The messages found when the input arrives in two pieces, with the
  undecided rest of the first piece kept for the second, are those found when it arrives at once; a
  close frame or an exception in the first piece is final.\<close>

theorem segmentation_independent:
  assumes "length (d1 @ d2) < 2 ^ 64" and "split_frames u d1 = (ms1, r1, st1)"
    and "split_frames u (r1 @ d2) = (ms2, r2, st2)"
  shows "split_frames u (d1 @ d2) = (if st1 = NeedMore then (ms1 @ ms2, r2, st2) else (ms1, r1 @ d2, st1))"
  using split_frames_append [OF assms(1), of u] assms(2,3) by simp

theorem segmentation_independent_witness:
  "split_frames (\<lambda>_. 0) ((client_frame (1, 2, 3, 4) ''hi'' @ [schar 0x81]) @ tl (client_frame (5, 6, 7, 8) ''yo'')) =
     ([(''hi'', length (client_frame (1, 2, 3, 4) ''hi'')), (''yo'', length (client_frame (5, 6, 7, 8) ''yo''))], [], NeedMore)"
proof -
  let ?a = "client_frame (1, 2, 3, 4) ''hi''" and ?b = "client_frame (5, 6, 7, 8) ''yo''" and ?u = "\<lambda>_. 0 :: u8"
  have len: "length ?a = 8" "length ?b = 8" by (simp_all add: client_frame_def length_wire_frame min_enc_def)
  have b: "[schar 0x81] @ tl ?b = ?b" by (simp add: client_frame_def wire_frame_def)
  have e: "split_frames ?u [] = ([], [], NeedMore)" by (simp add: split_frames.simps [of _ "[]"])
  have "parseFrame ?u [schar 0x81] [] = Inr \<lparr>ret = False, outMessage = [], frameLen = None, outOpcode = None\<rparr>"
    by (simp add: parseFrame_def)
  then have one: "split_frames ?u [schar 0x81] = ([], [schar 0x81], NeedMore)"
    by (simp add: split_frames.simps [of _ "[schar 0x81]"])
  have s1: "split_frames ?u (?a @ [schar 0x81]) = ([(''hi'', length ?a)], [schar 0x81], NeedMore)"
    using split_client_frame [of "(1, 2, 3, 4)" "''hi''" "[schar 0x81]" ?u] len one by simp
  have s2: "split_frames ?u ([schar 0x81] @ tl ?b) = ([(''yo'', length ?b)], [], NeedMore)"
    unfolding b using split_client_frame [of "(5, 6, 7, 8)" "''yo''" "[]" ?u] len e by simp
  have l: "length ((?a @ [schar 0x81]) @ tl ?b) < 2 ^ 64" by (simp add: len)
  show ?thesis using segmentation_independent [OF l s1 s2] by simp
qed

text \<open>C15: from the client's frames to the server's handler.  When the input holds text messages that a
  client sent one after the other, each in a frame with its own masking key, the loop hands exactly
  these messages to the handler, in this order, and ends with all of them consumed.\<close>

theorem client_messages_handled:
  assumes "buffer_inv (inputBuffer (conns net c))"
    and "content (inputBuffer (conns net c)) = concat (map (\<lambda>(k, m). client_frame k m) kms)"
    and "length (content (inputBuffer (conns net c))) < 2 ^ 63"
  shows "parse_frames env c net = handle_frames env c (map (\<lambda>(k, m). (m, length (client_frame k m))) kms) net"
  using parse_frames_split [OF assms(1,2), of env] split_client_frames [of kms "uninit env"] assms(2,3)
  by (simp add: rbind_def split: sum.split)

theorem client_messages_handled_witness:
  "parse_frames demo_env 0
      (upd_conn 0 (\<lambda>k. k\<lparr>inputBuffer := append_buf (client_frame (1, 2, 3, 4) ''?'') (mkBuffer kInitialSize)\<rparr>)
        (demo_chat Map.empty mkSessionManager)) =
   handle_frames demo_env 0 [(''?'', 7)]
      (upd_conn 0 (\<lambda>k. k\<lparr>inputBuffer := append_buf (client_frame (1, 2, 3, 4) ''?'') (mkBuffer kInitialSize)\<rparr>)
        (demo_chat Map.empty mkSessionManager))"
proof -
  let ?net = "upd_conn 0 (\<lambda>k. k\<lparr>inputBuffer := append_buf (client_frame (1, 2, 3, 4) ''?'') (mkBuffer kInitialSize)\<rparr>)
        (demo_chat Map.empty mkSessionManager)"
  have i: "inputBuffer (conns ?net 0) = append_buf (client_frame (1, 2, 3, 4) ''?'') (mkBuffer kInitialSize)" by simp
  have len: "length (client_frame (1, 2, 3, 4) ''?'') = 7"
    by (simp add: client_frame_def length_wire_frame min_enc_def)
  have "buffer_inv (inputBuffer (conns ?net 0))"
    and "content (inputBuffer (conns ?net 0)) = concat (map (\<lambda>(k, m). client_frame k m) [((1, 2, 3, 4), ''?'')])"
    and "length (content (inputBuffer (conns ?net 0))) < 2 ^ 63"
    unfolding i by (simp_all add: len)
  from client_messages_handled [OF this, of "demo_env"] show ?thesis by (simp add: len)
qed

text \<open>C36: a frame of any other kind than text and close (a ping, a binary message, the continuation of a
  fragmented one) blocks its connection for good: with such a frame at the front of the input, whatever
  has arrived after it, a message event changes nothing and consumes nothing.\<close>

theorem unsupported_frame_blocks:
  assumes "buffer_inv (inputBuffer (conns net c))" and "content (inputBuffer (conns net c)) = b # later"
    and "uchar b AND 0x0F \<noteq> 1" and "uchar b AND 0x0F \<noteq> 8"
    and "connectionStates (chat net) c = Some st" and "isWebSocket st" and "handshakeComplete st"
  shows "onMessage env c t net = Inr net"
proof -
  have "parse_frames env c net = Inr net"
    using parse_frames_split [OF assms(1,2), of env] split_unsupported [OF assms(3,4), of "uninit env" later]
    by (simp add: rbind_def)
  moreover have "touch_state c net = net"
    using assms(5) by (simp add: touch_state_def upd_chat_def upd_usr_def chat_def)
  moreover have "the_state c net = st" using assms(5) by (simp add: the_state_def)
  ultimately show ?thesis using assms(6,7) by (simp add: onMessage_def)
qed

theorem unsupported_frame_blocks_witness:
  "let net = upd_chat (\<lambda>a. a\<lparr>connectionStates := [0 \<mapsto> \<lparr>isWebSocket = True, handshakeComplete = True, username = []\<rparr>]\<rparr>)
       (upd_conn 0 (\<lambda>k. k\<lparr>inputBuffer := append_buf (schar 0x89 # schar 0x00 # client_frame (1, 2, 3, 4) ''x'') (mkBuffer kInitialSize)\<rparr>)
         (demo_chat Map.empty mkSessionManager))
   in onMessage demo_env 0 7 net = Inr net"
proof -
  let ?in = "schar 0x89 # schar 0x00 # client_frame (1, 2, 3, 4) ''x''" and ?st = "\<lparr>isWebSocket = True, handshakeComplete = True, username = []\<rparr>"
  let ?n1 = "upd_conn 0 (\<lambda>k. k\<lparr>inputBuffer := append_buf ?in (mkBuffer kInitialSize)\<rparr>) (demo_chat Map.empty mkSessionManager)"
  let ?net = "upd_chat (\<lambda>a. a\<lparr>connectionStates := [0 \<mapsto> ?st]\<rparr>) ?n1"
  have i: "inputBuffer (conns ?net 0) = append_buf ?in (mkBuffer kInitialSize)" by (simp add: upd_chat_def)
  have "buffer_inv (inputBuffer (conns ?net 0))" "content (inputBuffer (conns ?net 0)) = schar 0x89 # schar 0x00 # client_frame (1, 2, 3, 4) ''x''"
    unfolding i by simp_all
  from unsupported_frame_blocks [OF this, of ?st "demo_env" 7] show ?thesis by (simp add: Let_def)
qed

end
