(* ===== verification/Chat_Http.thy ===== *)
theory Chat_Http
  imports Chat_Server
begin

text \<open>
  The HTTP side of \<^verbatim>\<open>ChatServer::onMessage\<close>: what a connection that has not become a WebSocket gets as an
  answer, for the requests \<^verbatim>\<open>handleHttpRequest\<close> answers itself, for upgrade requests and for the rest.
\<close>

section \<open>Requests\<close>

text \<open>The bytes that answer a request for \<open>path\<close>.\<close>

definition http_response :: "'d chat_env \<Rightarrow> string \<Rightarrow> string" where
  "http_response env path =
     (case http_file path of
        None \<Rightarrow> http_404 ''404 Not Found''
      | Some f \<Rightarrow>
          (case files env f of
             None \<Rightarrow> http_404 ''File not found''
           | Some body \<Rightarrow> http_header (content_type f) (length body) @ body))"

lemma ready_upd_input:
  "buffer_inv b \<Longrightarrow> ready c net \<Longrightarrow> ready c (upd_conn c (\<lambda>k. k\<lparr>inputBuffer := b\<rparr>) net)"
  by (simp add: ready_def conn_wf_def healthy_def connected_def)

lemma ready_states [simp]:
  "ready c (touch_state d net) = ready c net" "ready c (set_state d f net) = ready c net"
  "conns (touch_state d net) = conns net" "conns (set_state d f net) = conns net"
  by (simp_all add: touch_state_def set_state_def upd_chat_def ready_def connected_def inLoopThread_def)

text \<open>An answer and its end: the bytes join the stream, and the connection goes down once they are sent.\<close>

definition answered :: "cid \<Rightarrow> string \<Rightarrow> 'u net \<Rightarrow> 'u net \<Rightarrow> bool" where
  "answered c d net net' \<longleftrightarrow> stream (conns net' c) = stream (conns net c) @ d \<and>
     cn_state (conns net' c) = kDisconnecting \<and>
     (halfClosed (conns net' c) \<or> content (outputBuffer (conns net' c)) \<noteq> []) \<and>
     inputBuffer (conns net' c) = inputBuffer (conns net c)"

lemma input_kept [simp]:
  "inputBuffer (conns (send c d net) e) = inputBuffer (conns net e)"
  "inputBuffer (conns (shutdown c net) e) = inputBuffer (conns net e)"
  using same_restD(4) [of net "send c d net" e] same_restD(4) [of net "shutdown c net" e] by simp_all

lemma answered_one: "ready c net \<Longrightarrow> answered c d net (shutdown c (send c d net))"
  using send_ready [of c net d] shutdown_ready [of c "send c d net"] by (simp add: answered_def)

lemma answered_two: "ready c net \<Longrightarrow> answered c (d @ e) net (shutdown c (send c e (send c d net)))"
  using send_ready [of c net d] send_ready [of c "send c d net" e] shutdown_ready [of c "send c e (send c d net)"]
  by (simp add: answered_def)

lemma http_reply_answers: "ready c net \<Longrightarrow> answered c (http_response env path) net (http_reply env c path net)"
  by (simp add: http_reply_def http_response_def answered_one answered_two split: option.split)

text \<open>Where the path of a \<^verbatim>\<open>GET\<close> request ends.\<close>

lemma find_path_end:
  assumes "CHR '' '' \<notin> set path"
  shows "str_find (''GET '' @ path @ '' '' @ post) '' '' 4 = Some (4 + length path)"
proof -
  have "search '' '' (path @ '' '' @ post) = Some (length path)"
  proof (rule search_append_first)
    fix j
    assume j: "j < length path"
    then have "take 1 (drop j (path @ '' '' @ post)) = [path ! j]" by (simp add: take_Suc_conv_app_nth Cons_nth_drop_Suc [symmetric])
    moreover have "path ! j \<noteq> CHR '' ''" using assms j by (metis nth_mem)
    ultimately show "take (length '' '') (drop j (path @ '' '' @ post)) \<noteq> '' ''" by simp
  qed
  then show ?thesis by (simp add: str_find_def)
qed

lemma handleHttpRequest_get:
  assumes "CHR '' '' \<notin> set path" and "\<not> isWebSocketUpgrade (''GET '' @ path @ '' '' @ post)"
  shows "handleHttpRequest env c (''GET '' @ path @ '' '' @ post) net = Inr (True, http_reply env c path net)"
  using assms find_path_end [OF assms(1), of post]
  by (simp add: handleHttpRequest_def substr_def)

lemma demo_ready: "ready 0 (demo_chat d m)"
  by (simp add: ready_def demo_conn_wf healthy_def connected_def)

section \<open>Properties\<close>



text \<open>C22: the upgrade.  An upgrade request turns the connection into a WebSocket: the answer is the handshake response to that request and nothing else, the connection
  stays up, and from then on its input is read as frames.\<close>

theorem upgrade_switches:
  assumes "ready c net" and "\<not> handshakeComplete (the_state c net)"
    and "isWebSocketUpgrade (content (inputBuffer (conns net c)))"
  shows "\<exists>net' response. onMessage env c t net = Inr net' \<and> ready c net' \<and>
    generateHandshakeResponse (sha1 env) (base64 env) (content (inputBuffer (conns net c))) = Inr response \<and>
    stream (conns net' c) = stream (conns net c) @ response \<and>
    isWebSocket (the_state c net') \<and> handshakeComplete (the_state c net') \<and>
    (\<forall>net''. chat net'' = chat net' \<longrightarrow> onMessage env c t2 net'' = parse_frames env c (touch_state c net''))"
proof -
  let ?b = "inputBuffer (conns net c)"
  let ?n = "upd_conn c (\<lambda>k. k\<lparr>inputBuffer := retrieveAll ?b\<rparr>) (touch_state c net)"
  let ?n1 = "set_state c (\<lambda>s. s\<lparr>isWebSocket := True\<rparr>) ?n"
  obtain response where g: "generateHandshakeResponse (sha1 env) (base64 env) (content ?b) = Inr response"
    using extractSecWebSocketKey_ok [of "content ?b"] by (auto simp: generateHandshakeResponse_def is_ok_iff)
  let ?n2 = "set_state c (\<lambda>s. s\<lparr>handshakeComplete := True\<rparr>) (send c response ?n1)"
  have inv: "buffer_inv ?b" using assms(1) by (simp add: ready_def conn_wf_def)
  then have m: "onMessage env c t net = Inr ?n2"
    using assms(2,3) g by (simp add: onMessage_def handleHttpRequest_def retrieveAllAsString_eq Let_def)
  have r: "ready c ?n" using ready_upd_input [of "retrieveAll ?b" c "touch_state c net"] assms(1) inv by simp
  have st: "stream (conns ?n2 c) = stream (conns net c) @ response" and rd: "ready c ?n2"
    using send_ready [of c ?n1 response] r by (simp_all add: stream_def)
  have ts: "the_state c (send c response n) = the_state c n" for n by (simp add: the_state_def)
  have s: "isWebSocket (the_state c ?n2)" "handshakeComplete (the_state c ?n2)" by (simp_all add: ts)
  have "onMessage env c t2 net'' = parse_frames env c (touch_state c net'')" if "chat net'' = chat ?n2" for net''
  proof -
    have "the_state c net'' = the_state c ?n2" using that by (simp add: the_state_def)
    then show ?thesis using s by (simp add: onMessage_def Let_def)
  qed
  then show ?thesis using m st rd s g by blast
qed

theorem upgrade_switches_witness:
  "let req = ''Upgrade: websocket'' @ crlf @ ''Connection: Upgrade'' @ crlf @ ''Sec-WebSocket-Key: k'' @ crlf;
       net = upd_conn 0 (\<lambda>k. k\<lparr>inputBuffer := append_buf req (mkBuffer kInitialSize)\<rparr>)
         (demo_chat Map.empty mkSessionManager)
   in \<exists>net'. onMessage demo_env 0 7 net = Inr net' \<and> ready 0 net' \<and> handshakeComplete (the_state 0 net')"
proof -
  let ?req = "''Upgrade: websocket'' @ crlf @ ''Connection: Upgrade'' @ crlf @ ''Sec-WebSocket-Key: k'' @ crlf"
  let ?net = "upd_conn 0 (\<lambda>k. k\<lparr>inputBuffer := append_buf ?req (mkBuffer kInitialSize)\<rparr>)
       (demo_chat Map.empty mkSessionManager)"
  have b: "buffer_inv (append_buf ?req (mkBuffer kInitialSize))" by simp
  from ready_upd_input [OF b demo_ready] have r: "ready 0 ?net" .
  have h: "\<not> handshakeComplete (the_state 0 ?net)" by (simp add: the_state_def default_state_def)
  have "content (inputBuffer (conns ?net 0)) = ?req" using b by simp
  then have u: "isWebSocketUpgrade (content (inputBuffer (conns ?net 0)))"
    by (simp add: isWebSocketUpgrade_def str_find_def crlf_def)
  from upgrade_switches [OF r h u, of "demo_env" 7] show ?thesis by (auto simp: Let_def)
qed

text \<open>A request that arrives in pieces is refused.  When the first read ends before the end of the
  path (so that there is neither a complete request line nor an upgrade), the client gets 400 and the
  connection goes down, although the rest of the request may be on its way.\<close>

theorem partial_request_refused:
  assumes "ready c net" and "\<not> handshakeComplete (the_state c net)"
    and "content (inputBuffer (conns net c)) = ''GET '' @ part" and "CHR '' '' \<notin> set part"
    and "\<not> isWebSocketUpgrade (''GET '' @ part)"
  shows "\<exists>net'. onMessage env c t net = Inr net' \<and>
    stream (conns net' c) = stream (conns net c) @ ''HTTP/1.1 400 Bad Request'' @ crlf @ crlf @ ''Bad Request'' \<and>
    cn_state (conns net' c) = kDisconnecting"
proof -
  let ?b = "inputBuffer (conns net c)"
  let ?n = "upd_conn c (\<lambda>k. k\<lparr>inputBuffer := retrieveAll ?b\<rparr>) (touch_state c net)"
  let ?a = "''HTTP/1.1 400 Bad Request'' @ crlf @ crlf @ ''Bad Request''"
  have inv: "buffer_inv ?b" using assms(1) by (simp add: ready_def conn_wf_def)
  have "search '' '' part = None"
    using assms(4) by (induction part) auto
  then have "handleHttpRequest env c (''GET '' @ part) ?n = Inr (False, ?n)"
    using assms(5) by (simp add: handleHttpRequest_def substr_def str_find_def)
  then have "onMessage env c t net = Inr (shutdown c (send c ?a ?n))"
    using assms(2,3,5) inv by (simp add: onMessage_def retrieveAllAsString_eq Let_def del: append.simps)
  moreover have "ready c ?n" using ready_upd_input [of "retrieveAll ?b" c "touch_state c net"] assms(1) inv by simp
  ultimately show ?thesis
    using answered_one [of c ?n ?a] inv by (simp add: answered_def stream_def)
qed

theorem partial_request_refused_witness:
  "let net = upd_conn 0 (\<lambda>k. k\<lparr>inputBuffer := append_buf ''GET /ch'' (mkBuffer kInitialSize)\<rparr>)
         (demo_chat Map.empty mkSessionManager)
   in \<exists>net'. onMessage demo_env 0 7 net = Inr net' \<and> cn_state (conns net' 0) = kDisconnecting"
proof -
  let ?net = "upd_conn 0 (\<lambda>k. k\<lparr>inputBuffer := append_buf (''GET '' @ ''/ch'') (mkBuffer kInitialSize)\<rparr>)
       (demo_chat Map.empty mkSessionManager)"
  have b: "buffer_inv (append_buf (''GET '' @ ''/ch'') (mkBuffer kInitialSize))" by simp
  from ready_upd_input [OF b demo_ready] have r: "ready 0 ?net" .
  have h: "\<not> handshakeComplete (the_state 0 ?net)" by (simp add: the_state_def default_state_def)
  have i: "content (inputBuffer (conns ?net 0)) = ''GET '' @ ''/ch''" using b by simp
  have u: "\<not> isWebSocketUpgrade (''GET '' @ ''/ch'')" by (simp add: isWebSocketUpgrade_def str_find_def)
  from partial_request_refused [OF r h i _ u, of "demo_env" 7] show ?thesis by auto
qed

end
