(* ===== verification/Chat_Lifetimes.thy ===== *)
theory Chat_Lifetimes
  imports Chat_Server Lifetimes
begin

text \<open>
  The chat server is an application as \<open>Lifetimes\<close> wants it: whatever its callbacks do, they only send
  on connections and shut them down, so no functor ever runs on a connection that is gone.
\<close>

section \<open>Everything the application does to the network\<close>

text \<open>A property of the network that survives the calls the application makes survives every handler.\<close>

locale kept_by_calls =
  fixes P :: "'d cnet \<Rightarrow> bool"
  assumes on_send: "P net \<Longrightarrow> P (send c data net)"
    and on_shutdown: "P net \<Longrightarrow> P (shutdown c net)"
    and on_state: "P net \<Longrightarrow> P (upd_chat f net)"
    and on_input: "P net \<Longrightarrow> P (upd_conn c (\<lambda>k. k\<lparr>inputBuffer := b k\<rparr>) net)"
begin

lemma broadcast: "P net \<Longrightarrow> P (broadcastToAll m ex sm net)"
proof -
  have "P net \<Longrightarrow> P (fold (broadcast_one m ex) ps net)" for ps
    by (induction ps arbitrary: net) (auto simp: broadcast_one_def on_send)
  then show "P net \<Longrightarrow> P (broadcastToAll m ex sm net)" by (simp add: broadcastToAll_def)
qed

lemma small_steps:
  "P net \<Longrightarrow> P (sendResponse c js net)" "P net \<Longrightarrow> P (upd_sessions g net)" "P net \<Longrightarrow> P (snd (read_clock net))"
  "P net \<Longrightarrow> P (touch_state c net)" "P net \<Longrightarrow> P (set_state c h net)" "P net \<Longrightarrow> P (consume c n net)"
  by (simp_all add: sendResponse_def on_send upd_sessions_def on_state read_clock_def touch_state_def set_state_def
      consume_def on_input)

text \<open>The same for a computation that may throw: its result, if there is one, has \<open>P\<close>.\<close>

definition kept :: "'d cnet result \<Rightarrow> bool" where
  "kept r \<longleftrightarrow> (\<forall>net. r = Inr net \<longrightarrow> P net)"

lemma kept_simps [simp]: "kept (Inr net) = P net" "kept (Inl e)"
  by (simp_all add: kept_def)

lemma keptD: "kept r \<Longrightarrow> r = Inr net \<Longrightarrow> P net"
  by (simp add: kept_def)

lemma kept_bind: "(\<And>x. m = Inr x \<Longrightarrow> kept (f x)) \<Longrightarrow> kept (rbind m f)"
  by (cases m) simp_all

lemma kept_next: "kept m \<Longrightarrow> (\<And>net. P net \<Longrightarrow> kept (f net)) \<Longrightarrow> kept (rbind m f)"
  by (cases m) simp_all

lemma kept_db: "P net \<Longrightarrow> (\<And>x net. P net \<Longrightarrow> kept (g (x, net))) \<Longrightarrow> kept (rbind (with_db f net) g)"
  by (cases "f (db (chat net))") (auto simp: with_db_def on_state)

lemma kept_respond: "P net \<Longrightarrow> kept (respond env c m ok e net)"
  unfolding respond_def by (rule kept_bind) (simp add: small_steps)

lemma register_kept: "P net \<Longrightarrow> kept (handleRegister env u p c cu net)"
  unfolding handleRegister_def by (auto intro!: kept_db kept_respond)

lemma login_kept: "P net \<Longrightarrow> kept (handleLogin env u p c net)"
  unfolding handleLogin_def Let_def case_prod_unfold
  by (auto intro!: kept_db kept_respond kept_bind [where m = "dump_object _ _"] small_steps)

lemma logout_kept: "P net \<Longrightarrow> kept (handleLogout env u c net)"
  unfolding handleLogout_def Let_def by (auto intro!: kept_bind on_shutdown small_steps)

lemma chat_kept: "P net \<Longrightarrow> kept (handleChat env u t net)"
  unfolding handleChat_def Let_def case_prod_unfold
  by (auto intro!: kept_db kept_bind [where m = "dump_object _ _"] broadcast small_steps split: option.split)

lemma heartbeat_kept: "P net \<Longrightarrow> kept (handleHeartbeat env u net)"
  unfolding handleHeartbeat_def Let_def case_prod_unfold
  by (auto intro!: kept_bind small_steps split: option.split)

lemma history_kept: "P net \<Longrightarrow> kept (handleGetHistory env c n net)"
  unfolding handleGetHistory_def
  by (auto intro!: kept_db kept_bind [where m = "dump_object _ _"] kept_bind [where m = "rmap _ _"] small_steps)

lemma alive_kept: "P net \<Longrightarrow> kept (keepMySQLAlive env net)"
  unfolding keepMySQLAlive_def by (auto intro!: kept_db)

lemma disconnect_kept: "P net \<Longrightarrow> P (onDisconnect u net)"
  unfolding onDisconnect_def by (simp add: small_steps)

lemma json_kept: "P net \<Longrightarrow> kept (handle_json env c j net)"
  unfolding handle_json_def
  by (auto intro!: kept_bind [where m = "index_read _ _"] kept_bind [where m = "get_string _"]
      kept_bind [where m = "value_str _ _ _"] kept_bind [where m = "value_int _ _ _"]
      register_kept kept_next login_kept history_kept logout_kept chat_kept heartbeat_kept small_steps)

lemma message_kept: "P net \<Longrightarrow> kept (handleWebSocketMessage env c payload net)"
  unfolding handleWebSocketMessage_def Let_def
  by (auto intro!: kept_bind json_kept on_send small_steps split: sum.split crash.split)

lemma frames_kept: "P net \<Longrightarrow> kept (parse_frames env c net)"
proof (induction env c net rule: parse_frames.induct)
  case (1 env c net)
  let ?b = "inputBuffer (conns net c)"
  let ?m = "\<lambda>r. if outMessage r \<noteq> [] then handleWebSocketMessage env c (outMessage r) net else Inr net"
  have m: "kept (?m r)" for r using 1(3) by (simp add: message_kept)
  have "kept (rbind (?m r) (\<lambda>n. parse_frames env c (consume c (the (frameLen r)) n)))"
    if "readableBytes ?b > 0" "parseFrame (uninit env) (content ?b) [] = Inr r" "ret r" "outOpcode r = Some 1" for r
  proof (rule kept_bind)
    fix n1 assume n1: "?m r = Inr n1"
    from 1(1) [OF that n1] keptD [OF m n1] small_steps(6)
    show "kept (parse_frames env c (consume c (the (frameLen r)) n1))" by blast
  qed
  moreover have "kept (parse_frames env c (consume c (the (frameLen r)) net))"
    if "readableBytes ?b > 0" "parseFrame (uninit env) (content ?b) [] = Inr r" "ret r" "outOpcode r \<noteq> Some 1"
      "outOpcode r \<noteq> Some 8" for r
    using 1(2) that small_steps(6) 1(3) by auto
  ultimately show ?case
    using 1(3) on_shutdown by (subst parse_frames.simps) (auto split: sum.split)
qed

lemma http_kept: "P net \<Longrightarrow> P (http_reply env c path net)"
  by (auto simp: http_reply_def on_send on_shutdown split: option.split)

lemma kept_http:
  assumes "P net" and "\<And>h net. P net \<Longrightarrow> kept (g (h, net))"
  shows "kept (rbind (handleHttpRequest env c request net) g)"
proof (rule kept_bind)
  fix x assume "handleHttpRequest env c request net = Inr x"
  then have "P (snd x)"
    using assms(1) by (auto simp: handleHttpRequest_def rbind_Inr http_kept split: if_splits option.splits)
  then show "kept (g x)" using assms(2) [of "snd x" "fst x"] by simp
qed

lemma onMessage_kept: "P net \<Longrightarrow> kept (onMessage env c t net)"
  unfolding onMessage_def Let_def
  by (auto intro!: kept_bind [where m = "retrieveAllAsString _"] kept_http
      kept_bind [where m = "generateHandshakeResponse _ _ _"] small_steps on_send on_shutdown on_input frames_kept)

lemma onConnection_kept: "P net \<Longrightarrow> kept (onConnection c net)"
  by (auto simp: onConnection_def Let_def on_state on_shutdown disconnect_kept split: option.split)

end

interpretation chat_calls: kept_by_calls "behaves a :: 'd cnet \<Rightarrow> bool" for a
proof
  fix net :: "'d cnet" and c data f b
  assume k: "behaves a net"
  show "behaves a (send c data net)" using k by (rule behaves_send)
  show "behaves a (shutdown c net)" using k by (rule behaves_shutdown)
  show "behaves a (upd_chat f net)" unfolding upd_chat_def using k by (rule behaves_usr) (simp_all add: srv_part_def)
  show "behaves a (upd_conn c (\<lambda>k. k\<lparr>inputBuffer := b k\<rparr>) net)" using k by (rule behaves_outgoing) simp
qed

interpretation chat_life: behaved_app "chat_callbacks env" "onTimer env" for env :: "'d chat_env"
proof
  fix net net' :: "'d cnet" and c t n
  show "connectionCallback (chat_callbacks env) c net = Inr net' \<Longrightarrow> behaves net net'"
    using chat_calls.keptD [OF chat_calls.onConnection_kept [OF behaves_refl]] by (simp add: chat_callbacks_def)
  show "messageCallback (chat_callbacks env) c t net = Inr net' \<Longrightarrow> behaves net net'"
    using chat_calls.keptD [OF chat_calls.onMessage_kept [OF behaves_refl]] by (simp add: chat_callbacks_def)
  show "onTimer env net = Inr net' \<Longrightarrow> behaves net net'"
    using chat_calls.keptD [OF chat_calls.alive_kept [OF behaves_refl]] by (simp add: onTimer_def)
  show "writeCompleteCallback (chat_callbacks env) c net = Inr net' \<Longrightarrow> behaves net net'"
    "highWaterMarkCallback (chat_callbacks env) c n net = Inr net' \<Longrightarrow> behaves net net'"
    "closeCb (chat_callbacks env) = removeConnection"
    by (simp_all add: chat_callbacks_def)
qed

section \<open>A concrete run\<close>

text \<open>A server with one thread, before its first connection.\<close>

definition fresh_room :: "demo_db cnet" where
  "fresh_room = demo_net (mkTcpConnection 0 [] 9 3 []) (demo_server (mkChatService demo_env Map.empty (\<lambda>i. 0)))"

lemma fresh_room_sel [simp]:
  "conns fresh_room c = mkTcpConnection 0 [] 9 3 []" "pend fresh_room l = []" "inLoopThread l fresh_room"
  "usr fresh_room = demo_server (mkChatService demo_env Map.empty (\<lambda>i. 0))"
  by (simp_all add: fresh_room_def) (simp add: demo_net_def demo_loop_def mkEventLoop_def Let_def case_prod_unfold)

lemma fresh_room_start: "life_start (\<lambda>_. [], fresh_room)"
  by (simp add: life_start_def demo_server_def mkTcpServer_def mkTcpConnection_def)

lemma in_own_loop [simp]: "inLoopThread l (on_loop l net)"
  by (simp add: on_loop_def inLoopThread_def isInLoopThread_def)

lemma enableReading_close [simp]: "closeCallback (snd (enableReading p (ep, ch))) = closeCallback ch"
  by (simp add: enableReading_def updateChannel_def Let_def)

text \<open>Connection 0 is accepted, hangs up, and its destruction is the next functor.\<close>

lemma fresh_room_run:
  obtains net where "life_reach (chat_callbacks demo_env) (onTimer demo_env) (\<lambda>_. [], fresh_room)
    ((\<lambda>_. [])(0 := [FConnectDestroyed 0]), net)"
proof -
  let ?cb = "chat_callbacks demo_env" and ?tm = "onTimer demo_env" and ?R = "\<lambda>_. [] :: loop_functor list"
  let ?u = "usr fresh_room"
  obtain n1 where n1: "acceptor_handleRead ?cb 7 (on_loop 0 fresh_room) = Inr n1" "cn_state (conns n1 0) = kConnected"
    "cn_loop (conns n1 0) = 0" "closeCallback (cn_channel (conns n1 0))" "pend n1 0 = []" "srv_loop (usr n1) = 0"
    by (auto simp: acceptor_handleRead_def newConnection_def connectEstablished_def chat_callbacks_def onConnection_def
        runInLoop_def connected_def demo_server_def mkTcpServer_def mkTcpConnection_def getNextLoop_def mkThreadPool_def
        upd_chat_def tie_def setWriteCompleteCallback_def setErrorCallback_def setCloseCallback_def Let_def)
  have d1: "may_dispatch ?R 0 (ActAccept 7) fresh_room"
    by (simp add: short_names_def held_def demo_server_def mkTcpServer_def)
  have s1: "life_step ?cb ?tm (?R, fresh_room) (?R, n1)"
    by (rule life_step.activity [OF d1, where t = 0]) (simp add: n1(1))
  let ?k = "\<lambda>k. k\<lparr>cn_channel := set_revents EPOLLHUP (cn_channel k)\<rparr>"
  let ?n = "upd_conn 0 ?k (on_loop 0 n1)"
  have d2: "may_dispatch ?R 0 (ActConn 0 EPOLLHUP (ReadErr 0)) n1"
    using n1(2,3) by (simp add: kernel_events_def EPOLLHUP_def EPOLLIN_def EPOLLPRI_def)
  have ev: "handleEvent True (cn_channel (conns ?n 0)) = [CbClose]"
    using n1(4) by (simp add: handleEvent_def handleEventWithGuard_def set_revents_def EPOLLHUP_def EPOLLIN_def
        EPOLLPRI_def EPOLLERR_def EPOLLOUT_def)
  have ws: "with_server ?cb = ?cb" by (simp add: with_server_def chat_callbacks_def)
  have q: "app_only ?cb 0" by (rule chat_app.down_quiet)
  obtain n2 where n2: "handleClose ?cb 0 ?n = removeConnection 0 n2" "cn_loop (conns n2 0) = cn_loop (conns ?n 0)"
    "srv_loop (usr n2) = srv_loop (usr ?n)" "inLoopThread 0 n2 = inLoopThread 0 ?n" "pend n2 0 = pend ?n 0"
    by (rule handleClose_removes [OF q, where net = ?n and l = 0 and l' = 0, unfolded ws]) (rule that; assumption)
  let ?n3 = "removeConnectionInLoop 0 n2"
  have here: "inLoopThread 0 n2" "srv_loop (usr n2) = 0" using n2(3,4) n1(6) by simp_all
  have r: "removeConnection 0 n2 = Inr ?n3" using here by (simp add: removeConnection_def runInLoop_def)
  have dd: "dispatch ?cb ?tm 0 0 (ActConn 0 EPOLLHUP (ReadErr 0)) (on_loop 0 n1) = Inr ?n3"
    using ev n2(1) r by (simp add: conn_activity_def Let_def)
  have s2: "life_step ?cb ?tm (?R, n1) (?R, ?n3)" by (rule life_step.activity [OF d2 dd])
  have p: "pend ?n3 0 = [FConnectDestroyed 0]"
    using removeConnectionInLoop_effect(2) [of 0 n2] n2(2,5) n1(3,5) by simp
  have t: "take_functors (evloops ?n3 0) = ([FConnectDestroyed 0], snd (take_functors (evloops ?n3 0)))"
    using p by (simp add: take_functors_def Let_def)
  have s3: "life_step ?cb ?tm (?R, ?n3) (?R(0 := [FConnectDestroyed 0]), upd_loop 0 (\<lambda>lp. snd (take_functors lp)) ?n3)"
    using life_step.take [of ?R 0 ?cb ?tm ?n3] t by (metis fst_conv)
  show ?thesis
    by (rule that [OF life_next [OF life_next [OF life_next [OF life_init s1] s2] s3]])
qed

section \<open>Properties\<close>

text \<open>C16: No functor runs on a connection that is gone.  Run all loops of the chat server, interleaved one
  handler and one functor at a time, from its start: whenever a loop is about to call a functor that has
  only the plain pointer \<^verbatim>\<open>this\<close> (\<^verbatim>\<open>sendInLoop\<close> or \<^verbatim>\<open>shutdownInLoop\<close> queued by another thread), it is the
  connection's own loop, and a shared pointer in the table or in another functor that is still to be
  called keeps the object alive.  And \<^verbatim>\<open>connectDestroyed\<close> is called at most once, on a connection that is
  closed and out of the table, when no plain pointer to it waits in any loop.\<close>

theorem no_dangling_connection:
  assumes "life_reach (chat_callbacks env) (onTimer env) s0 (R, net)" and "life_start s0" and "R l = f # fs"
  shows "(raw_of f = Some c \<longrightarrow> l = cn_loop (conns net c) \<and> held c (queues (R(l := fs)) net) net) \<and>
    (f = FConnectDestroyed c \<longrightarrow> cn_state (conns net c) = kDisconnected \<and> (\<forall>n. connections (usr net) n \<noteq> Some c) \<and>
       (\<forall>m g. g \<in> set (queues (R(l := fs)) net m) \<longrightarrow> raw_of g \<noteq> Some c \<and> g \<noteq> FConnectDestroyed c))"
  using chat_life.called_alive [OF assms] chat_life.destroyed_last [OF assms(1,2)] assms(3) by blast

theorem no_dangling_connection_witness:
  "\<exists>R net. life_reach (chat_callbacks demo_env) (onTimer demo_env) (\<lambda>_. [], fresh_room) (R, net) \<and>
     R 0 = [FConnectDestroyed 0] \<and> cn_state (conns net 0) = kDisconnected \<and>
     (\<forall>m g. g \<in> set (queues (R(0 := [])) net m) \<longrightarrow> raw_of g \<noteq> Some 0 \<and> g \<noteq> FConnectDestroyed 0)"
proof -
  obtain net where r: "life_reach (chat_callbacks demo_env) (onTimer demo_env) (\<lambda>_. [], fresh_room)
    ((\<lambda>_. [])(0 := [FConnectDestroyed 0]), net)" by (rule fresh_room_run)
  have h: "((\<lambda>_. [])(0 := [FConnectDestroyed 0])) 0 = FConnectDestroyed 0 # []" by simp
  from no_dangling_connection [OF r fresh_room_start h, of 0] r h show ?thesis by blast
qed

end
