(* ===== verification/Logging.thy ===== *)
theory Logging
  imports Prelude
begin

text \<open>
  \<^verbatim>\<open>mymuduo/Logger\<close> and \<^verbatim>\<open>Timestamp::toString\<close>.  The logger is one object for the whole process: its level
  is set by one statement of a logging macro and read by a later one.  What it prints is the list
  \<open>out\<close>; \<open>localtime\<close> is \<^verbatim>\<open>localtime_r\<close>.
\<close>

section \<open>Time as text\<close>

record tm =
  tm_year :: int
  tm_mon :: int
  tm_mday :: int
  tm_hour :: int
  tm_min :: int
  tm_sec :: int

text \<open>\<^verbatim>\<open>%4d\<close> and \<^verbatim>\<open>%02d\<close>.\<close>

definition pad_left :: "nat \<Rightarrow> char \<Rightarrow> string \<Rightarrow> string" where
  "pad_left w c s = replicate (w - length s) c @ s"

definition fmt_4d :: "int \<Rightarrow> string" where
  "fmt_4d i = pad_left 4 CHR '' '' (int_str i)"

definition fmt_02d :: "int \<Rightarrow> string" where
  "fmt_02d i = (if i < 0 then ''-'' @ pad_left 1 CHR ''0'' (nat_str (nat (- i))) else pad_left 2 CHR ''0'' (nat_str (nat i)))"

text \<open>The division by a million truncates towards zero.\<close>

definition toString :: "(int \<Rightarrow> tm) \<Rightarrow> int \<Rightarrow> string" where
  "toString localtime ms =
     (let sec = sgn ms * (\<bar>ms\<bar> div (1000 * 1000)); t = localtime sec
      in take 127 (fmt_4d (tm_year t + 1900) @ ''/'' @ fmt_02d (tm_mon t + 1) @ ''/'' @ fmt_02d (tm_mday t) @ '' '' @
           fmt_02d (tm_hour t) @ '':'' @ fmt_02d (tm_min t) @ '':'' @ fmt_02d (tm_sec t)))"

section \<open>The logger\<close>

datatype LogLevel = INFO | ERROR | FATAL | DEBUG

fun level_int :: "LogLevel \<Rightarrow> int" where
  "level_int INFO = 0" | "level_int ERROR = 1" | "level_int FATAL = 2" | "level_int DEBUG = 3"

record logger =
  logLevel :: int
  out :: "string list"

definition setLogLevel :: "int \<Rightarrow> logger \<Rightarrow> logger" where
  "setLogLevel level lg = lg\<lparr>logLevel := level\<rparr>"

definition levelStr :: "string list" where
  "levelStr = [''[INFO]'', ''[ERROR]'', ''[FATAL]'', ''[DEBUG]'']"

definition log_line :: "(int \<Rightarrow> tm) \<Rightarrow> int \<Rightarrow> string \<Rightarrow> nat \<Rightarrow> string \<Rightarrow> logger \<Rightarrow> logger result" where
  "log_line localtime now src line msg lg =
     (if 0 \<le> logLevel lg \<and> logLevel lg < int (length levelStr)
      then Inr (lg\<lparr>out := out lg @ [toString localtime now @ '' '' @ levelStr ! nat (logLevel lg) @ '' '' @ src @ '':'' @
             nat_str line @ '' - '' @ msg]\<rparr>)
      else Inl OutOfBounds)"

text \<open>A macro, as the two statements that touch the shared logger; \<open>body\<close> is what the format and its
  arguments produce, of which 1023 characters fit the buffer.\<close>

datatype log_stmt = SetLevel int | Emit int string nat string

definition log_macro :: "LogLevel \<Rightarrow> int \<Rightarrow> string \<Rightarrow> nat \<Rightarrow> string \<Rightarrow> log_stmt list" where
  "log_macro l now src line body = [SetLevel (level_int l), Emit now src line (take 1023 body)]"

fun exec_stmt :: "(int \<Rightarrow> tm) \<Rightarrow> log_stmt \<Rightarrow> logger \<Rightarrow> logger result" where
  "exec_stmt lt (SetLevel n) lg = Inr (setLogLevel n lg)"
| "exec_stmt lt (Emit now src line msg) lg = log_line lt now src line msg lg"

fun exec_stmts :: "(int \<Rightarrow> tm) \<Rightarrow> log_stmt list \<Rightarrow> logger \<Rightarrow> logger result" where
  "exec_stmts lt [] lg = Inr lg"
| "exec_stmts lt (s # ss) lg = rbind (exec_stmt lt s lg) (exec_stmts lt ss)"

text \<open>\<^verbatim>\<open>LOG_FATAL\<close> ends the process after the line is printed.\<close>

definition log_call :: "(int \<Rightarrow> tm) \<Rightarrow> LogLevel \<Rightarrow> int \<Rightarrow> string \<Rightarrow> nat \<Rightarrow> string \<Rightarrow> logger \<Rightarrow> (logger \<times> bool) result" where
  "log_call lt l now src line body lg =
     rbind (exec_stmts lt (log_macro l now src line body) lg) (\<lambda>lg. Inr (lg, l = FATAL))"

section \<open>Lines\<close>

definition the_line :: "(int \<Rightarrow> tm) \<Rightarrow> LogLevel \<Rightarrow> int \<Rightarrow> string \<Rightarrow> nat \<Rightarrow> string \<Rightarrow> string" where
  "the_line lt l now src line body = toString lt now @ '' '' @ levelStr ! nat (level_int l) @ '' '' @ src @ '':'' @
     nat_str line @ '' - '' @ take 1023 body"

lemma level_range: "0 \<le> level_int l" "level_int l < int (length levelStr)"
  by (cases l; simp add: levelStr_def)+

lemma emit_at_level:
  "logLevel lg = level_int l \<Longrightarrow>
     log_line lt now src line (take 1023 body) lg = Inr (lg\<lparr>out := out lg @ [the_line lt l now src line body]\<rparr>)"
  using level_range [of l] by (simp add: log_line_def the_line_def)

section \<open>Properties\<close>

text \<open>Alone, a logging macro prints exactly one line, at its own level, and only \<^verbatim>\<open>LOG_FATAL\<close> ends the
  process.  With two threads it need not: a macro's statements may be separated, and there is an
  interleaving in which the line of an error is printed at the level of the other thread's message.\<close>

theorem log_levels:
  "log_call lt l now src line body lg =
     Inr (lg\<lparr>logLevel := level_int l, out := out lg @ [the_line lt l now src line body]\<rparr>, l = FATAL) \<and>
   (\<exists>zs \<in> shuffles (log_macro ERROR now src line body) (log_macro INFO now2 src2 line2 body2).
     exec_stmts lt zs lg = Inr (lg\<lparr>logLevel := level_int INFO,
       out := out lg @ [the_line lt INFO now src line body, the_line lt INFO now2 src2 line2 body2]\<rparr>))"
proof
  show "log_call lt l now src line body lg =
     Inr (lg\<lparr>logLevel := level_int l, out := out lg @ [the_line lt l now src line body]\<rparr>, l = FATAL)"
    by (simp add: log_call_def log_macro_def setLogLevel_def emit_at_level [of _ l])
  let ?e = "Emit now src line (take 1023 body)" and ?i = "Emit now2 src2 line2 (take 1023 body2)"
  let ?zs = "[SetLevel (level_int ERROR), SetLevel (level_int INFO), ?e, ?i]"
  have "?zs \<in> shuffles (log_macro ERROR now src line body) (log_macro INFO now2 src2 line2 body2)"
    by (simp add: log_macro_def Cons_in_shuffles_iff)
  moreover have "exec_stmts lt ?zs lg = Inr (lg\<lparr>logLevel := level_int INFO,
       out := out lg @ [the_line lt INFO now src line body, the_line lt INFO now2 src2 line2 body2]\<rparr>)"
    by (simp add: setLogLevel_def emit_at_level [of _ INFO])
  ultimately show "\<exists>zs \<in> shuffles (log_macro ERROR now src line body) (log_macro INFO now2 src2 line2 body2).
     exec_stmts lt zs lg = Inr (lg\<lparr>logLevel := level_int INFO,
       out := out lg @ [the_line lt INFO now src line body, the_line lt INFO now2 src2 line2 body2]\<rparr>)" by blast
qed

end
