(* ===== verification/Chat_Main.thy ===== *)
theory Chat_Main
  imports Chat_Server Addresses
begin

text \<open>
  \<^verbatim>\<open>src/main.cpp\<close> and the constructors it runs: the event loop, the address, the chat server with its
  acceptor and timer, and \<^verbatim>\<open>start\<close>.  What the operating system answers on the way is the record
  \<open>os_answers\<close>.
\<close>

section \<open>The program\<close>

record os_answers =
  muduo_use_poll :: bool                              \<comment> \<open>the environment variable \<^verbatim>\<open>MUDUO_USE_POLL\<close>\<close>
  epoll_fd :: int
  kernel :: "ctl_call list \<Rightarrow> ctl_call \<Rightarrow> bool"        \<comment> \<open>\<^verbatim>\<open>epoll_ctl\<close>\<close>
  os_tid :: nat
  timer_fd :: int
  event_fd :: int
  listen_fd :: int
  bind_ok :: bool
  listen_ok :: bool
  inet_addr :: "string \<Rightarrow> 32 word"
  os_clock :: "nat \<Rightarrow> int"
  timer_ptrs :: "nat \<Rightarrow> nat"                          \<comment> \<open>addresses of the timers\<close>
  chan_ptrs :: "cptr \<times> cptr \<times> cptr"                   \<comment> \<open>addresses of the timer, wake-up and accept channels\<close>
  thread_loops :: "nat \<Rightarrow> lid"                        \<comment> \<open>the loops of the started threads\<close>
  new_conns :: "nat \<Rightarrow> cid \<times> cptr \<times> write_result list"

text \<open>\<^verbatim>\<open>EventLoop::EventLoop\<close>, with \<open>loop_here\<close> for \<^verbatim>\<open>t_loopInThisThread\<close>; the timer queue it makes registers
  its channel with the poller first.\<close>

definition newEventLoop :: "bool \<Rightarrow> os_answers \<Rightarrow> loop_functor event_loop result" where
  "newEventLoop loop_here os =
     (case newDefaultPoller (muduo_use_poll os) (kernel os) of
        None \<Rightarrow> if timer_fd os < 0 then Inl Fatal else Inl NullPointer
      | Some ep \<Rightarrow>
          if epoll_fd os < 0 then Inl Fatal
          else if timer_fd os < 0 then Inl Fatal
          else
            (let (tp, wp, ap) = chan_ptrs os;
                 (ep, tch) = enableReading tp (ep, setReadCallback (mkChannel (timer_fd os)))
             in if fatal ep then Inl Fatal
                else if event_fd os < 0 then Inl Fatal
                else if loop_here then Inl Fatal
                else
                  (let l = mkEventLoop (os_tid os) ep (init_queue (timer_ptrs os) (os_clock os)) wp (event_fd os)
                   in if fatal (poller l) then Inl Fatal else Inr l)))"

text \<open>\<^verbatim>\<open>main\<close> up to \<^verbatim>\<open>loop.loop()\<close>; loop 0 is its own.\<close>

definition chat_main ::
  "'d chat_env \<Rightarrow> os_answers \<Rightarrow> 'd \<Rightarrow> (nat \<Rightarrow> int) \<Rightarrow> (cid \<Rightarrow> conn) \<Rightarrow> (lid \<Rightarrow> loop_functor event_loop) \<Rightarrow>
    (string \<Rightarrow> nat \<Rightarrow> char) \<Rightarrow> 'd cnet result" where
  "chat_main env os d ck cs0 ls0 mem =
     rbind (newEventLoop False os) (\<lambda>loop.
       let addr = mkInetAddress (inet_addr os) 9190 ''0.0.0.0'';
           (tp, wp, ap) = chan_ptrs os
       in rbind (open_acceptor (listen_fd os) (bind_ok os)) (\<lambda>ch.
            let s = (mkChatServer env 0 (toIpPort addr) ''mytestserver'' ap (listen_fd os) (new_conns os) d ck)
                      \<lparr>acceptChannel := ch, listenOk := listen_ok os\<rparr>;
                net = \<lparr>conns = cs0, evloops = ls0(0 := loop), curThread = os_tid os, stale = mem, usr = s\<rparr>
            in server_start (thread_loops os) (startTimer net)))"

section \<open>Starting\<close>

definition os_ok :: "os_answers \<Rightarrow> bool" where
  "os_ok os \<longleftrightarrow> \<not> muduo_use_poll os \<and> epoll_ctl_spec (kernel os) \<and> 0 \<le> epoll_fd os \<and> 0 \<le> timer_fd os \<and> 0 \<le> event_fd os \<and>
     0 \<le> listen_fd os \<and> distinct [timer_fd os, event_fd os, listen_fd os] \<and> bind_ok os \<and> listen_ok os"

lemma interest_Nil [simp]: "interest [] = Map.empty"
  by (simp add: interest_def)

lemma newEventLoop_ok:
  assumes "os_ok os"
  obtains l where "newEventLoop False os = Inr l" "\<not> fatal (poller l)" "epoll_ctl (poller l) = kernel os"
    "interest (ctl_calls (poller l)) (listen_fd os) = None" "threadId l = os_tid os"
    "timerQueue l = init_queue (timer_ptrs os) (os_clock os)"
    "channels (poller l) (timer_fd os) = Some (fst (chan_ptrs os))"
    "channels (poller l) (event_fd os) = Some (fst (snd (chan_ptrs os)))"
proof -
  obtain tp wp ap where p: "chan_ptrs os = (tp, wp, ap)" by (cases "chan_ptrs os")
  let ?e0 = "mkEPollPoller (kernel os)"
  let ?t = "setReadCallback (mkChannel (timer_fd os))" and ?w = "setReadCallback (mkChannel (event_fd os))"
  let ?e1 = "fst (enableReading tp (?e0, ?t))" and ?e2 = "\<lambda>e. fst (enableReading wp (e, ?w))"
  have e0: "epoll_ctl_spec (epoll_ctl ?e0)" "\<not> fatal ?e0" "interest (ctl_calls ?e0) = Map.empty" "channels ?e0 = Map.empty"
    "epoll_ctl ?e0 = kernel os"
    using assms by (simp_all add: os_ok_def mkEPollPoller_def)
  have new: "index ?t = kNew" "index ?w = kNew" "fd ?t = timer_fd os" "fd ?w = event_fd os"
    by (simp_all add: setReadCallback_def mkChannel_def kNew_def)
  have i0: "interest (ctl_calls ?e0) (fd ?t) = None" by (simp add: e0)
  note r1 = enableReading_new [OF e0(1,2) new(1) i0, of tp]
  have c1: "epoll_ctl_spec (epoll_ctl ?e1)" using r1(4) e0 by simp
  have i1: "interest (ctl_calls ?e1) (fd ?w) = None" using r1(3) e0 new assms by (simp add: os_ok_def)
  note r2 = enableReading_new [OF c1 r1(1) new(2) i1, of wp]
  let ?l = "mkEventLoop (os_tid os) ?e1 (init_queue (timer_ptrs os) (os_clock os)) wp (event_fd os)
    :: loop_functor event_loop"
  have pl: "poller ?l = ?e2 ?e1" by (simp add: mkEventLoop_def Let_def case_prod_unfold)
  have "newEventLoop False os = Inr ?l"
    using assms r1(1) r2(1) pl by (simp add: newEventLoop_def newDefaultPoller_def os_ok_def p Let_def case_prod_unfold)
  then show ?thesis
  proof (rule that)
    show "\<not> fatal (poller ?l)" "epoll_ctl (poller ?l) = kernel os"
      "interest (ctl_calls (poller ?l)) (listen_fd os) = None"
      "channels (poller ?l) (timer_fd os) = Some (fst (chan_ptrs os))"
      "channels (poller ?l) (event_fd os) = Some (fst (snd (chan_ptrs os)))"
      using r1 r2 e0 new assms unfolding pl p by (auto simp: os_ok_def)
  qed (simp_all add: mkEventLoop_def Let_def case_prod_unfold)
qed

text \<open>The timer of the constructor, on a fresh queue.\<close>

lemma startTimer_loop:
  assumes "srv_loop (usr net) = 0" and "timerQueue (evloops net 0) = init_queue al cl"
  shows "timers (timerQueue (evloops (startTimer net) 0)) = [(addTime (cl 0) 10800, al 0)]"
    and "armedFor (timerQueue (evloops (startTimer net) 0)) = Some (addTime (cl 0) 10800)"
    and "poller (evloops (startTimer net) 0) = poller (evloops net 0)"
    and "threadId (evloops (startTimer net) 0) = threadId (evloops net 0)"
    and "usr (startTimer net) = usr net" and "curThread (startTimer net) = curThread net"
  using assms
  by (simp_all add: startTimer_def upd_loop_def runEvery_loop_def runEvery_def case_prod_unfold tq_eval)

definition demo_os :: os_answers where
  "demo_os = \<lparr>muduo_use_poll = False, epoll_fd = 3, kernel = (\<lambda>h c. True), os_tid = 1, timer_fd = 4, event_fd = 5,
     listen_fd = 6, bind_ok = True, listen_ok = True, inet_addr = (\<lambda>_. 0), os_clock = (\<lambda>_. 7), timer_ptrs = Suc,
     chan_ptrs = (10, 11, 12), thread_loops = Suc, new_conns = (\<lambda>i. (i, i + 20, []))\<rparr>"

lemma demo_os_ok: "os_ok demo_os"
  by (simp add: os_ok_def demo_os_def epoll_ctl_spec_def)

section \<open>Properties\<close>

text \<open>C26: the program comes up.  When the operating system answers without errors, \<^verbatim>\<open>main\<close> reaches its loop
  with the listening socket registered for reading, three I/O loops over which connections are dealt,
  no connection yet, and the keep-alive timer armed three hours ahead.\<close>

theorem main_starts:
  assumes "os_ok os"
  shows "\<exists>net. chat_main env os d ck cs0 ls0 mem = Inr net \<and> listenning (usr net) \<and>
    channels (poller (evloops net 0)) (listen_fd os) = Some (snd (snd (chan_ptrs os))) \<and>
    interest (ctl_calls (poller (evloops net 0))) (listen_fd os) = Some (kReadEvent, snd (snd (chan_ptrs os))) \<and>
    \<not> fatal (poller (evloops net 0)) \<and>
    getAllLoops (pool (usr net)) = map (thread_loops os) [0..<3] \<and>
    connections (usr net) = Map.empty \<and>
    armedFor (timerQueue (evloops net 0)) = Some (addTime (os_clock os 0) 10800)"
proof -
  obtain tp wp ap where p: "chan_ptrs os = (tp, wp, ap)" by (cases "chan_ptrs os")
  obtain l where l: "newEventLoop False os = Inr l" "\<not> fatal (poller l)" "epoll_ctl (poller l) = kernel os"
    "interest (ctl_calls (poller l)) (listen_fd os) = None" "threadId l = os_tid os"
    "timerQueue l = init_queue (timer_ptrs os) (os_clock os)"
    using newEventLoop_ok [OF assms] by metis
  let ?ch = "setReadCallback (mkChannel (listen_fd os))"
  let ?s = "(mkChatServer env 0 (toIpPort (mkInetAddress (inet_addr os) 9190 ''0.0.0.0'')) ''mytestserver'' ap (listen_fd os)
      (new_conns os) d ck)\<lparr>acceptChannel := ?ch, listenOk := listen_ok os\<rparr>"
  let ?net = "\<lparr>conns = cs0, evloops = ls0(0 := l), curThread = os_tid os, stale = mem, usr = ?s\<rparr>"
  have new: "index ?ch = kNew" "fd ?ch = listen_fd os" "events ?ch = 0"
    by (simp_all add: setReadCallback_def mkChannel_def kNew_def)
  have k: "epoll_ctl_spec (epoll_ctl (poller l))" using assms l by (simp add: os_ok_def)
  have i: "interest (ctl_calls (poller l)) (fd ?ch) = None" using l new by simp
  note r = enableReading_new [OF k l(2) new(1) i, of ap]
  have sl: "srv_loop (usr ?net) = 0" by (simp add: mkChatServer_def mkTcpServer_def Let_def)
  note t = startTimer_loop [OF sl, of "timer_ptrs os" "os_clock os"]
  have main: "chat_main env os d ck cs0 ls0 mem = server_start (thread_loops os) (startTimer ?net)"
    using assms l(1) by (simp add: chat_main_def open_acceptor_def os_ok_def p Let_def)
  show ?thesis
    using t l r new assms unfolding main
    by (auto simp: server_start_def runInLoop_def inLoopThread_def isInLoopThread_def acceptor_listen_def
        on_accept_channel_def upd_loop_def upd_usr_def Let_def mkChatServer_def mkTcpServer_def os_ok_def
        pool_start_def getAllLoops_def setThreadNum_def mkThreadPool_def p upt_rec)
qed

theorem main_starts_witness:
  "\<exists>net. chat_main demo_env demo_os Map.empty (\<lambda>i. 0) (\<lambda>_. demo_conn [] []) (\<lambda>_. demo_loop) (\<lambda>s i. CHR 0x00)
      = Inr net \<and> listenning (usr net) \<and> getAllLoops (pool (usr net)) = [1, 2, 3]"
  using main_starts [OF demo_os_ok, of "demo_env" Map.empty "\<lambda>i. 0" "\<lambda>_. demo_conn [] []" "\<lambda>_. demo_loop"
      "\<lambda>s i. CHR 0x00"]
  by (auto simp: demo_os_def upt_rec)

text \<open>The program does not come up half way.  A failing \<^verbatim>\<open>socket\<close>, \<^verbatim>\<open>bind\<close> or \<^verbatim>\<open>listen\<close> ends the process
  with a fatal error; so does a second loop in the same thread; and with \<^verbatim>\<open>MUDUO_USE_POLL\<close> in its
  environment the process calls through a null pointer, since there is no poller to use.\<close>

theorem start_failures:
  assumes "os_ok os"
  shows "chat_main env (os\<lparr>bind_ok := False\<rparr>) d ck cs0 ls0 mem = Inl Fatal"
    and "chat_main env (os\<lparr>listen_ok := False\<rparr>) d ck cs0 ls0 mem = Inl Fatal"
    and "newEventLoop True os = Inl Fatal"
    and "chat_main env (os\<lparr>muduo_use_poll := True\<rparr>) d ck cs0 ls0 mem = Inl NullPointer"
proof -
  obtain l where l: "newEventLoop False os = Inr l" "threadId l = os_tid os"
    "timerQueue l = init_queue (timer_ptrs os) (os_clock os)"
    using newEventLoop_ok [OF assms] by metis
  have same: "newEventLoop h (os\<lparr>bind_ok := b\<rparr>) = newEventLoop h os" "newEventLoop h (os\<lparr>listen_ok := b\<rparr>) = newEventLoop h os" for h b
    by (simp_all add: newEventLoop_def Let_def case_prod_unfold split: option.split)
  show "chat_main env (os\<lparr>bind_ok := False\<rparr>) d ck cs0 ls0 mem = Inl Fatal"
    using l by (simp add: chat_main_def same open_acceptor_def case_prod_unfold)
  show "chat_main env (os\<lparr>muduo_use_poll := True\<rparr>) d ck cs0 ls0 mem = Inl NullPointer"
    using assms by (simp add: chat_main_def newEventLoop_def newDefaultPoller_def os_ok_def)
  show "newEventLoop True os = Inl Fatal"
    using l(1) by (auto simp: newEventLoop_def Let_def case_prod_unfold split: option.splits if_splits)
  show "chat_main env (os\<lparr>listen_ok := False\<rparr>) d ck cs0 ls0 mem = Inl Fatal"
  proof -
    let ?s = "(mkChatServer env 0 (toIpPort (mkInetAddress (inet_addr os) 9190 ''0.0.0.0'')) ''mytestserver''
        (snd (snd (chan_ptrs os))) (listen_fd os) (new_conns os) d ck)
        \<lparr>acceptChannel := setReadCallback (mkChannel (listen_fd os)), listenOk := False\<rparr>"
    let ?net = "\<lparr>conns = cs0, evloops = ls0(0 := l), curThread = os_tid os, stale = mem, usr = ?s\<rparr>"
    have sl: "srv_loop (usr ?net) = 0" by (simp add: mkChatServer_def mkTcpServer_def Let_def)
    have "chat_main env (os\<lparr>listen_ok := False\<rparr>) d ck cs0 ls0 mem = server_start (thread_loops os) (startTimer ?net)"
      using assms l(1) by (simp add: chat_main_def same open_acceptor_def os_ok_def case_prod_unfold Let_def)
    also have "\<dots> = Inl Fatal"
      using startTimer_loop [OF sl, of "timer_ptrs os" "os_clock os"] l
      by (simp add: server_start_def runInLoop_def inLoopThread_def isInLoopThread_def acceptor_listen_def
          upd_usr_def Let_def mkChatServer_def mkTcpServer_def)
    finally show ?thesis .
  qed
qed

theorem start_failures_witness:
  "chat_main demo_env (demo_os\<lparr>listen_ok := False\<rparr>) Map.empty (\<lambda>i. 0) (\<lambda>_. demo_conn [] [])
     (\<lambda>_. demo_loop) (\<lambda>s i. CHR 0x00) = Inl Fatal"
  using start_failures(2) [OF demo_os_ok] .

end
