(* ===== verification/Spec2Isabelle.thy ===== *)
theory Spec2Isabelle
  imports Net_Buffer WebSocket Timers Poller Event_Loop Threads Connection Server Sockets Lifetimes Test_Server Database Sessions Json
    Chat_Service Chat_Server Chat_Security Chat_Frames Chat_Http Chat_Lifetimes Addresses Logging Chat_Main
begin

text \<open>
  A verification development for MyTestserver: a chat server over WebSocket, with accounts and history
  in MySQL, on its own epoll-based network library (one loop per thread).

  \<^bold>\<open>The program.\<close>  The library is \<^verbatim>\<open>src/mymuduo\<close>.  An \<^verbatim>\<open>EventLoop\<close> owns a poller, a timer queue and a list of
  functors other threads may queue; a \<^verbatim>\<open>Channel\<close> is a descriptor's interest and callbacks; a
  \<^verbatim>\<open>TcpConnection\<close> has two \<^verbatim>\<open>Buffer\<close>s and a state; a \<^verbatim>\<open>TcpServer\<close> accepts connections in the main loop and
  deals them to the loops of a thread pool.  The application is \<^verbatim>\<open>src/src\<close> and \<^verbatim>\<open>src/db\<close>: \<^verbatim>\<open>ChatServer\<close>
  registers the callbacks, speaks HTTP and WebSocket (\<^verbatim>\<open>WebSocketHandler\<close>) and hands JSON messages to
  \<^verbatim>\<open>ChatService\<close>, which uses \<^verbatim>\<open>UserDao\<close>, \<^verbatim>\<open>MessageDao\<close> and \<^verbatim>\<open>SessionManager\<close>.  \<^verbatim>\<open>TestServer\<close> is an echo server.

  \<^bold>\<open>The theories\<close>, from the bottom:
  \<^item> \<open>Prelude\<close>: results of code that throws or exits (\<open>crash + 'a\<close> with \<open>rbind\<close>), \<^verbatim>\<open>std::string\<close> searches and
    decimal text, and two locales: \<open>event_machine\<close> (what one event keeps, every run keeps) and
    \<open>ranked_machine\<close> (steps that lower a rank: runs are bounded and come to rest).
  \<^item> \<open>Net_Buffer\<close> (\<^verbatim>\<open>Buffer\<close>): the vector and its two indices.  The buffer refines a queue of bytes (locale
    \<open>byte_queue\<close>), and no operation leaves the vector.
  \<^item> \<open>WebSocket\<close> (\<^verbatim>\<open>WebSocketHandler\<close>): handshake, frame decoder and encoder on bytes and 64-bit words,
    against the wire format of RFC 6455: what the decoder accepts, exactly; round trips; memory safety;
    and what it does with unmasked frames and with lengths near \<open>2\<^sup>6\<^sup>4\<close>.
  \<^item> \<open>Timers\<close> (\<^verbatim>\<open>Timer\<close>, \<^verbatim>\<open>TimerQueue\<close>, \<^verbatim>\<open>Timestamp\<close>): the queue over a heap of timers, the timer descriptor
    and callbacks that add and cancel timers.  Its invariant, which timers fire and are queued again,
    and that no timer is forgotten.
  \<^item> \<open>Poller\<close> (\<^verbatim>\<open>Channel\<close>, \<^verbatim>\<open>Poller\<close>, \<^verbatim>\<open>EPollPoller\<close>, \<^verbatim>\<open>DefaultPoller\<close>): the poller's map and the calls it makes;
    the kernel's view never diverges from it.
  \<^item> \<open>Event_Loop\<close> (\<^verbatim>\<open>EventLoop\<close>, \<^verbatim>\<open>EventLoopThreadPool\<close>): the wake-up protocol as a step relation over the
    lines of \<^verbatim>\<open>loop()\<close> and of the other threads: no functor is lost, they run in order.
  \<^item> \<open>Threads\<close> (\<^verbatim>\<open>Thread\<close>, \<^verbatim>\<open>CurrentThread\<close>, \<^verbatim>\<open>EventLoopThread\<close>): the start and the end of a loop thread as a step
    relation of its two threads, with semaphore, mutex and condition variable.  \<^verbatim>\<open>startLoop\<close> returns the
    loop, alive; every run has at most 52 steps and ends joined, or in the one deadlock there is.
  \<^item> \<open>Connection\<close> (\<^verbatim>\<open>TcpConnection\<close>): all connections and loops in one record \<open>net\<close>; the bytes handed to a
    connection are sent in order and completely, and it closes its sending side only when it is drained.
  \<^item> \<open>Server\<close> (\<^verbatim>\<open>TcpServer\<close>, \<^verbatim>\<open>Acceptor\<close>, the body of \<^verbatim>\<open>EventLoop::loop\<close>): the server is the application part of
    \<open>net\<close>.  The locale \<open>server_app\<close> says what the server needs of an application; it is interpreted for
    the echo server and for the chat.
  \<^item> \<open>Sockets\<close> (\<^verbatim>\<open>Socket\<close>, the descriptors of \<^verbatim>\<open>Acceptor\<close>, \<^verbatim>\<open>TcpConnection\<close> and \<^verbatim>\<open>EventLoop\<close>): the kernel's table of
    descriptors and the objects that own them.  Every descriptor is closed once, by its owner; the
    acceptor sets its options before it binds.
  \<^item> \<open>Lifetimes\<close>: who holds a \<^verbatim>\<open>TcpConnection\<close> alive while the loops run interleaved, one functor or
    handler at a time; a functor with a plain \<^verbatim>\<open>this\<close> is never called on a destroyed connection.  The
    locale \<open>behaved_app\<close> says what this needs of the application; \<open>Chat_Lifetimes\<close> shows it of the chat.
  \<^item> \<open>Test_Server\<close> (\<^verbatim>\<open>TestServer\<close>), \<open>Addresses\<close> (\<^verbatim>\<open>InetAddress\<close>), \<open>Logging\<close> (\<^verbatim>\<open>Logger\<close>, \<^verbatim>\<open>Timestamp::toString\<close>).
  \<^item> \<open>Database\<close> (\<^verbatim>\<open>DbConnection\<close>, \<^verbatim>\<open>UserDao\<close>, \<^verbatim>\<open>MessageDao\<close>): the statements and what is made of their
    results.  Text cannot leave its quotes; an account can be used exactly with its password.
  \<^item> \<open>Sessions\<close> (\<^verbatim>\<open>SessionManager\<close>): the table (locale \<open>session_table\<close>) and the broadcast.
  \<^item> \<open>Json\<close> (of \<^verbatim>\<open>thirdparty/json.hpp\<close>): values, member access, conversion, printing with its UTF-8 check.
    \<open>Json_Lexer\<close> and \<open>Json_Parser\<close>: the lexer over its input adapter and the parser's loop with its stack
    and its pointers into the value it builds.  \<open>Json_Grammar\<close> proves the loop equal to the recursive
    grammar of RFC 8259, \<open>Json_Utf8\<close> the printer's automaton equal to the lexer's byte ranges, \<open>Json_Strings\<close>
    and \<open>Json_Roundtrip\<close> that what is printed parses back and what is parsed can be printed.
  \<^item> \<open>Chat_Service\<close> (\<^verbatim>\<open>ChatService\<close>, \<^verbatim>\<open>Protocol.h\<close>) and \<open>Chat_Server\<close> (\<^verbatim>\<open>ChatServer\<close>): every handler, and the
    invariant of the sessions over all runs of the callbacks.
  \<^item> \<open>Chat_Frames\<close>: the frame loop of \<^verbatim>\<open>onMessage\<close> equals a reference that splits the input without state;
    pieces of input, client frames, unsupported frames.  \<open>Chat_Http\<close>: answers to HTTP requests and the
    upgrade.  \<open>Chat_Security\<close>: failed log-ins, exceptions, and a
    second log-in on one connection, which locks the first account out.  \<open>Chat_Main\<close> (\<^verbatim>\<open>main.cpp\<close>): starting up.
  \<^item> This theory: properties in which the application and the library act together.

  \<^bold>\<open>How code becomes definitions.\<close>  A class is a record with the source's fields, a member function a
  definition of the same name on it (with a suffix where two classes share a name); where objects refer
  to each other by pointer they are kept in maps from addresses (\<open>conns\<close>, \<open>evloops\<close>, the timers' \<open>heap\<close>).
  \<^verbatim>\<open>LOG_FATAL\<close>, exceptions and reads outside an array are values of \<open>crash\<close>.  \<^verbatim>\<open>std::bind\<close> of a functor is a
  constructor of \<open>loop_functor\<close>, executed by \<open>run_functor\<close>; a \<^verbatim>\<open>const char*\<close> bound in one keeps only the
  address, so its characters are read from \<open>stale\<close> when it runs.  Lengths and masks are 64- and 8-bit
  words; indices into buffers are natural numbers below the size of the vector.

  \<^bold>\<open>Parameters.\<close>  System calls answer from the state or from arguments (\<open>kwrites\<close>, \<open>read_result\<close>, \<open>epoll_ctl\<close>,
  \<open>os_answers\<close>; \<^verbatim>\<open>socket\<close> and \<^verbatim>\<open>accept4\<close> return unused descriptors or fail, \<^verbatim>\<open>bind\<close> decides by the socket's
  options, and the allocator returns unused addresses); MySQL is \<open>mysql_api\<close>, with two hypotheses where needed: \<open>escapes\<close> (what the manual says of
  \<^verbatim>\<open>mysql_real_escape_string\<close>) and \<open>users_table\<close> (the two statements read and write one table).  SHA-1,
  base64, \<^verbatim>\<open>strtod\<close>, the file system and uninitialised memory are fields of \<open>chat_env\<close>.

  \<^bold>\<open>Bounds.\<close>  All loops are total functions: the frame loop ends since each turn consumes two bytes at
  least, the loops of the JSON lexer and parser since they consume input (\<open>avail\<close>, \<open>sax_variant\<close>); no
  fuel is used.  Names of connections are distinct for fewer than \<open>2\<^sup>3\<^sup>1\<close> connections, the
  range of the counter.  The theorems on frames ask for less than \<open>2\<^sup>6\<^sup>3\<close> or \<open>2\<^sup>6\<^sup>4\<close> bytes of input, more than
  an address space holds.

  \<^bold>\<open>Not modelled.\<close>  The browser's pages under \<^verbatim>\<open>web/\<close> and the build files; the conversion of
  floating-point numbers from and to text; of \<^verbatim>\<open>json.hpp\<close> what the server never calls; the
  C++ memory model (each step of a thread is atomic, so the data races on \<^verbatim>\<open>connectionStates_\<close>
  and on the MySQL connections are noted, not modelled).
\<close>

section \<open>The chat server as a client of the network library\<close>

lemma chat_with_server [simp]: "with_server (chat_callbacks env) = chat_callbacks env"
  by (simp add: with_server_def chat_callbacks_def)

lemma ready_upd_chat [simp]:
  "ready d (upd_chat f net) = ready d net" "conns (upd_chat f net) = conns net"
  "inLoopThread l (upd_chat f net) = inLoopThread l net"
  by (simp_all add: upd_chat_def ready_def connected_def inLoopThread_def)

text \<open>A chat message of an online user with an account, when its JSON can be printed.\<close>

lemma handleChat_broadcasts:
  assumes T: "escapes (api env)" "users_table (api env) tbl" "db_connected (userDb (chat net))"
    and on: "isOnline u (sessionMgr (chat net))" and acc: "tbl (db (chat net)) u = Some (i, pw)"
    and tx: "body \<noteq> []" "valid_utf8 body" "valid_utf8 u"
  obtains js n1 where
    "dump_object env [(FIELD_MSG_TYPE, JString MSG_TYPE_BROADCAST), (FIELD_SENDER, JString u),
       (FIELD_CONTENT, JString body), (FIELD_TIMESTAMP, JInt (clk (chat net) (ticks (chat net)) div 1000000))] = Inr js"
    "handleChat env u body net = Inr (broadcastToAll (encodeFrame js) [] (sessionMgr (chat net)) n1)"
    "\<And>d. ready d n1 = ready d net" "conns n1 = conns net"
    "db (chat n1) = snd (saveMessage (api env) (messageDb (chat net)) (atoi i) body (db (chat net)))"
proof -
  let ?kvs = "[(FIELD_MSG_TYPE, JString MSG_TYPE_BROADCAST), (FIELD_SENDER, JString u),
       (FIELD_CONTENT, JString body), (FIELD_TIMESTAMP, JInt (clk (chat net) (ticks (chat net)) div 1000000))]"
  have "is_ok (dump_object env ?kvs)" using tx by (intro dump_object_ok) auto
  then obtain js where js: "dump_object env ?kvs = Inr js" by (auto simp: is_ok_iff)
  let ?n1 = "upd_chat (\<lambda>a. a\<lparr>ticks := ticks a + 1\<rparr>) (upd_chat (\<lambda>a. a\<lparr>db := snd (saveMessage (api env)
      (messageDb (chat net)) (atoi i) body (db (chat net)))\<rparr>) (upd_chat (\<lambda>a. a\<lparr>db := db (chat net)\<rparr>) net))"
  have "handleChat env u body net = Inr (broadcastToAll (encodeFrame js) [] (sessionMgr (chat net)) ?n1)"
    using on tx(1) js acc T
    by (simp add: handleChat_def with_db_def getUserByUsername_table [OF T(1,2,3)] read_clock_def case_prod_unfold Let_def)
  with js show ?thesis by (rule that) simp_all
qed

text \<open>What the receiver of a broadcast reads with the same JSON library.\<close>

lemma dump_object_reads_back:
  assumes "dump_object env kvs = Inr js" and "kvs \<noteq> []" and "\<forall>(k, v) \<in> set kvs. exact_json v \<and> json_wf v"
  shows "parse sd js = Inr (JObject (put_all kvs []))"
proof -
  have vals: "(k, v) \<in> set (put_all kvs m) \<Longrightarrow> (k, v) \<in> set m \<or> (\<exists>k'. (k', v) \<in> set kvs)" for k v m
  proof (induction kvs arbitrary: m)
    case (Cons a kvs)
    then show ?case by (cases a) (fastforce dest: obj_put_vals)
  qed simp
  have ok: "exact_json v \<and> json_wf v" if "(k, v) \<in> set (put_all kvs [])" for k v
    using vals [OF that] assms(3) by auto
  have "dump (ftoa env) (JObject (put_all kvs [])) = Inr js"
    using assms(1,2) by (simp add: dump_object_def assign_all_null put_all_def)
  moreover have "sorted_wrt str_less (map fst (put_all kvs []))" by (rule put_all_wf) simp
  ultimately show ?thesis using ok by (intro parse_dump) auto
qed

lemma broadcast_reads_back:
  assumes "dump_object env [(FIELD_MSG_TYPE, JString MSG_TYPE_BROADCAST), (FIELD_SENDER, JString u),
      (FIELD_CONTENT, JString body), (FIELD_TIMESTAMP, JInt t)] = Inr js" and "\<bar>t\<bar> < 2 ^ 63"
  shows "\<exists>m. parse sd js = Inr (JObject m) \<and> obj_get FIELD_SENDER m = Some (JString u) \<and>
    obj_get FIELD_CONTENT m = Some (JString body)"
proof -
  have "\<forall>(k, v) \<in> set [(FIELD_MSG_TYPE, JString MSG_TYPE_BROADCAST), (FIELD_SENDER, JString u),
      (FIELD_CONTENT, JString body), (FIELD_TIMESTAMP, JInt t)]. exact_json v \<and> json_wf v"
    using assms(2) by auto
  from dump_object_reads_back [OF assms(1) _ this] show ?thesis by (simp add: obj_get_def protocol_defs)
qed

definition demo_room :: "demo_db cnet" where
  "demo_room = upd_chat (\<lambda>a. a\<lparr>connectionStates := [0 \<mapsto> \<lparr>isWebSocket = True, handshakeComplete = True, username = ''ann''\<rparr>]\<rparr>)
     (demo_chat [''ann'' \<mapsto> (''1'', ''pw'')] demo_sessions)"

lemma demo_room_sel [simp]:
  "sessionMgr (chat demo_room) = demo_sessions" "db (chat demo_room) = [''ann'' \<mapsto> (''1'', ''pw'')]"
  "db_connected (userDb (chat demo_room))" "conns demo_room c = demo_conn [] []"
  "inLoopThread l demo_room = inLoopThread l (demo_chat [''ann'' \<mapsto> (''1'', ''pw'')] demo_sessions)"
  "connectionStates (chat demo_room) = [0 \<mapsto> \<lparr>isWebSocket = True, handshakeComplete = True, username = ''ann''\<rparr>]"
  by (simp_all add: demo_room_def)

lemma demo_room_ready: "ready c demo_room"
  by (simp add: ready_def demo_conn_wf healthy_def connected_def)

text \<open>A message as a client may write it.\<close>

definition demo_payload :: string where
  \<open>demo_payload = ''{"msgType": "chat", "content": "hi"}''\<close>

lemma parse_demo_payload: "parse (\<lambda>_. None) demo_payload = Inr (chat_json ''hi'')"
  by code_simp

section \<open>Properties\<close>

text \<open>C11: a connection that goes down takes its session with it.  When the socket of a connection is
  closed, on which a user has logged in, the user is offline afterwards, everybody else's session is
  as before, the chat server has forgotten the connection, and the network library unregisters it: at
  once and with its destruction queued in its loop, or by a functor queued in the server's loop.\<close>

theorem disconnect_ends_session:
  assumes "connectionStates (chat net) c = Some st" and "username st \<noteq> []"
  shows "\<exists>net'. handleClose (chat_callbacks env) c net = Inr net' \<and>
    cn_state (conns net' c) = kDisconnected \<and>
    getConnection v (sessionMgr (chat net')) =
      (if v = username st then None else getConnection v (sessionMgr (chat net))) \<and>
    connectionStates (chat net') c = None \<and>
    (if inLoopThread (srv_loop (usr net)) net
     then connections (usr net') (cn_name (conns net c)) = None \<and>
       FConnectDestroyed c \<in> set (pendingFunctors (evloops net' (cn_loop (conns net c))))
     else FRemoveConnectionInLoop c \<in> set (pendingFunctors (evloops net' (srv_loop (usr net)))))"
proof -
  let ?m = "on_channel disableAll c (setState c kDisconnected net)"
  have ch: "chat ?m = chat net" by (simp add: chat_def)
  have "cn_state (conns ?m c) \<noteq> kConnected" by simp
  from onConnection_down [OF this] obtain n1 where n1: "onConnection c ?m = Inr n1" "conns n1 = conns ?m"
    "evloops n1 = evloops ?m" "curThread n1 = curThread ?m" "srv_rest (usr n1) = srv_rest (usr ?m)"
    "connectionStates (chat n1) c = None"
    "sessionMgr (chat n1) = (if isOnline (username st) (sessionMgr (chat net))
       then removeSession (username st) (sessionMgr (chat net)) else sessionMgr (chat net))"
    using assms by (auto simp: ch)
  have sl: "srv_loop (usr n1) = srv_loop (usr net)" using srv_rest_part [OF n1(5)] by simp
  have th: "inLoopThread l n1 = inLoopThread l net" for l
    using n1(3,4) by (simp add: inLoopThread_def isInLoopThread_def)
  have "handleClose (chat_callbacks env) c net = removeConnection c n1"
    using n1(1) by (simp add: handleClose_def chat_callbacks_def)
  moreover have "getConnection v (sessionMgr (chat n1)) =
      (if v = username st then None else getConnection v (sessionMgr (chat net)))"
    by (auto simp: n1(7) getConnection_simps smgr.online_iff)
  moreover have "chat (removeConnectionInLoop c n1) = chat n1" "chat (queue_in l f n1) = chat n1" for l f
    by (simp_all add: removeConnectionInLoop_def chat_def Let_def upd_usr_def)
  ultimately show ?thesis
    using n1(2,6) sl th removeConnectionInLoop_effect [of c n1]
    by (auto simp: removeConnection_def runInLoop_def pending_queue_in)
qed

theorem disconnect_ends_session_witness:
  "\<exists>net'. handleClose (chat_callbacks demo_env) 0 demo_room = Inr net' \<and>
     getConnection ''ann'' (sessionMgr (chat net')) = None"
proof -
  let ?st = "\<lparr>isWebSocket = True, handshakeComplete = True, username = ''ann''\<rparr>"
  have "connectionStates (chat demo_room) 0 = Some ?st" "username ?st \<noteq> []" by simp_all
  from disconnect_ends_session [OF this, of demo_env "''ann''"] show ?thesis by auto
qed





text \<open>Destroying the server leaves no connection behind.  Whatever the state, for every connection the
  destructor meets, the connection is down and out of its loop's poller afterwards, or its destruction
  is queued in its loop.\<close>

theorem destructor_disposes:
  "\<exists>net'. destroy_connections (chat_callbacks env) cs net = Inr net' \<and>
    (\<forall>c \<in> set cs.
      (cn_state (conns net' c) \<noteq> kConnected \<and>
         channels (poller (evloops net' (cn_loop (conns net' c)))) (fd (cn_channel (conns net' c))) = None) \<or>
      FConnectDestroyed c \<in> set (pendingFunctors (evloops net' (cn_loop (conns net' c)))))"
  using chat_app.disposes [of env cs net] by (simp add: disposed_def)

theorem destructor_disposes_witness:
  "\<exists>net'. destroy_connections (chat_callbacks demo_env) [0] demo_room = Inr net' \<and>
     (cn_state (conns net' 0) \<noteq> kConnected \<or>
      FConnectDestroyed 0 \<in> set (pendingFunctors (evloops net' (cn_loop (conns net' 0)))))"
  using destructor_disposes [of demo_env "[0]" demo_room] by auto

end
